(* ===== verification/Prelude.thy ===== *)
theory Prelude
  imports Main "HOL-Library.Word" "HOL-Library.AList"
begin

text \<open>
  Shared vocabulary of the development: machine integers and time as the Rust code
  has them, hash maps as association lists, and the generic lemmas that the
  component theories share.  Three collections carry the automation:
  \<open>hmap_simps\<close> (lookups after an update), \<open>reg_simps\<close> (registry
  accessors) and \<open>step_simps\<close> (effects of atomic steps).
\<close>

named_theorems hmap_simps
named_theorems reg_simps
named_theorems step_simps

section \<open>Machine integers and time\<close>

type_synonym u8 = "8 word"
type_synonym u32 = "32 word"
type_synonym u64 = "64 word"

text \<open>
  \<open>i64\<close> values are integers.  Plain \<open>+\<close> and \<open>-\<close> wrap at 64 bits in a release
  build (\<open>wrap_i64\<close>); \<open>saturating_sub\<close> and float-to-int casts clip
  (\<open>sat_i64\<close>).
\<close>

type_synonym i64 = int

definition i64_min :: int where "i64_min = - (2 ^ 63)"
definition i64_max :: int where "i64_max = 2 ^ 63 - 1"

definition wrap_i64 :: "int \<Rightarrow> i64" where
  "wrap_i64 x = (x + 2 ^ 63) mod 2 ^ 64 - 2 ^ 63"

definition sat_i64 :: "int \<Rightarrow> i64" where
  "sat_i64 x = max i64_min (min i64_max x)"

definition in_i64 :: "int \<Rightarrow> bool" where
  "in_i64 x \<longleftrightarrow> i64_min \<le> x \<and> x \<le> i64_max"

lemma wrap_i64_id [simp]: "in_i64 x \<Longrightarrow> wrap_i64 x = x"
  by (simp add: in_i64_def wrap_i64_def i64_min_def i64_max_def)

lemma in_i64_wrap [simp]: "in_i64 (wrap_i64 x)"
proof -
  have "0 \<le> (x + 2 ^ 63) mod (2 ^ 64 :: int)" "(x + 2 ^ 63) mod (2 ^ 64 :: int) < 2 ^ 64"
    by simp_all
  then show ?thesis
    by (simp add: in_i64_def wrap_i64_def i64_min_def i64_max_def)
qed

lemma in_i64_sat [simp]: "in_i64 (sat_i64 x)"
  by (simp add: in_i64_def sat_i64_def i64_min_def i64_max_def)

lemma sat_i64_id [simp]: "in_i64 x \<Longrightarrow> sat_i64 x = x"
  by (simp add: in_i64_def sat_i64_def)

lemma in_i64_0 [simp]: "in_i64 0"
  by (simp add: in_i64_def i64_min_def i64_max_def)

lemma wrap_i64_cong: "x mod 2 ^ 64 = y mod 2 ^ 64 \<Longrightarrow> wrap_i64 x = wrap_i64 y"
  by (simp add: wrap_i64_def mod_add_cong)

lemma wrap_i64_mod: "wrap_i64 x mod 2 ^ 64 = x mod 2 ^ 64"
proof -
  have "wrap_i64 x mod 2 ^ 64 = (x + 2 ^ 63 - 2 ^ 63) mod 2 ^ 64"
    unfolding wrap_i64_def by (rule mod_diff_left_eq)
  then show ?thesis by simp
qed

lemma wrap_i64_add [simp]: "wrap_i64 (wrap_i64 x + y) = wrap_i64 (x + y)"
proof (rule wrap_i64_cong)
  show "(wrap_i64 x + y) mod 2 ^ 64 = (x + y) mod 2 ^ 64"
    by (rule mod_add_cong[OF wrap_i64_mod refl])
qed

lemma wrap_i64_diff [simp]: "wrap_i64 (wrap_i64 x - y) = wrap_i64 (x - y)"
  using wrap_i64_add[of x "- y"] by simp

text \<open>\<open>Instant\<close> and \<open>Duration\<close> are nanoseconds; unix timestamps are seconds.\<close>

type_synonym instant = nat
type_synonym duration = nat

definition secs :: "nat \<Rightarrow> duration" where "secs n = n * 1000000000"
definition millis :: "nat \<Rightarrow> duration" where "millis n = n * 1000000"

definition duration_max :: duration where
  "duration_max = (2 ^ 64 - 1) * 1000000000 + 999999999"

text \<open>\<open>duration_since\<close> saturates to zero for a later instant.\<close>

definition duration_since :: "instant \<Rightarrow> instant \<Rightarrow> duration" where
  "duration_since now earlier = now - earlier"

section \<open>Hash maps\<close>

text \<open>
  \<open>HashMap\<close> and \<open>DashMap\<close> are association lists with distinct keys, so that the
  operations that iterate are executable.  The iteration order of the Rust maps is
  unspecified; no result that is stated about an iteration depends on it.
\<close>

type_synonym ('k, 'v) hmap = "('k \<times> 'v) list"

abbreviation hget :: "('k, 'v) hmap \<Rightarrow> 'k \<Rightarrow> 'v option" where
  "hget m k \<equiv> map_of m k"

definition hput :: "'k \<Rightarrow> 'v \<Rightarrow> ('k, 'v) hmap \<Rightarrow> ('k, 'v) hmap" where
  "hput k v m = AList.update k v m"

definition hdel :: "'k \<Rightarrow> ('k, 'v) hmap \<Rightarrow> ('k, 'v) hmap" where
  "hdel k m = AList.delete k m"

definition hkeys :: "('k, 'v) hmap \<Rightarrow> 'k list" where
  "hkeys m = map fst m"

definition hwf :: "('k, 'v) hmap \<Rightarrow> bool" where
  "hwf m \<longleftrightarrow> distinct (hkeys m)"

lemma hget_hput [simp, hmap_simps]: "hget (hput k v m) k' = (if k' = k then Some v else hget m k')"
  by (simp add: hput_def update_conv')

lemma hget_hdel [simp, hmap_simps]: "hget (hdel k m) k' = (if k' = k then None else hget m k')"
  by (simp add: hdel_def delete_conv')

lemma hwf_empty [simp]: "hwf []"
  by (simp add: hwf_def hkeys_def)

lemma hwf_hput [simp]: "hwf m \<Longrightarrow> hwf (hput k v m)"
  by (simp add: hwf_def hkeys_def hput_def distinct_update)

lemma hwf_hdel [simp]: "hwf m \<Longrightarrow> hwf (hdel k m)"
  by (simp add: hwf_def hkeys_def hdel_def distinct_delete)

lemma hwf_filter [simp]: "hwf m \<Longrightarrow> hwf (filter P m)"
  by (simp add: hwf_def hkeys_def distinct_map_filter)

lemma hwf_in_set: "hwf m \<Longrightarrow> (k, v) \<in> set m \<longleftrightarrow> hget m k = Some v"
  by (auto simp: hwf_def hkeys_def dest: map_of_is_SomeI map_of_SomeD)

lemma set_hkeys: "set (hkeys m) = dom (hget m)"
  by (simp add: hkeys_def dom_map_of_conv_image_fst)

lemma in_hkeys [simp]: "k \<in> set (hkeys m) \<longleftrightarrow> hget m k \<noteq> None"
  by (auto simp: set_hkeys)

lemma hget_filter_key: "hwf m \<Longrightarrow>
    hget (filter P m) k = (case hget m k of None \<Rightarrow> None | Some v \<Rightarrow> if P (k, v) then Some v else None)"
proof (induction m)
  case Nil
  then show ?case by simp
next
  case (Cons a m)
  obtain k' v where a: "a = (k', v)" by (cases a)
  from Cons.prems a have "hwf m" and "k' \<notin> fst ` set m" by (simp_all add: hwf_def hkeys_def)
  then have "hget m k' = None" by (simp add: map_of_eq_None_iff)
  moreover have "hget (filter P m) k = (case hget m k of None \<Rightarrow> None
      | Some v \<Rightarrow> if P (k, v) then Some v else None)"
    using Cons.IH \<open>hwf m\<close> by simp
  ultimately show ?case using a by (cases "k = k'") auto
qed

section \<open>The contract of a keyed store\<close>

text \<open>
  What the registries rely on in the concurrent maps they are built on: a lookup after
  an insert or a removal.  The entry API (\<open>entry().or_insert_with()\<close>) is derived
  once and for all.
\<close>

locale keyed_store =
  fixes get :: "'m \<Rightarrow> 'k \<Rightarrow> 'v option"
    and put :: "'k \<Rightarrow> 'v \<Rightarrow> 'm \<Rightarrow> 'm"
    and del :: "'k \<Rightarrow> 'm \<Rightarrow> 'm"
    and inv :: "'m \<Rightarrow> bool"
  assumes get_put: "get (put k v m) k' = (if k' = k then Some v else get m k')"
    and get_del: "get (del k m) k' = (if k' = k then None else get m k')"
    and inv_put: "inv m \<Longrightarrow> inv (put k v m)"
    and inv_del: "inv m \<Longrightarrow> inv (del k m)"
begin

lemma put_put_get: "get (put k v (put k w m)) k' = get (put k v m) k'"
  by (simp add: get_put)

lemma or_insert_get:
  assumes "m' = (case get m k of Some v \<Rightarrow> m | None \<Rightarrow> put k d m)"
  shows "get m' k = Some (case get m k of Some v \<Rightarrow> v | None \<Rightarrow> d)"
  using assms by (auto simp: get_put split: option.splits)

lemma or_insert_idem:
  assumes "m' = (case get m k of Some v \<Rightarrow> m | None \<Rightarrow> put k d m)"
  shows "(case get m' k of Some v \<Rightarrow> m' | None \<Rightarrow> put k e m') = m'"
  using assms by (auto simp: get_put split: option.splits)

lemma del_all_get:
  "get (foldr del ks m) k = (if k \<in> set ks then None else get m k)"
  by (induction ks) (auto simp: get_del)

lemma inv_del_all: "inv m \<Longrightarrow> inv (foldr del ks m)"
  by (induction ks) (auto simp: inv_del)

end

interpretation hm: keyed_store hget hput hdel hwf
  by unfold_locales simp_all

section \<open>Lists\<close>

text \<open>\<open>VecDeque::retain(|id| id != x)\<close> is \<open>removeAll\<close>; \<open>remove(position)\<close> is \<open>remove1\<close>.\<close>

lemma distinct_removeAll_snoc: "distinct xs \<Longrightarrow> distinct (removeAll x xs @ [x])"
  by (simp add: distinct_removeAll)

lemma set_removeAll_snoc: "set (removeAll x xs @ [x]) = insert x (set xs)"
  by auto

lemma find_Some_iff_first:
  "List.find P xs = Some x \<Longrightarrow> P x \<and> x \<in> set xs"
  by (auto simp: find_Some_iff)

lemma length_filter_remove1:
  "x \<in> set xs \<Longrightarrow> length (remove1 x xs) + 1 = length xs"
  by (simp add: length_remove1) (metis Suc_pred length_pos_if_in_set)

section \<open>Words\<close>

lemma unat_minus_1 [simp]: "(w::'a::len word) \<noteq> 0 \<Longrightarrow> unat (w - 1) = unat w - 1"
  by (rule unat_minus_one)

lemma unat_plus_1: "unat (w::u32) + 1 < 2 ^ 32 \<Longrightarrow> unat (w + 1) = unat w + 1"
  by (simp add: unat_word_ariths)

lemma unat_of_nat_u32: "n < 2 ^ 32 \<Longrightarrow> unat (of_nat n :: u32) = n"
  by (simp add: unat_of_nat take_bit_nat_eq_self)

lemma unat_of_nat_plus_1: "n + 1 < 2 ^ 32 \<Longrightarrow> unat (of_nat n + 1 :: u32) = n + 1"
  using unat_of_nat_u32[of "n + 1"] by (simp add: add.commute)

lemma unat_sub_le: "(b::'a::len word) \<le> a \<Longrightarrow> unat (a - b) = unat a - unat b"
  by (rule unat_sub)

lemma unat_lt_u32 [simp]: "unat (w::u32) < 4294967296"
  using unsigned_less[of w] by simp

end
