(* ===== verification/F64.thy ===== *)
theory F64
  imports Prelude "HOL-Library.Log_Nat" Complex_Main
begin

text \<open>
  Rust's \<open>f64\<close>: IEEE 754 binary64 with round-to-nearest-even, executable.  A finite
  value is the rational it denotes; every arithmetic operation computes the exact
  rational result and rounds it (\<open>rnd\<close>), overflowing to an infinity.  The sign
  of zero is not represented: no operation of the program can observe it (it never
  divides by zero and compares zeros as equal).  NaN is a value of its own; every
  comparison with it is false, as in Rust.  Lemmas: rounding is monotone, exact on
  integers up to \<open>2^53\<close>, and keeps the unit interval; casts saturate.
\<close>

section \<open>Rounding\<close>

definition round_even :: "rat \<Rightarrow> int" where
  "round_even y = (let f = \<lfloor>y\<rfloor>; r = y - of_int f in
     if r < 1/2 then f else if 1/2 < r then f + 1 else if even f then f else f + 1)"

text \<open>The binary exponent of a positive rational: \<open>2^e \<le> x < 2^(e+1)\<close>.\<close>

definition ilog2 :: "rat \<Rightarrow> int" where
  "ilog2 x = (let (n, d) = quotient_of x; e = bitlen n - bitlen d in
     if 2 powi e \<le> x then e else e - 1)"

text \<open>53 significant bits, and \<open>2^-1074\<close> as the smallest step (gradual underflow).\<close>

definition ulp_exp :: "rat \<Rightarrow> int" where
  "ulp_exp x = max (ilog2 x - 52) (- 1074)"

definition rnd_pos :: "rat \<Rightarrow> rat" where
  "rnd_pos x = of_int (round_even (x / 2 powi ulp_exp x)) * 2 powi ulp_exp x"

datatype f64 = NaN | PInf | NInf | Fin rat

definition rnd :: "rat \<Rightarrow> f64" where
  "rnd x = (if x = 0 then Fin 0
     else let y = rnd_pos \<bar>x\<bar> in
       if 2 powi 1024 \<le> y then (if 0 < x then PInf else NInf)
       else Fin (if 0 < x then y else - y))"

lemma round_even_of_int [simp]: "round_even (of_int n) = n"
  by (simp add: round_even_def)

lemma round_even_lower: "\<lfloor>y\<rfloor> \<le> round_even y"
  by (simp add: round_even_def Let_def)

lemma round_even_upper: "round_even y \<le> \<lfloor>y\<rfloor> + 1"
  by (simp add: round_even_def Let_def)

lemma round_even_mono:
  assumes "x \<le> y"
  shows "round_even x \<le> round_even y"
proof (cases "\<lfloor>x\<rfloor> = \<lfloor>y\<rfloor>")
  case True
  with assms show ?thesis by (auto simp: round_even_def Let_def)
next
  case False
  with floor_mono[OF assms] have "\<lfloor>x\<rfloor> + 1 \<le> \<lfloor>y\<rfloor>" by simp
  then show ?thesis
    using round_even_upper[of x] round_even_lower[of y] by linarith
qed

lemma round_even_ge_int: "of_int n \<le> y \<Longrightarrow> n \<le> round_even y"
  using round_even_mono[of "of_int n" y] by simp

lemma round_even_le_int: "y \<le> of_int n \<Longrightarrow> round_even y \<le> n"
  using round_even_mono[of y "of_int n"] by simp

lemma quotient_of_pos:
  assumes "0 < x" and "quotient_of x = (n, d)"
  shows "0 < n" "0 < d" "x = of_int n / of_int d"
proof -
  show d: "0 < d" using assms(2) by (rule quotient_of_denom_pos)
  show x: "x = of_int n / of_int d" using assms(2) by (rule quotient_of_div)
  from assms(1) d x show "0 < n" by (simp add: zero_less_divide_iff)
qed

lemma bitlen_rat_bounds:
  assumes "0 < n"
  shows "2 powi (bitlen n - 1) \<le> (of_int n :: rat)" "(of_int n :: rat) < 2 powi bitlen n"
proof -
  have "0 < bitlen n" using assms bitlen_eq_zero_iff[of n] bitlen_nonneg[of n] by linarith
  then obtain k where k: "bitlen n = int (Suc k)"
    by (metis zero_less_imp_eq_int gr0_conv_Suc)
  then have "nat (bitlen n - 1) = k" "nat (bitlen n) = Suc k" by arith+
  then have "2 ^ k \<le> n \<and> n < 2 ^ Suc k" using bitlen_bounds[OF assms] by simp
  then have "(of_int (2 ^ k) :: rat) \<le> of_int n" "of_int n < (of_int (2 ^ Suc k) :: rat)"
    by (simp_all only: of_int_le_iff of_int_less_iff)
  moreover have "(2::rat) powi (bitlen n - 1) = of_int (2 ^ k)" by (simp add: k)
  moreover have "(2::rat) powi bitlen n = of_int (2 ^ Suc k)"
    unfolding k power_int_of_nat by simp
  ultimately show "2 powi (bitlen n - 1) \<le> (of_int n :: rat)" "(of_int n :: rat) < 2 powi bitlen n"
    by simp_all
qed

lemma ilog2_bounds:
  assumes "0 < x"
  shows "2 powi ilog2 x \<le> x" and "x < 2 powi (ilog2 x + 1)"
proof -
  obtain n d where q: "quotient_of x = (n, d)" by (cases "quotient_of x")
  note nd = quotient_of_pos[OF assms q]
  define e where "e = bitlen n - bitlen d"
  have il: "ilog2 x = (if 2 powi e \<le> x then e else e - 1)"
    by (simp add: ilog2_def q e_def)
  have dpos: "(0::rat) < of_int d" using nd(2) by simp
  have up: "x < 2 powi (e + 1)"
  proof -
    have "of_int n < (2::rat) powi bitlen n" using bitlen_rat_bounds[OF nd(1)] by simp
    also have "\<dots> = 2 powi (e + 1) * 2 powi (bitlen d - 1)"
      by (simp add: power_int_add[symmetric] e_def)
    also have "\<dots> \<le> 2 powi (e + 1) * of_int d"
      using bitlen_rat_bounds[OF nd(2)] by (intro mult_left_mono) simp_all
    finally show ?thesis using dpos by (simp add: nd(3) pos_divide_less_eq)
  qed
  have lo: "2 powi (e - 1) \<le> x"
  proof -
    have "2 powi (e - 1) * of_int d \<le> (2::rat) powi (e - 1) * 2 powi bitlen d"
      using bitlen_rat_bounds[OF nd(2)] by (intro mult_left_mono) simp_all
    also have "\<dots> = 2 powi (bitlen n - 1)"
      by (simp add: power_int_add[symmetric] e_def)
    also have "\<dots> \<le> of_int n" using bitlen_rat_bounds[OF nd(1)] by simp
    finally show ?thesis using dpos by (simp add: nd(3) pos_le_divide_eq)
  qed
  show "2 powi ilog2 x \<le> x" using il lo by simp
  show "x < 2 powi (ilog2 x + 1)" using il up by auto
qed

lemma powi2_less_cancel: "(2::rat) powi a < 2 powi b \<Longrightarrow> a < b"
  using power_int_increasing[of b a "2::rat"] by (cases "a < b") auto

lemma ilog2_mono:
  assumes "0 < x" and "x \<le> y"
  shows "ilog2 x \<le> ilog2 y"
proof -
  have "0 < y" using assms by simp
  have "2 powi ilog2 x < (2::rat) powi (ilog2 y + 1)"
    using ilog2_bounds(1)[OF assms(1)] ilog2_bounds(2)[OF \<open>0 < y\<close>] assms(2) by simp
  then show ?thesis using powi2_less_cancel by fastforce
qed

lemma ulp_exp_mono: "0 < x \<Longrightarrow> x \<le> y \<Longrightarrow> ulp_exp x \<le> ulp_exp y"
  using ilog2_mono[of x y] by (auto simp: ulp_exp_def)

lemma rnd_pos_same_ulp:
  "x \<le> y \<Longrightarrow> ulp_exp x = ulp_exp y \<Longrightarrow> rnd_pos x \<le> rnd_pos y"
  by (auto simp: rnd_pos_def intro!: mult_right_mono round_even_mono divide_right_mono)

text \<open>A power of two that is a multiple of the step bounds the rounded value.\<close>

lemma rnd_pos_le_powi:
  assumes "x \<le> 2 powi k" and "ulp_exp x \<le> k"
  shows "rnd_pos x \<le> 2 powi k"
proof -
  let ?q = "ulp_exp x" and ?j = "nat (k - ulp_exp x)"
  have k: "2 powi k = (2::rat) ^ ?j * 2 powi ?q"
    using assms(2) by (simp flip: power_int_of_nat add: power_int_add[symmetric])
  have "x / 2 powi ?q \<le> of_int (2 ^ ?j)"
    using assms(1) by (simp add: k pos_divide_le_eq)
  then have "round_even (x / 2 powi ?q) \<le> 2 ^ ?j" by (rule round_even_le_int)
  then have "(of_int (round_even (x / 2 powi ?q)) :: rat) \<le> of_int (2 ^ ?j)"
    by (simp only: of_int_le_iff)
  then show ?thesis by (simp add: rnd_pos_def k)
qed

lemma rnd_pos_ge_powi:
  assumes "2 powi k \<le> x" and "ulp_exp x \<le> k"
  shows "2 powi k \<le> rnd_pos x"
proof -
  let ?q = "ulp_exp x" and ?j = "nat (k - ulp_exp x)"
  have k: "2 powi k = (2::rat) ^ ?j * 2 powi ?q"
    using assms(2) by (simp flip: power_int_of_nat add: power_int_add[symmetric])
  have "of_int (2 ^ ?j) \<le> x / 2 powi ?q"
    using assms(1) by (simp add: k pos_le_divide_eq)
  then have "2 ^ ?j \<le> round_even (x / 2 powi ?q)" by (rule round_even_ge_int)
  then have "(of_int (2 ^ ?j) :: rat) \<le> of_int (round_even (x / 2 powi ?q))"
    by (simp only: of_int_le_iff)
  then show ?thesis by (simp add: rnd_pos_def k)
qed

lemma rnd_pos_mono:
  assumes "0 < x" and "x \<le> y"
  shows "rnd_pos x \<le> rnd_pos y"
proof (cases "ulp_exp x = ulp_exp y")
  case True
  with assms(2) show ?thesis by (rule rnd_pos_same_ulp)
next
  case False
  with ulp_exp_mono[OF assms] have lt: "ulp_exp x < ulp_exp y" by simp
  then have qy: "ulp_exp y = ilog2 y - 52" and e: "ilog2 x + 1 \<le> ilog2 y"
    by (auto simp: ulp_exp_def max_def split: if_splits)
  have "x \<le> 2 powi (ilog2 x + 1)" using ilog2_bounds(2)[OF assms(1)] by simp
  also have "\<dots> \<le> 2 powi ilog2 y" using e by (intro power_int_increasing) auto
  finally have "rnd_pos x \<le> 2 powi ilog2 y"
    using lt qy by (intro rnd_pos_le_powi) auto
  also have "\<dots> \<le> rnd_pos y"
    using ilog2_bounds(1)[of y] assms qy by (intro rnd_pos_ge_powi) auto
  finally show ?thesis .
qed

lemma rnd_pos_nonneg: "0 \<le> x \<Longrightarrow> 0 \<le> rnd_pos x"
  using round_even_ge_int[of 0 "x / 2 powi ulp_exp x"] by (simp add: rnd_pos_def)

text \<open>Values with at most 53 significant bits are not changed.\<close>

lemma rnd_pos_exact:
  assumes "x = of_int m * 2 powi k" and "ulp_exp x \<le> k"
  shows "rnd_pos x = x"
proof -
  let ?q = "ulp_exp x" and ?j = "nat (k - ulp_exp x)"
  have k: "2 powi k = (2::rat) ^ ?j * 2 powi ?q"
    using assms(2) by (simp flip: power_int_of_nat add: power_int_add[symmetric])
  have "x / 2 powi ?q = of_int (m * 2 ^ ?j)"
    by (subst assms(1)) (simp add: k)
  then have "rnd_pos x = of_int (m * 2 ^ ?j) * 2 powi ?q"
    unfolding rnd_pos_def by (simp only: round_even_of_int)
  then show ?thesis by (subst assms(1)) (simp add: k)
qed

lemma rnd_pos_int:
  assumes "0 < n" and "n \<le> 2 ^ 53"
  shows "rnd_pos (of_int n) = of_int n"
proof -
  have n: "(0::rat) < of_int n" using assms(1) by simp
  have le: "(of_int n :: rat) \<le> 2 powi 53"
    using assms(2) by (simp flip: of_int_le_iff[of n "2 ^ 53", where ?'a = rat])
  show ?thesis
  proof (cases "n = 2 ^ 53")
    case True
    have "ilog2 (of_int n :: rat) < 54"
      using ilog2_bounds(1)[OF n] le powi2_less_cancel[of "ilog2 (of_int n)" 54] by simp
    then show ?thesis
      using True by (intro rnd_pos_exact[where m = 1 and k = 53]) (auto simp: ulp_exp_def)
  next
    case False
    then have "n < 2 ^ 53" using assms(2) by simp
    then have "(of_int n :: rat) < of_int (2 ^ 53)" by (simp only: of_int_less_iff)
    then have "(of_int n :: rat) < 2 powi 53" by simp
    then have "ilog2 (of_int n :: rat) < 53"
      using ilog2_bounds(1)[OF n] powi2_less_cancel[of "ilog2 (of_int n)" 53] by simp
    then show ?thesis
      by (intro rnd_pos_exact[where m = n and k = 0]) (auto simp: ulp_exp_def)
  qed
qed

section \<open>Comparisons\<close>

fun f_le :: "f64 \<Rightarrow> f64 \<Rightarrow> bool" where
  "f_le NaN _ = False"
| "f_le _ NaN = False"
| "f_le NInf _ = True"
| "f_le _ PInf = True"
| "f_le (Fin x) (Fin y) = (x \<le> y)"
| "f_le _ _ = False"

fun f_lt :: "f64 \<Rightarrow> f64 \<Rightarrow> bool" where
  "f_lt NaN _ = False"
| "f_lt _ NaN = False"
| "f_lt NInf y = (y \<noteq> NInf)"
| "f_lt x PInf = (x \<noteq> PInf)"
| "f_lt (Fin x) (Fin y) = (x < y)"
| "f_lt _ _ = False"

definition f_eq :: "f64 \<Rightarrow> f64 \<Rightarrow> bool" where
  "f_eq x y \<longleftrightarrow> x \<noteq> NaN \<and> x = y"

lemma f_le_iff: "f_le x y \<longleftrightarrow> f_lt x y \<or> f_eq x y"
  by (cases x; cases y) (auto simp: f_eq_def)

lemma f_lt_irrefl [simp]: "\<not> f_lt x x"
  by (cases x) auto

lemma f_le_refl [simp]: "x \<noteq> NaN \<Longrightarrow> f_le x x"
  by (cases x) auto

lemma f_le_trans: "f_le x y \<Longrightarrow> f_le y z \<Longrightarrow> f_le x z"
  by (cases x; cases y; cases z) auto

lemma f_lt_trans: "f_lt x y \<Longrightarrow> f_lt y z \<Longrightarrow> f_lt x z"
  by (cases x; cases y; cases z) auto

lemma f_not_lt: "x \<noteq> NaN \<Longrightarrow> y \<noteq> NaN \<Longrightarrow> (\<not> f_lt x y) \<longleftrightarrow> f_le y x"
  by (cases x; cases y) auto

lemma f_le_not_lt: "f_le x y \<Longrightarrow> \<not> f_lt y x"
  by (cases x; cases y) auto

section \<open>Arithmetic\<close>

fun f_neg :: "f64 \<Rightarrow> f64" where
  "f_neg NaN = NaN"
| "f_neg PInf = NInf"
| "f_neg NInf = PInf"
| "f_neg (Fin x) = Fin (- x)"

fun f_add :: "f64 \<Rightarrow> f64 \<Rightarrow> f64" where
  "f_add (Fin x) (Fin y) = rnd (x + y)"
| "f_add NaN _ = NaN"
| "f_add _ NaN = NaN"
| "f_add PInf NInf = NaN"
| "f_add NInf PInf = NaN"
| "f_add PInf _ = PInf"
| "f_add NInf _ = NInf"
| "f_add _ y = y"

definition f_sub :: "f64 \<Rightarrow> f64 \<Rightarrow> f64" where
  "f_sub x y = f_add x (f_neg y)"

definition f_of_sign :: "rat \<Rightarrow> f64" where
  "f_of_sign s = (if s = 0 then NaN else if 0 < s then PInf else NInf)"

fun f_sign :: "f64 \<Rightarrow> rat" where
  "f_sign NaN = 0"
| "f_sign PInf = 1"
| "f_sign NInf = -1"
| "f_sign (Fin x) = sgn x"

definition f_mul :: "f64 \<Rightarrow> f64 \<Rightarrow> f64" where
  "f_mul x y = (case (x, y) of (Fin a, Fin b) \<Rightarrow> rnd (a * b)
     | _ \<Rightarrow> if x = NaN \<or> y = NaN then NaN else f_of_sign (f_sign x * f_sign y))"

definition f_div :: "f64 \<Rightarrow> f64 \<Rightarrow> f64" where
  "f_div x y = (case (x, y) of
       (Fin a, Fin b) \<Rightarrow> if b = 0 then f_of_sign (sgn a) else rnd (a / b)
     | (NaN, _) \<Rightarrow> NaN | (_, NaN) \<Rightarrow> NaN
     | (Fin a, _) \<Rightarrow> Fin 0
     | (_, Fin b) \<Rightarrow> f_of_sign (f_sign x * (if b < 0 then -1 else 1))
     | _ \<Rightarrow> NaN)"

fun f_abs :: "f64 \<Rightarrow> f64" where
  "f_abs NaN = NaN"
| "f_abs (Fin x) = Fin \<bar>x\<bar>"
| "f_abs _ = PInf"

text \<open>\<open>f64::max\<close> and \<open>f64::min\<close> return the other operand for NaN; \<open>clamp\<close> keeps NaN.\<close>

definition f_max :: "f64 \<Rightarrow> f64 \<Rightarrow> f64" where
  "f_max x y = (if x = NaN then y else if y = NaN then x else if f_lt x y then y else x)"

definition f_min :: "f64 \<Rightarrow> f64 \<Rightarrow> f64" where
  "f_min x y = (if x = NaN then y else if y = NaN then x else if f_lt y x then y else x)"

definition f_clamp :: "f64 \<Rightarrow> f64 \<Rightarrow> f64 \<Rightarrow> f64" where
  "f_clamp x lo hi = (if f_lt x lo then lo else if f_lt hi x then hi else x)"

definition f_of_int :: "int \<Rightarrow> f64" where "f_of_int n = rnd (of_int n)"
definition f_of_nat :: "nat \<Rightarrow> f64" where "f_of_nat n = rnd (of_nat n)"

text \<open>A decimal literal of the source denotes the nearest binary64 value.\<close>

definition lit :: "rat \<Rightarrow> f64" where "lit x = rnd x"

definition f64_epsilon :: f64 where "f64_epsilon = Fin (1 / 2 ^ 52)"

text \<open>\<open>x as i64\<close>, \<open>x as u64\<close>, \<open>x as u32\<close>: truncate toward zero and saturate; NaN is 0.\<close>

definition trunc :: "rat \<Rightarrow> int" where
  "trunc x = (if 0 \<le> x then \<lfloor>x\<rfloor> else - \<lfloor>- x\<rfloor>)"

fun as_i64 :: "f64 \<Rightarrow> i64" where
  "as_i64 NaN = 0"
| "as_i64 PInf = i64_max"
| "as_i64 NInf = i64_min"
| "as_i64 (Fin x) = sat_i64 (trunc x)"

fun as_unsigned :: "nat \<Rightarrow> f64 \<Rightarrow> nat" where
  "as_unsigned w NaN = 0"
| "as_unsigned w PInf = 2 ^ w - 1"
| "as_unsigned w NInf = 0"
| "as_unsigned w (Fin x) = min (2 ^ w - 1) (nat (trunc x))"

abbreviation as_u64 :: "f64 \<Rightarrow> nat" where "as_u64 \<equiv> as_unsigned 64"
abbreviation as_u32 :: "f64 \<Rightarrow> nat" where "as_u32 \<equiv> as_unsigned 32"

text \<open>\<open>f64::ceil\<close> is exact: every binary64 value above \<open>2^53\<close> is an integer already.\<close>

fun f_ceil :: "f64 \<Rightarrow> f64" where
  "f_ceil (Fin x) = Fin (of_int \<lceil>x\<rceil>)"
| "f_ceil x = x"

section \<open>Properties of rounding\<close>

lemma rnd_0 [simp]: "rnd 0 = Fin 0"
  by (simp add: rnd_def)

lemma rnd_not_NaN [simp]: "rnd x \<noteq> NaN"
  by (simp add: rnd_def Let_def)

lemma rnd_pos_case:
  "0 < x \<Longrightarrow> rnd x = (if 2 powi 1024 \<le> rnd_pos x then PInf else Fin (rnd_pos x))"
  by (simp add: rnd_def Let_def)

lemma rnd_neg_case:
  "x < 0 \<Longrightarrow> rnd x = (if 2 powi 1024 \<le> rnd_pos (- x) then NInf else Fin (- rnd_pos (- x)))"
  by (simp add: rnd_def Let_def)

lemma rnd_minus: "rnd (- x) = f_neg (rnd x)"
  by (cases "x = 0") (auto simp: rnd_def Let_def)

lemma rnd_mono_pos: "0 < x \<Longrightarrow> x \<le> y \<Longrightarrow> f_le (rnd x) (rnd y)"
  using rnd_pos_mono[of x y] by (auto simp: rnd_pos_case)

lemma rnd_nonneg: "0 \<le> x \<Longrightarrow> f_le (Fin 0) (rnd x)"
  using rnd_pos_nonneg[of x] by (cases "x = 0") (auto simp: rnd_pos_case)

lemma f_le_neg: "f_le (f_neg x) (f_neg y) \<longleftrightarrow> f_le y x"
  by (cases x; cases y) auto

lemma rnd_mono:
  assumes "x \<le> y"
  shows "f_le (rnd x) (rnd y)"
proof -
  consider "0 < x" | "x \<le> 0" "0 \<le> y" | "y < 0" using assms by linarith
  then show ?thesis
  proof cases
    case 1 then show ?thesis using assms by (rule rnd_mono_pos)
  next
    case 2
    then have "f_le (Fin 0) (rnd (- x))" "f_le (Fin 0) (rnd y)" by (simp_all add: rnd_nonneg)
    then have "f_le (rnd x) (Fin 0)" using f_le_neg[of "Fin 0" "rnd x"] by (simp add: rnd_minus)
    with \<open>f_le (Fin 0) (rnd y)\<close> show ?thesis by (blast intro: f_le_trans)
  next
    case 3
    then have "f_le (rnd (- y)) (rnd (- x))" using assms by (intro rnd_mono_pos) auto
    then show ?thesis by (simp add: rnd_minus f_le_neg)
  qed
qed

lemma rnd_int_exact:
  assumes "\<bar>n\<bar> \<le> 2 ^ 53"
  shows "rnd (of_int n) = Fin (of_int n)"
proof -
  have big: "(of_int m :: rat) < 2 powi 1024" if "m \<le> 2 ^ 53" for m
  proof -
    have "(of_int m :: rat) \<le> of_int (2 ^ 53)" using that by (simp only: of_int_le_iff)
    also have "\<dots> = 2 powi 53" by (simp only: of_int_power of_int_numeral power_int_numeral)
    also have "\<dots> < 2 powi 1024" by (rule power_int_strict_increasing) simp_all
    finally show ?thesis .
  qed
  consider "n = 0" | "0 < n" | "n < 0" by linarith
  then show ?thesis
  proof cases
    case 2
    then show ?thesis using assms big[of n] rnd_pos_int[of n] by (simp add: rnd_pos_case not_le)
  next
    case 3
    then show ?thesis using assms big[of "- n"] rnd_pos_int[of "- n"]
      by (simp add: rnd_neg_case not_le)
  qed simp
qed

text \<open>Dyadic values with at most 53 bits are exact; concrete thresholds are evaluated with this.\<close>

lemma rnd_dyadic_pos:
  assumes "0 < m" and "m < 2 ^ 53" and "j \<le> 1000"
  shows "rnd (of_int m / 2 ^ j) = Fin (of_int m / 2 ^ j)"
proof -
  let ?x = "of_int m / 2 ^ j :: rat"
  have x: "?x = of_int m * 2 powi (- int j)" by (simp add: power_int_minus divide_inverse)
  have pos: "0 < ?x" using assms(1) by simp
  have "(of_int m :: rat) < of_int (2 ^ 53)" using assms(2) by (simp only: of_int_less_iff)
  then have "of_int m * 2 powi (- int j) < (2::rat) powi 53 * 2 powi (- int j)"
    by (intro mult_strict_right_mono) simp_all
  also have "\<dots> = 2 powi (53 + (- int j))" by (subst power_int_add) simp_all
  also have "\<dots> = 2 powi (53 - int j)" by (simp only: diff_conv_add_uminus)
  finally have up: "?x < 2 powi (53 - int j)" unfolding x .
  then have "ilog2 ?x < 53 - int j"
    using ilog2_bounds(1)[OF pos] powi2_less_cancel[of "ilog2 ?x" "53 - int j"] by simp
  then have "rnd_pos ?x = ?x"
    using assms(3) by (intro rnd_pos_exact[OF x]) (auto simp: ulp_exp_def)
  moreover have "?x < 2 powi 1024"
  proof -
    have "(2::rat) powi (53 - int j) \<le> 2 powi 1024" by (rule power_int_increasing) simp_all
    with up show ?thesis by (rule less_le_trans)
  qed
  ultimately show ?thesis using pos by (simp add: rnd_pos_case not_le)
qed

lemma f_of_int_exact: "\<bar>n\<bar> \<le> 2 ^ 53 \<Longrightarrow> f_of_int n = Fin (of_int n)"
  by (simp add: f_of_int_def rnd_int_exact)

lemma f_of_nat_exact: "n \<le> 2 ^ 53 \<Longrightarrow> f_of_nat n = Fin (of_nat n)"
proof -
  assume "n \<le> 2 ^ 53"
  then have "int n \<le> int (2 ^ 53)" by (simp only: of_nat_le_iff)
  then have "\<bar>int n\<bar> \<le> 2 ^ 53" by simp
  then show ?thesis using rnd_int_exact[of "int n"] by (simp add: f_of_nat_def)
qed

lemma rnd_1 [simp]: "rnd 1 = Fin 1"
  using rnd_int_exact[of 1] by simp

lemma rnd_unit:
  assumes "0 \<le> x" and "x \<le> 1"
  shows "f_le (Fin 0) (rnd x)" "f_le (rnd x) (Fin 1)"
  using rnd_mono[of 0 x] rnd_mono[of x 1] assms by simp_all

lemma f_le_Fin01: "f_le (Fin 0) x \<Longrightarrow> f_le x (Fin 1) \<Longrightarrow> \<exists>r. x = Fin r \<and> 0 \<le> r \<and> r \<le> 1"
  by (cases x) auto

lemma f_clamp_bounds:
  assumes "f_le lo hi" and "x \<noteq> NaN"
  shows "f_le lo (f_clamp x lo hi)" "f_le (f_clamp x lo hi) hi"
proof -
  have n: "lo \<noteq> NaN" "hi \<noteq> NaN" using assms(1) by (cases lo; cases hi; simp)+
  show "f_le lo (f_clamp x lo hi)"
    using assms n f_not_lt[of x lo] by (simp add: f_clamp_def)
  show "f_le (f_clamp x lo hi) hi"
    using assms n f_not_lt[of hi x] by (simp add: f_clamp_def)
qed

lemma f_of_nat_mono: "m \<le> n \<Longrightarrow> f_le (f_of_nat m) (f_of_nat n)"
  unfolding f_of_nat_def by (rule rnd_mono) simp

lemma f_div_mono:
  assumes "0 < c" and "f_le (Fin a) (Fin b)"
  shows "f_le (f_div (Fin a) (Fin c)) (f_div (Fin b) (Fin c))"
  using assms by (simp add: f_div_def rnd_mono divide_right_mono)

lemma as_i64_range [simp]: "in_i64 (as_i64 x)"
  by (cases x) (auto simp: in_i64_def i64_min_def i64_max_def sat_i64_def)

lemma trunc_mono: "a \<le> b \<Longrightarrow> trunc a \<le> trunc b"
  using floor_mono[of a b] floor_mono[of "- b" "- a"] zero_le_floor[of b] zero_le_floor[of "- a"]
  by (auto simp: trunc_def simp del: zero_le_floor)

lemma sat_i64_mono: "m \<le> n \<Longrightarrow> sat_i64 m \<le> sat_i64 n"
  by (auto simp: sat_i64_def)

lemma sat_i64_bounds: "i64_min \<le> sat_i64 n" "sat_i64 n \<le> i64_max"
  using in_i64_sat[of n] by (simp_all add: in_i64_def)

lemma as_i64_mono: "f_le x y \<Longrightarrow> as_i64 x \<le> as_i64 y"
  by (cases x; cases y) (auto simp: sat_i64_bounds sat_i64_mono trunc_mono intro: order_trans[OF sat_i64_bounds(1)[of 0] sat_i64_bounds(2)])

lemma trunc_of_int [simp]: "trunc (of_int n) = n"
  by (simp add: trunc_def)

lemma as_i64_of_int: "\<bar>n\<bar> \<le> 2 ^ 53 \<Longrightarrow> as_i64 (f_of_int n) = n"
  by (auto simp: f_of_int_exact sat_i64_def i64_min_def i64_max_def)

section \<open>Evaluating a rounding\<close>

lemma ilog2_unique:
  assumes "2 powi e \<le> x" and "x < 2 powi (e + 1)"
  shows "ilog2 x = e"
proof -
  have x: "0 < x" using assms(1) zero_less_power_int[of "2::rat" e] by linarith
  have "ilog2 x < e + 1"
    using ilog2_bounds(1)[OF x] assms(2) by (intro powi2_less_cancel) linarith
  moreover have "e < ilog2 x + 1"
    using ilog2_bounds(2)[OF x] assms(1) by (intro powi2_less_cancel) linarith
  ultimately show ?thesis by simp
qed

text \<open>The value of a literal, given its binary exponent.\<close>

lemma rnd_at_exp:
  assumes "2 powi e \<le> x" and "x < 2 powi (e + 1)" and "- 1022 \<le> e" and "e < 1000"
  shows "rnd x = Fin (of_int (round_even (x / 2 powi (e - 52))) * 2 powi (e - 52))"
proof -
  have x: "0 < x" using assms(1) zero_less_power_int[of "2::rat" e] by linarith
  have u: "ulp_exp x = e - 52" using ilog2_unique[OF assms(1,2)] assms(3) by (simp add: ulp_exp_def)
  have "rnd_pos x \<le> 2 powi (e + 1)" using assms(2) u by (intro rnd_pos_le_powi) simp_all
  moreover have "(2::rat) powi (e + 1) < 2 powi 1024"
    using assms(4) by (intro power_int_strict_increasing) simp_all
  ultimately have "\<not> 2 powi 1024 \<le> rnd_pos x" by linarith
  then show ?thesis using x u by (simp add: rnd_pos_case rnd_pos_def)
qed

section \<open>Representable values\<close>

definition is_double :: "f64 \<Rightarrow> bool" where
  "is_double x \<longleftrightarrow> (case x of Fin r \<Rightarrow> rnd r = Fin r | _ \<Rightarrow> True)"

lemma is_double_int: "\<bar>n\<bar> \<le> 2 ^ 53 \<Longrightarrow> is_double (Fin (of_int n))"
  by (simp add: is_double_def rnd_int_exact)

text \<open>Every double is a multiple of the smallest positive one.\<close>

lemma double_multiple_pos:
  assumes "rnd r = Fin r" and "0 < r"
  shows "\<exists>m. r = of_int m * 2 powi (- 1074)"
proof -
  have "rnd_pos r = r" using assms by (simp add: rnd_pos_case split: if_splits)
  then have r: "r = of_int (round_even (r / 2 powi ulp_exp r)) * 2 powi ulp_exp r"
    by (simp add: rnd_pos_def)
  define k where "k = nat (ulp_exp r + 1074)"
  have "- 1074 \<le> ulp_exp r" by (simp add: ulp_exp_def)
  then have "ulp_exp r = int k + (- 1074)" by (simp add: k_def)
  then have "(2::rat) powi ulp_exp r = 2 powi int k * 2 powi (- 1074)"
    using power_int_add[of "2::rat" "int k" "- 1074"] by (metis zero_neq_numeral)
  then have "(2::rat) powi ulp_exp r = of_int (2 ^ k) * 2 powi (- 1074)" by (simp only: power_int_of_nat) simp
  with r have "r = of_int (round_even (r / 2 powi ulp_exp r) * 2 ^ k) * 2 powi (- 1074)"
    by (metis (no_types) mult.assoc of_int_mult)
  then show ?thesis by blast
qed

lemma double_multiple: "is_double (Fin r) \<Longrightarrow> \<exists>m. r = of_int m * 2 powi (- 1074)"
proof -
  assume r: "is_double (Fin r)"
  consider "r = 0" | "0 < r" | "0 < - r" by linarith
  then show ?thesis
  proof cases
    case 1
    then show ?thesis by (intro exI[of _ 0]) simp
  next
    case 2
    with r show ?thesis by (auto simp: is_double_def dest: double_multiple_pos)
  next
    case 3
    have "rnd (- r) = Fin (- r)" using r by (simp add: is_double_def rnd_minus)
    from double_multiple_pos[OF this 3] obtain m where "- r = of_int m * 2 powi (- 1074)" by blast
    then show ?thesis by (intro exI[of _ "- m"]) simp
  qed
qed

lemma rnd_powi:
  assumes "- 1074 \<le> k" and "k < 1024"
  shows "rnd (2 powi k) = Fin (2 powi k)"
proof -
  have il: "ilog2 (2 powi k) = k" by (rule ilog2_unique) (simp_all add: power_int_strict_increasing)
  have ex: "rnd_pos (2 powi k) = 2 powi k"
    by (rule rnd_pos_exact[where m = 1 and k = k]) (simp_all add: ulp_exp_def il assms)
  have "(2::rat) powi k < 2 powi 1024" using assms by (intro power_int_strict_increasing) simp_all
  then have "\<not> (2::rat) powi 1024 \<le> 2 powi k" by linarith
  then show ?thesis by (subst rnd_pos_case) (simp_all only: ex if_False zero_less_power_int zero_less_numeral)
qed

text \<open>With gradual underflow the difference of two distinct doubles does not vanish.\<close>

lemma f_sub_pos:
  assumes "is_double (Fin a)" and "is_double (Fin b)" and "a < b"
  shows "f_lt (Fin 0) (f_sub (Fin b) (Fin a))"
proof -
  obtain m n where mn: "a = of_int m * 2 powi (- 1074)" "b = of_int n * 2 powi (- 1074)"
    using double_multiple assms(1,2) by blast
  have p: "(0::rat) < 2 powi (- 1074)" by simp
  have d: "b - a = of_int (n - m) * 2 powi (- 1074)" unfolding mn by (simp add: left_diff_distrib)
  have "0 < b - a" using assms(3) by simp
  then have "0 < n - m" unfolding d using p by (simp add: zero_less_mult_iff)
  then have "(of_int 1 :: rat) \<le> of_int (n - m)" by (simp only: of_int_le_iff)
  then have "1 * 2 powi (- 1074) \<le> b - a" unfolding d using p by (intro mult_right_mono) simp_all
  from rnd_mono[OF this] have le: "f_le (rnd (2 powi (- 1074))) (f_sub (Fin b) (Fin a))"
    by (simp add: f_sub_def)
  have "rnd (2 powi (- 1074)) = Fin (2 powi (- 1074))" by (rule rnd_powi) simp_all
  then show ?thesis using le p by (cases "f_sub (Fin b) (Fin a)") auto
qed

end
