(* ===== verification/Metrics.thy ===== *)
theory Metrics
  imports F64
begin

text \<open>
  The collectors of \<open>struct Metrics\<close> (src/metrics/mod.rs) as one record of their
  current values: a labelled vector is a map from the label value, an event counter is
  a natural number, a gauge holds what was last \<open>set\<close>.  \<open>active_flows\<close> and
  \<open>requests_active\<close> are moved by \<open>inc\<close>/\<open>dec\<close> only, so they are integers
  (exact in binary64 far beyond any number of requests).  Histograms keep the list of
  observations.
\<close>

record metrics =
  m_queue_depth :: "(string, nat) hmap"
  m_queue_wait :: "duration list"
  m_active_flows :: int
  m_tokens_generated :: int
  m_tokens_per_second :: f64
  m_requests_active :: int
  m_errors :: nat
  m_bp_rejections :: "(string, nat) hmap"
  m_flow_credit :: "(string, f64) hmap"
  m_effective_max :: nat
  m_flow_starvation :: "(string, duration) hmap"
  m_force_admits :: nat
  m_events :: "(string, nat) hmap"
  m_kv_usage :: f64
  m_kv_free :: f64
  m_kv_pressure :: f64
  m_stalled :: f64
  m_stall_events :: nat
  m_kv_decisions :: "(string, nat) hmap"
  m_priority_class :: "(string, nat) hmap"
  m_priority_source :: "(string \<times> string, nat) hmap"
  m_inter_request :: "(string \<times> duration) list"
  m_cadence_state :: "(string, nat) hmap"
  m_ps_detected :: nat
  m_ps_retries :: nat
  m_ps_exhausted :: nat
  m_be_retries :: nat
  m_be_exhausted :: nat

definition metrics_new :: metrics where
  "metrics_new = \<lparr> m_queue_depth = [], m_queue_wait = [], m_active_flows = 0,
     m_tokens_generated = 0, m_tokens_per_second = Fin 0, m_requests_active = 0,
     m_errors = 0, m_bp_rejections = [], m_flow_credit = [], m_effective_max = 0,
     m_flow_starvation = [], m_force_admits = 0, m_events = [], m_kv_usage = Fin 0,
     m_kv_free = Fin 0, m_kv_pressure = Fin 0, m_stalled = Fin 0, m_stall_events = 0,
     m_kv_decisions = [], m_priority_class = [], m_priority_source = [],
     m_inter_request = [], m_cadence_state = [], m_ps_detected = 0, m_ps_retries = 0,
     m_ps_exhausted = 0, m_be_retries = 0, m_be_exhausted = 0 \<rparr>"

text \<open>\<open>with_label_values(&[l]).inc()\<close> on a counter vector, and reading it back.\<close>

definition counter :: "('l, nat) hmap \<Rightarrow> 'l \<Rightarrow> nat" where
  "counter m l = (case hget m l of Some n \<Rightarrow> n | None \<Rightarrow> 0)"

definition inc_label :: "'l \<Rightarrow> ('l, nat) hmap \<Rightarrow> ('l, nat) hmap" where
  "inc_label l m = hput l (counter m l + 1) m"

lemma counter_inc [simp]: "counter (inc_label l m) l' = (if l' = l then counter m l + 1 else counter m l')"
  by (simp add: counter_def inc_label_def)

lemma counter_empty [simp]: "counter [] l = 0"
  by (simp add: counter_def)

definition set_flow_credit :: "string \<Rightarrow> i64 \<Rightarrow> metrics \<Rightarrow> metrics" where
  "set_flow_credit l c m = m\<lparr>m_flow_credit := hput l (f_of_int c) (m_flow_credit m)\<rparr>"

definition set_queue_depth :: "string \<Rightarrow> nat \<Rightarrow> metrics \<Rightarrow> metrics" where
  "set_queue_depth l n m = m\<lparr>m_queue_depth := hput l n (m_queue_depth m)\<rparr>"

definition inc_event :: "string \<Rightarrow> metrics \<Rightarrow> metrics" where
  "inc_event e m = m\<lparr>m_events := inc_label e (m_events m)\<rparr>"

lemma metrics_frames [simp]:
  "m_active_flows (set_flow_credit l c m) = m_active_flows m"
  "m_active_flows (set_queue_depth l n m) = m_active_flows m"
  "m_active_flows (inc_event e m) = m_active_flows m"
  "m_force_admits (set_flow_credit l c m) = m_force_admits m"
  "m_force_admits (set_queue_depth l n m) = m_force_admits m"
  "m_events (set_flow_credit l c m) = m_events m"
  "m_events (inc_event e m) = inc_label e (m_events m)"
  by (simp_all add: set_flow_credit_def set_queue_depth_def inc_event_def)

text \<open>
  The gauge task of main.rs: every second it appends the increase of the token counter
  to a window of at most \<open>window_secs\<close> samples and sets the gauge to their mean.
  State: the samples and the previous counter value.
\<close>

definition f_sum :: "f64 list \<Rightarrow> f64" where
  "f_sum xs = foldl f_add (Fin 0) xs"

definition token_rate_tick :: "nat \<Rightarrow> f64 list \<times> f64 \<Rightarrow> f64 \<Rightarrow> (f64 list \<times> f64) \<times> f64" where
  "token_rate_tick window_secs st current =
     (let (samples, previous) = st;
          w = max window_secs 1;
          delta = (if f_le previous current then f_sub current previous else Fin 0);
          samples1 = samples @ [delta];
          samples2 = (if w < length samples1 then drop 1 samples1 else samples1)
      in ((samples2, current), f_div (f_sum samples2) (f_of_nat (length samples2))))"

lemma token_rate_window:
  assumes "length samples \<le> max w 1"
    and "token_rate_tick w (samples, p) c = ((samples', p'), r)"
  shows "0 < length samples' \<and> length samples' \<le> max w 1 \<and> p' = c"
  using assms by (auto simp: token_rate_tick_def Let_def not_less split: if_splits
      simp flip: length_greater_0_conv)

end
