(* ===== verification/Config.thy ===== *)
theory Config
  imports F64
begin

text \<open>
  Configuration (src/config/mod.rs, src/config/loader.rs): one record per section with
  the source's defaults, and \<open>validate\<close> with one error per rejected condition, in the
  source's order.  The parsed URL is library data: only what \<open>validate\<close> asks of it
  (\<open>cannot_be_a_base\<close>, \<open>scheme\<close>) is kept.  Reading the
  configuration is in theory Loader.  Lemmas: what an accepted configuration guarantees, and which float values
  slip through.
\<close>

section \<open>Sections and defaults\<close>

record url =
  url_cannot_be_a_base :: bool
  url_scheme :: string
  url_path :: string

record transient_retry_cfg =
  tr_max_attempts :: nat
  tr_backoff_start :: duration
  tr_backoff_max :: duration

definition transient_retry_default :: transient_retry_cfg where
  "transient_retry_default = \<lparr> tr_max_attempts = 3, tr_backoff_start = millis 500,
     tr_backoff_max = secs 4 \<rparr>"

record backend_cfg =
  be_url :: url
  be_metrics_interval :: duration
  be_stall_timeout :: duration
  be_transient_retry :: transient_retry_cfg
  be_kv_unified :: bool

definition backend_default :: backend_cfg where
  "backend_default = \<lparr> be_url = \<lparr> url_cannot_be_a_base = False, url_scheme = ''http'', url_path = ''/'' \<rparr>,
     be_metrics_interval = secs 1, be_stall_timeout = secs 30,
     be_transient_retry = transient_retry_default, be_kv_unified = False \<rparr>"

record kv_policy_cfg =
  kvp_enabled :: bool
  kvp_reject_threshold :: f64
  kvp_delay_threshold :: f64
  kvp_bypass_interactive :: bool

definition kv_policy_default :: kv_policy_cfg where
  "kv_policy_default = \<lparr> kvp_enabled = False, kvp_reject_threshold = lit (95/100),
     kvp_delay_threshold = lit (80/100), kvp_bypass_interactive = True \<rparr>"

record retry_policy =
  rp_enabled :: bool
  rp_max_retries :: nat
  rp_temperature_step :: f64
  rp_max_temperature :: f64
  rp_default_temperature :: f64

definition retry_policy_default :: retry_policy where
  "retry_policy_default = \<lparr> rp_enabled = False, rp_max_retries = 2,
     rp_temperature_step = lit (3/10), rp_max_temperature = lit (15/10),
     rp_default_temperature = lit 0 \<rparr>"

record priority_policy =
  pp_enabled :: bool
  pp_idle_gap_threshold :: duration
  pp_agentic_suspected_threshold :: nat
  pp_agentic_confirmed_threshold :: nat

definition priority_policy_default :: priority_policy where
  "priority_policy_default = \<lparr> pp_enabled = True, pp_idle_gap_threshold = secs 30,
     pp_agentic_suspected_threshold = 5, pp_agentic_confirmed_threshold = 12 \<rparr>"

record completion_bias_cfg =
  cb_enabled :: bool
  cb_target_active_flows :: nat
  cb_predictive_admit :: bool

definition completion_bias_default :: completion_bias_cfg where
  "completion_bias_default = \<lparr> cb_enabled = True, cb_target_active_flows = 0,
     cb_predictive_admit = False \<rparr>"

record kv_bias_cfg =
  kb_enabled :: bool
  kb_bias_full_at :: f64
  kb_pressure_below :: f64

definition kv_bias_default :: kv_bias_cfg where
  "kv_bias_default = \<lparr> kb_enabled = True, kb_bias_full_at = lit (9/10),
     kb_pressure_below = lit (5/10) \<rparr>"

record kv_threshold =
  th_at :: f64
  th_max_flows :: nat

record kv_pressure_cfg =
  kp_enabled :: bool
  kp_thresholds :: "kv_threshold list"

definition kv_pressure_default :: kv_pressure_cfg where
  "kv_pressure_default = \<lparr> kp_enabled = False, kp_thresholds = [] \<rparr>"

record scheduler_cfg =
  sc_max_active_flows :: nat
  sc_starvation_timeout :: duration
  sc_completion_bias :: completion_bias_cfg
  sc_kv_bias :: kv_bias_cfg
  sc_kv_pressure :: kv_pressure_cfg

definition scheduler_default :: scheduler_cfg where
  "scheduler_default = \<lparr> sc_max_active_flows = 4, sc_starvation_timeout = secs 300,
     sc_completion_bias = completion_bias_default, sc_kv_bias = kv_bias_default,
     sc_kv_pressure = kv_pressure_default \<rparr>"

record flows_cfg =
  fl_default_weight :: f64
  fl_default_priority :: nat
  fl_idle_ttl :: duration

definition flows_default :: flows_cfg where
  "flows_default = \<lparr> fl_default_weight = lit 1, fl_default_priority = 50, fl_idle_ttl = secs 600 \<rparr>"

record priorities =
  pr_interactive :: nat
  pr_agent :: nat
  pr_background :: nat

definition priorities_default :: priorities where
  "priorities_default = \<lparr> pr_interactive = 100, pr_agent = 50, pr_background = 10 \<rparr>"

datatype backpressure_mode = Blocking | FailFast | Hybrid

record backpressure_cfg =
  bp_mode :: backpressure_mode
  bp_max_queue_depth :: nat
  bp_max_wait :: duration
  bp_retry_after_base :: duration
  bp_kv_policy :: kv_policy_cfg

definition backpressure_default :: backpressure_cfg where
  "backpressure_default = \<lparr> bp_mode = Blocking, bp_max_queue_depth = 100, bp_max_wait = secs 10,
     bp_retry_after_base = secs 1, bp_kv_policy = kv_policy_default \<rparr>"

record config =
  cfg_backend :: backend_cfg
  cfg_scheduler :: scheduler_cfg
  cfg_flows :: flows_cfg
  cfg_priorities :: priorities
  cfg_backpressure :: backpressure_cfg
  cfg_metrics_endpoint :: string
  cfg_tps_window_secs :: nat
  cfg_request_timeout :: "duration option"
  cfg_kv_policy :: "kv_policy_cfg option"
  cfg_retry_policy :: retry_policy
  cfg_priority_policy :: priority_policy

definition config_default :: config where
  "config_default = \<lparr> cfg_backend = backend_default, cfg_scheduler = scheduler_default,
     cfg_flows = flows_default, cfg_priorities = priorities_default,
     cfg_backpressure = backpressure_default, cfg_metrics_endpoint = ''/metrics'',
     cfg_tps_window_secs = 10, cfg_request_timeout = None, cfg_kv_policy = None,
     cfg_retry_policy = retry_policy_default, cfg_priority_policy = priority_policy_default \<rparr>"

section \<open>Validation\<close>

datatype config_error = KvPolicyMoved | MaxActiveFlowsZero | StarvationTimeoutZero
  | DefaultWeightNotPositive | MaxQueueDepthZero string | MaxWaitZero | UrlNoScheme
  | UrlNotAbsolute | MetricsIntervalZero | RejectThresholdRange | DelayThresholdRange
  | DelayNotBelowReject | PressureNoThresholds | PressureAtRange | PressureNotAscending
  | PressureMaxFlowsRange | MaxRetriesZero | TemperatureStepNotPositive
  | MaxTemperatureBelowDefault | MaxTemperatureAboveTwo | BackoffStartZero
  | BackoffMaxBelowStart | ConfirmedNotAboveSuspected | SuspectedZero

definition windows2 :: "'a list \<Rightarrow> ('a \<times> 'a) list" where
  "windows2 xs = zip xs (tl xs)"

text \<open>Each check of the source is a guard with the error it returns; the first that holds wins.\<close>

fun first_error :: "(bool \<times> config_error) list \<Rightarrow> config_error + unit" where
  "first_error [] = Inr ()"
| "first_error ((b, e) # cs) = (if b then Inl e else first_error cs)"

definition validate_scheduling :: "config \<Rightarrow> (bool \<times> config_error) list" where
  "validate_scheduling cfg = (let bp = cfg_backpressure cfg; be = cfg_backend cfg in
    [(cfg_kv_policy cfg \<noteq> None, KvPolicyMoved),
     (sc_max_active_flows (cfg_scheduler cfg) = 0, MaxActiveFlowsZero),
     (sc_starvation_timeout (cfg_scheduler cfg) = 0, StarvationTimeoutZero),
     (f_le (fl_default_weight (cfg_flows cfg)) (Fin 0), DefaultWeightNotPositive),
     ((bp_mode bp = FailFast \<or> bp_mode bp = Hybrid) \<and> bp_max_queue_depth bp = 0,
        MaxQueueDepthZero (if bp_mode bp = FailFast then ''fail_fast'' else ''hybrid'')),
     (bp_mode bp = Hybrid \<and> bp_max_wait bp = 0, MaxWaitZero),
     (\<not> url_cannot_be_a_base (be_url be) \<and> url_scheme (be_url be) = [], UrlNoScheme),
     (url_cannot_be_a_base (be_url be), UrlNotAbsolute),
     (be_metrics_interval be = 0, MetricsIntervalZero)])"

definition validate_kv :: "config \<Rightarrow> (bool \<times> config_error) list" where
  "validate_kv cfg = (let kv = bp_kv_policy (cfg_backpressure cfg);
       kp = sc_kv_pressure (cfg_scheduler cfg); ths = kp_thresholds kp in
    [(kvp_enabled kv \<and> (f_le (kvp_reject_threshold kv) (Fin 0) \<or> f_lt (Fin 1) (kvp_reject_threshold kv)),
        RejectThresholdRange),
     (kvp_enabled kv \<and> (f_lt (kvp_delay_threshold kv) (Fin 0) \<or> f_lt (Fin 1) (kvp_delay_threshold kv)),
        DelayThresholdRange),
     (kvp_enabled kv \<and> f_le (kvp_reject_threshold kv) (kvp_delay_threshold kv), DelayNotBelowReject),
     (kp_enabled kp \<and> ths = [], PressureNoThresholds),
     (kp_enabled kp \<and> list_ex (\<lambda>t. f_lt (th_at t) (Fin 0) \<or> f_lt (Fin 1) (th_at t)) ths, PressureAtRange),
     (kp_enabled kp \<and> list_ex (\<lambda>(a, b). f_le (th_at b) (th_at a)) (windows2 ths), PressureNotAscending),
     (kp_enabled kp \<and> list_ex (\<lambda>t. th_max_flows t < 1
          \<or> sc_max_active_flows (cfg_scheduler cfg) < th_max_flows t) ths, PressureMaxFlowsRange)])"

definition validate_retry :: "config \<Rightarrow> (bool \<times> config_error) list" where
  "validate_retry cfg = (let rp = cfg_retry_policy cfg; tr = be_transient_retry (cfg_backend cfg);
       pp = cfg_priority_policy cfg in
    [(rp_enabled rp \<and> rp_max_retries rp = 0, MaxRetriesZero),
     (rp_enabled rp \<and> f_le (rp_temperature_step rp) (Fin 0), TemperatureStepNotPositive),
     (rp_enabled rp \<and> f_lt (rp_max_temperature rp) (rp_default_temperature rp), MaxTemperatureBelowDefault),
     (rp_enabled rp \<and> f_lt (Fin 2) (rp_max_temperature rp), MaxTemperatureAboveTwo),
     (0 < tr_max_attempts tr \<and> tr_backoff_start tr = 0, BackoffStartZero),
     (0 < tr_max_attempts tr \<and> tr_backoff_max tr < tr_backoff_start tr, BackoffMaxBelowStart),
     (pp_agentic_confirmed_threshold pp \<le> pp_agentic_suspected_threshold pp, ConfirmedNotAboveSuspected),
     (pp_agentic_suspected_threshold pp = 0, SuspectedZero)])"

definition validate :: "config \<Rightarrow> config_error + unit" where
  "validate cfg = first_error (validate_scheduling cfg @ validate_kv cfg @ validate_retry cfg)"

lemma first_error_Inr: "first_error cs = Inr () \<longleftrightarrow> (\<forall>(b, e) \<in> set cs. \<not> b)"
  by (induction cs rule: first_error.induct) auto

lemma first_error_Inl:
  "first_error cs = Inl e \<Longrightarrow> \<exists>xs ys. cs = xs @ (True, e) # ys \<and> (\<forall>(b, e') \<in> set xs. \<not> b)"
proof (induction cs rule: first_error.induct)
  case (2 b e' cs)
  show ?case
  proof (cases b)
    case True
    with 2 have "(b, e') # cs = [] @ (True, e) # cs" by simp
    then show ?thesis by (metis empty_iff list.set(1))
  next
    case False
    with 2 obtain xs ys where "cs = xs @ (True, e) # ys" "\<forall>(b, e') \<in> set xs. \<not> b" by auto
    with False have "(b, e') # cs = ((b, e') # xs) @ (True, e) # ys \<and> (\<forall>(b, e') \<in> set ((b, e') # xs). \<not> b)"
      by simp
    then show ?thesis by blast
  qed
qed simp

section \<open>What an accepted configuration guarantees\<close>

definition in_unit :: "f64 \<Rightarrow> bool" where
  "in_unit x \<longleftrightarrow> f_le (Fin 0) x \<and> f_le x (Fin 1)"

definition ladder_ok :: "nat \<Rightarrow> kv_threshold list \<Rightarrow> bool" where
  "ladder_ok cap ths \<longleftrightarrow> ths \<noteq> [] \<and> sorted_wrt (\<lambda>a b. f_lt (th_at a) (th_at b)) ths
     \<and> (\<forall>t \<in> set ths. in_unit (th_at t) \<and> 1 \<le> th_max_flows t \<and> th_max_flows t \<le> cap)"

definition kv_ok :: "kv_policy_cfg \<Rightarrow> bool" where
  "kv_ok kv \<longleftrightarrow> f_le (Fin 0) (kvp_delay_threshold kv)
     \<and> f_lt (kvp_delay_threshold kv) (kvp_reject_threshold kv) \<and> f_le (kvp_reject_threshold kv) (Fin 1)"

definition retry_ok :: "retry_policy \<Rightarrow> bool" where
  "retry_ok rp \<longleftrightarrow> 0 < rp_max_retries rp \<and> f_lt (Fin 0) (rp_temperature_step rp)
     \<and> f_le (rp_default_temperature rp) (rp_max_temperature rp) \<and> f_le (rp_max_temperature rp) (Fin 2)"

definition transient_ok :: "transient_retry_cfg \<Rightarrow> bool" where
  "transient_ok tr \<longleftrightarrow> 0 < tr_backoff_start tr \<and> tr_backoff_start tr \<le> tr_backoff_max tr"

definition config_ok :: "config \<Rightarrow> bool" where
  "config_ok cfg \<longleftrightarrow>
     cfg_kv_policy cfg = None \<and> 0 < sc_max_active_flows (cfg_scheduler cfg)
     \<and> 0 < sc_starvation_timeout (cfg_scheduler cfg)
     \<and> f_lt (Fin 0) (fl_default_weight (cfg_flows cfg))
     \<and> (bp_mode (cfg_backpressure cfg) \<noteq> Blocking \<longrightarrow> 0 < bp_max_queue_depth (cfg_backpressure cfg))
     \<and> (bp_mode (cfg_backpressure cfg) = Hybrid \<longrightarrow> 0 < bp_max_wait (cfg_backpressure cfg))
     \<and> \<not> url_cannot_be_a_base (be_url (cfg_backend cfg)) \<and> url_scheme (be_url (cfg_backend cfg)) \<noteq> []
     \<and> 0 < be_metrics_interval (cfg_backend cfg)
     \<and> (kvp_enabled (bp_kv_policy (cfg_backpressure cfg)) \<longrightarrow> kv_ok (bp_kv_policy (cfg_backpressure cfg)))
     \<and> (kp_enabled (sc_kv_pressure (cfg_scheduler cfg)) \<longrightarrow>
          ladder_ok (sc_max_active_flows (cfg_scheduler cfg)) (kp_thresholds (sc_kv_pressure (cfg_scheduler cfg))))
     \<and> (rp_enabled (cfg_retry_policy cfg) \<longrightarrow> retry_ok (cfg_retry_policy cfg))
     \<and> (0 < tr_max_attempts (be_transient_retry (cfg_backend cfg)) \<longrightarrow>
          transient_ok (be_transient_retry (cfg_backend cfg)))
     \<and> 0 < pp_agentic_suspected_threshold (cfg_priority_policy cfg)
     \<and> pp_agentic_suspected_threshold (cfg_priority_policy cfg)
         < pp_agentic_confirmed_threshold (cfg_priority_policy cfg)"

text \<open>The floats of a configuration; the comparisons of \<open>validate\<close> let NaN through.\<close>

definition cfg_floats :: "config \<Rightarrow> f64 list" where
  "cfg_floats cfg = [fl_default_weight (cfg_flows cfg),
     kvp_reject_threshold (bp_kv_policy (cfg_backpressure cfg)),
     kvp_delay_threshold (bp_kv_policy (cfg_backpressure cfg)),
     rp_temperature_step (cfg_retry_policy cfg), rp_max_temperature (cfg_retry_policy cfg),
     rp_default_temperature (cfg_retry_policy cfg)]
     @ map th_at (kp_thresholds (sc_kv_pressure (cfg_scheduler cfg)))"

lemma windows2_ascending:
  assumes "\<forall>x \<in> set xs. f x \<noteq> NaN"
  shows "\<not> list_ex (\<lambda>(a, b). f_le (f b) (f a)) (windows2 xs) \<longleftrightarrow> sorted_wrt (\<lambda>a b. f_lt (f a) (f b)) xs"
  using assms
proof (induction xs)
  case Nil
  then show ?case by (simp add: windows2_def)
next
  case (Cons x xs)
  note IH = Cons.IH and nan = Cons.prems
  show ?case
  proof (cases xs)
    case Nil
    then show ?thesis by (simp add: windows2_def)
  next
    case (Cons y ys)
    have *: "f_le (f y) (f x) \<longleftrightarrow> \<not> f_lt (f x) (f y)"
      using nan f_not_lt[of "f x" "f y"] by (simp add: Cons)
    have "sorted_wrt (\<lambda>a b. f_lt (f a) (f b)) (x # xs) \<longleftrightarrow>
        f_lt (f x) (f y) \<and> sorted_wrt (\<lambda>a b. f_lt (f a) (f b)) xs"
      by (auto simp: Cons intro: f_lt_trans)
    then show ?thesis using IH nan * by (auto simp: windows2_def Cons)
  qed
qed

lemma validate_kv_iff:
  assumes "NaN \<notin> set (cfg_floats cfg)"
  shows "first_error (validate_kv cfg) = Inr () \<longleftrightarrow>
      (kvp_enabled (bp_kv_policy (cfg_backpressure cfg)) \<longrightarrow> kv_ok (bp_kv_policy (cfg_backpressure cfg)))
      \<and> (kp_enabled (sc_kv_pressure (cfg_scheduler cfg)) \<longrightarrow>
          ladder_ok (sc_max_active_flows (cfg_scheduler cfg)) (kp_thresholds (sc_kv_pressure (cfg_scheduler cfg))))"
proof -
  let ?ths = "kp_thresholds (sc_kv_pressure (cfg_scheduler cfg))"
  have nan: "\<forall>t \<in> set ?ths. th_at t \<noteq> NaN" using assms by (force simp: cfg_floats_def)
  have unit: "\<not> (f_lt (th_at t) (Fin 0) \<or> f_lt (Fin 1) (th_at t)) \<longleftrightarrow> in_unit (th_at t)"
    if "t \<in> set ?ths" for t
    using nan that f_not_lt[of "th_at t" "Fin 0"] f_not_lt[of "Fin 1" "th_at t"] by (auto simp: in_unit_def)
  have ladder: "?ths \<noteq> [] \<and> \<not> list_ex (\<lambda>t. f_lt (th_at t) (Fin 0) \<or> f_lt (Fin 1) (th_at t)) ?ths
      \<and> \<not> list_ex (\<lambda>(a, b). f_le (th_at b) (th_at a)) (windows2 ?ths)
      \<and> \<not> list_ex (\<lambda>t. th_max_flows t < 1 \<or> cap < th_max_flows t) ?ths \<longleftrightarrow> ladder_ok cap ?ths" for cap
    using unit windows2_ascending[OF nan] unfolding ladder_ok_def
    by (auto simp: list_ex_iff not_less Suc_le_eq simp del: One_nat_def)
  have kv: "\<not> (f_le r (Fin 0) \<or> f_lt (Fin 1) r) \<and> \<not> (f_lt d (Fin 0) \<or> f_lt (Fin 1) d) \<and> \<not> f_le r d
      \<longleftrightarrow> f_le (Fin 0) d \<and> f_lt d r \<and> f_le r (Fin 1)" if "r \<noteq> NaN" "d \<noteq> NaN" for r d
    using that by (cases r; cases d) auto
  have kvok: "\<not> (f_le (kvp_reject_threshold kv) (Fin 0) \<or> f_lt (Fin 1) (kvp_reject_threshold kv))
      \<and> \<not> (f_lt (kvp_delay_threshold kv) (Fin 0) \<or> f_lt (Fin 1) (kvp_delay_threshold kv))
      \<and> \<not> f_le (kvp_reject_threshold kv) (kvp_delay_threshold kv) \<longleftrightarrow> kv_ok kv"
    if "kv = bp_kv_policy (cfg_backpressure cfg)" for kv
    unfolding kv_ok_def using assms that by (intro kv) (auto simp: cfg_floats_def)
  show ?thesis
    unfolding validate_kv_def Let_def first_error_Inr kvok[OF refl, symmetric] ladder[symmetric]
    by simp blast
qed

lemma validate_sched_iff:
  assumes "NaN \<notin> set (cfg_floats cfg)"
  shows "first_error (validate_scheduling cfg) = Inr () \<longleftrightarrow>
     cfg_kv_policy cfg = None \<and> 0 < sc_max_active_flows (cfg_scheduler cfg)
     \<and> 0 < sc_starvation_timeout (cfg_scheduler cfg)
     \<and> f_lt (Fin 0) (fl_default_weight (cfg_flows cfg))
     \<and> (bp_mode (cfg_backpressure cfg) \<noteq> Blocking \<longrightarrow> 0 < bp_max_queue_depth (cfg_backpressure cfg))
     \<and> (bp_mode (cfg_backpressure cfg) = Hybrid \<longrightarrow> 0 < bp_max_wait (cfg_backpressure cfg))
     \<and> \<not> url_cannot_be_a_base (be_url (cfg_backend cfg)) \<and> url_scheme (be_url (cfg_backend cfg)) \<noteq> []
     \<and> 0 < be_metrics_interval (cfg_backend cfg)"
proof -
  have w: "f_le (fl_default_weight (cfg_flows cfg)) (Fin 0) \<longleftrightarrow> \<not> f_lt (Fin 0) (fl_default_weight (cfg_flows cfg))"
    using assms f_not_lt[of "Fin 0" "fl_default_weight (cfg_flows cfg)"] by (auto simp: cfg_floats_def)
  show ?thesis
    using w by (cases "bp_mode (cfg_backpressure cfg)")
      (auto simp: validate_scheduling_def Let_def first_error_Inr)
qed

lemma validate_retry_iff:
  assumes "NaN \<notin> set (cfg_floats cfg)"
  shows "first_error (validate_retry cfg) = Inr () \<longleftrightarrow>
     (rp_enabled (cfg_retry_policy cfg) \<longrightarrow> retry_ok (cfg_retry_policy cfg))
     \<and> (0 < tr_max_attempts (be_transient_retry (cfg_backend cfg)) \<longrightarrow>
          transient_ok (be_transient_retry (cfg_backend cfg)))
     \<and> 0 < pp_agentic_suspected_threshold (cfg_priority_policy cfg)
     \<and> pp_agentic_suspected_threshold (cfg_priority_policy cfg)
         < pp_agentic_confirmed_threshold (cfg_priority_policy cfg)"
proof -
  let ?rp = "cfg_retry_policy cfg"
  have "f_le (rp_temperature_step ?rp) (Fin 0) \<longleftrightarrow> \<not> f_lt (Fin 0) (rp_temperature_step ?rp)"
    "f_lt (rp_max_temperature ?rp) (rp_default_temperature ?rp) \<longleftrightarrow>
       \<not> f_le (rp_default_temperature ?rp) (rp_max_temperature ?rp)"
    "f_lt (Fin 2) (rp_max_temperature ?rp) \<longleftrightarrow> \<not> f_le (rp_max_temperature ?rp) (Fin 2)"
    using assms f_not_lt[of "Fin 0" "rp_temperature_step ?rp"] f_not_lt[of "Fin 2" "rp_max_temperature ?rp"]
      f_not_lt[of "rp_max_temperature ?rp" "rp_default_temperature ?rp"]
    by (auto simp: cfg_floats_def)
  then show ?thesis
    by (auto simp: validate_retry_def Let_def first_error_Inr retry_ok_def transient_ok_def not_less)
qed

lemma first_error_append:
  "first_error (xs @ ys) = Inr () \<longleftrightarrow> first_error xs = Inr () \<and> first_error ys = Inr ()"
  by (auto simp: first_error_Inr)

lemma validate_cadence:
  assumes "validate cfg = Inr ()"
  shows "0 < pp_agentic_suspected_threshold (cfg_priority_policy cfg)"
    and "pp_agentic_suspected_threshold (cfg_priority_policy cfg)
           < pp_agentic_confirmed_threshold (cfg_priority_policy cfg)"
proof -
  have "first_error (validate_retry cfg) = Inr ()"
    using assms by (simp add: validate_def first_error_append)
  then have *: "\<forall>(b, e) \<in> set (validate_retry cfg). \<not> b" by (simp only: first_error_Inr)
  from * show "0 < pp_agentic_suspected_threshold (cfg_priority_policy cfg)"
    by (simp add: validate_retry_def Let_def)
  from * show "pp_agentic_suspected_threshold (cfg_priority_policy cfg)
      < pp_agentic_confirmed_threshold (cfg_priority_policy cfg)"
    by (simp add: validate_retry_def Let_def not_le)
qed

lemma validate_default: "validate config_default = Inr ()"
  by (simp add: validate_def validate_scheduling_def validate_kv_def validate_retry_def Let_def
      config_default_def flows_default_def backend_default_def backpressure_default_def
      scheduler_default_def kv_policy_default_def kv_pressure_default_def retry_policy_default_def
      transient_retry_default_def priority_policy_default_def secs_def millis_def lit_def)

text \<open>
  C38. Configuration validation is exact: for a configuration without NaN floats, the
  loader accepts it if and only if all of the constraints of \<open>config_ok\<close> hold (positive limits and intervals, thresholds of an
  enabled KV policy in range and ordered, ladder strictly ascending with caps in [1, max_active_flows],
  retry and backoff limits, cadence thresholds ordered).  The range [0,1] that the documentation gives for \<open>bias_full_at\<close> and
  \<open>pressure_below\<close> is not among them: any values of these are accepted.
\<close>

theorem validate_iff_config_ok:
  assumes "NaN \<notin> set (cfg_floats cfg)"
  shows "validate cfg = Inr () \<longleftrightarrow> config_ok cfg"
  unfolding validate_def first_error_append validate_kv_iff[OF assms] validate_sched_iff[OF assms]
    validate_retry_iff[OF assms] config_ok_def by blast

theorem validate_iff_config_ok_witness:
  "NaN \<notin> set (cfg_floats config_default) \<and> config_ok config_default"
proof -
  have "NaN \<notin> set (cfg_floats config_default)"
    by (auto simp: cfg_floats_def config_default_def flows_default_def backpressure_default_def
        scheduler_default_def kv_policy_default_def kv_pressure_default_def
        retry_policy_default_def lit_def) (metis rnd_not_NaN)+
  then show ?thesis using validate_iff_config_ok[of config_default] validate_default by simp
qed

end
