(* ===== verification/Backpressure.thy ===== *)
theory Backpressure
  imports F64 Config
begin

text \<open>
  Backpressure rejections (src/scheduler/backpressure.rs) and the conversion between
  \<open>Duration\<close> and \<open>f64\<close> they use.  \<open>Duration::mul_f64\<close> panics on a negative,
  non-finite or too large product: \<open>None\<close>.  Lemmas: the advised delay is monotone in
  the queue depth, never shorter than a whole-second base, and the computation cannot
  panic for bases below 2^30 seconds.
\<close>

record backpressure_rejected =
  retry_after :: duration

definition nanos_per_sec :: nat where "nanos_per_sec = 1000000000"

definition as_secs_f64 :: "duration \<Rightarrow> f64" where
  "as_secs_f64 d = f_add (f_of_nat (d div nanos_per_sec))
     (f_div (f_of_nat (d mod nanos_per_sec)) (f_of_nat nanos_per_sec))"

text \<open>\<open>Duration::from_secs_f64\<close> rounds to the nearest nanosecond, ties to even.\<close>

definition from_secs_f64 :: "f64 \<Rightarrow> duration option" where
  "from_secs_f64 x = (case x of
       Fin r \<Rightarrow> if r < 0 then None
         else let n = nat (round_even (r * of_nat nanos_per_sec)) in
              if duration_max < n then None else Some n
     | _ \<Rightarrow> None)"

definition mul_f64 :: "duration \<Rightarrow> f64 \<Rightarrow> duration option" where
  "mul_f64 d x = from_secs_f64 (f_mul x (as_secs_f64 d))"

definition depth_ratio :: "nat \<Rightarrow> nat \<Rightarrow> f64" where
  "depth_ratio depth max_queue_depth =
     (if max_queue_depth = 0 then Fin 2 else f_div (f_of_nat depth) (f_of_nat max_queue_depth))"

definition fail_fast_retry_after :: "nat \<Rightarrow> nat \<Rightarrow> duration \<Rightarrow> duration option" where
  "fail_fast_retry_after depth max_queue_depth base =
     mul_f64 base (f_add (Fin 1) (depth_ratio depth max_queue_depth))"

definition mode_label :: "backpressure_mode \<Rightarrow> string" where
  "mode_label m = (case m of Blocking \<Rightarrow> ''blocking'' | FailFast \<Rightarrow> ''fail_fast'' | Hybrid \<Rightarrow> ''hybrid'')"

section \<open>Ratios and factors\<close>

lemma f_of_nat_u32: "n < 2 ^ 32 \<Longrightarrow> f_of_nat n = Fin (of_nat n)"
  by (rule f_of_nat_exact) simp

lemma depth_ratio_mono:
  assumes "d \<le> d'" and "d' < 2 ^ 32" and "m < 2 ^ 32"
  shows "f_le (depth_ratio d m) (depth_ratio d' m)"
  using assms by (auto simp: depth_ratio_def f_of_nat_u32 f_div_mono)

lemma depth_ratio_range:
  assumes "d < 2 ^ 32" and "m < 2 ^ 32"
  shows "\<exists>r. depth_ratio d m = Fin r \<and> 0 \<le> r \<and> r \<le> 2 ^ 32"
proof (cases "m = 0")
  case True
  then show ?thesis by (simp add: depth_ratio_def)
next
  case False
  let ?x = "of_nat d / of_nat m :: rat"
  have eq: "depth_ratio d m = rnd ?x"
    using assms False by (simp add: depth_ratio_def f_of_nat_u32 f_div_def)
  have "(of_nat d :: rat) \<le> of_nat (2 ^ 32)" using assms(1) by (simp only: of_nat_le_iff)
  moreover have "?x \<le> of_nat d"
  proof -
    have "(1::rat) \<le> of_nat m" using False by (simp add: Suc_le_eq)
    then have "(of_nat d :: rat) * 1 \<le> of_nat d * of_nat m" by (intro mult_left_mono) simp_all
    then show ?thesis using False by (simp add: divide_le_eq)
  qed
  ultimately have "?x \<le> of_int (2 ^ 32)" by simp
  from rnd_mono[OF this] have "f_le (rnd ?x) (Fin (of_int (2 ^ 32)))"
    by (subst (asm) rnd_int_exact) simp_all
  moreover have "f_le (Fin 0) (rnd ?x)" by (rule rnd_nonneg) simp
  ultimately show ?thesis unfolding eq by (cases "rnd ?x") auto
qed

lemma f_add_mono_right: "f_le (Fin x) (Fin y) \<Longrightarrow> f_le (f_add (Fin a) (Fin x)) (f_add (Fin a) (Fin y))"
  by (simp add: rnd_mono)

lemma factor_range:
  assumes "0 \<le> r" and "r \<le> 2 ^ 32"
  shows "\<exists>k. f_add (Fin 1) (Fin r) = Fin k \<and> 1 \<le> k \<and> k \<le> 2 ^ 33"
proof -
  have "f_le (rnd 1) (rnd (1 + r))" using assms by (intro rnd_mono) simp
  moreover have "f_le (rnd (1 + r)) (rnd (of_int (2 ^ 33)))" using assms by (intro rnd_mono) simp
  moreover have "rnd (of_int (2 ^ 33)) = Fin (2 ^ 33)" by (subst rnd_int_exact) simp_all
  ultimately show ?thesis by (cases "rnd (1 + r)") auto
qed

lemma as_secs_f64_range:
  assumes "d \<le> 2 ^ 30 * nanos_per_sec"
  shows "\<exists>s. as_secs_f64 d = Fin s \<and> 0 \<le> s \<and> s \<le> 2 ^ 31"
proof -
  let ?q = "d div nanos_per_sec" and ?m = "d mod nanos_per_sec"
  have q: "?q \<le> 2 ^ 30" using assms by (simp add: nanos_per_sec_def div_le_mono[of d "2 ^ 30 * 1000000000" 1000000000, simplified])
  have m: "?m < nanos_per_sec" by (simp add: nanos_per_sec_def)
  have fr: "f_div (f_of_nat ?m) (f_of_nat nanos_per_sec) = rnd (of_nat ?m / of_nat nanos_per_sec)"
    using m by (simp add: f_of_nat_exact f_div_def nanos_per_sec_def)
  have "(of_nat ?m :: rat) / of_nat nanos_per_sec \<le> 1" using m by (simp add: nanos_per_sec_def)
  then obtain t where t: "rnd (of_nat ?m / of_nat nanos_per_sec) = Fin t" "0 \<le> t" "t \<le> 1"
    using f_le_Fin01[OF rnd_unit[of "of_nat ?m / of_nat nanos_per_sec"]] by auto
  have eq: "as_secs_f64 d = rnd (of_nat ?q + t)"
    using q by (simp add: as_secs_f64_def fr t f_of_nat_exact)
  have "(of_nat ?q :: rat) \<le> of_nat (2 ^ 30)" using q by (simp only: of_nat_le_iff)
  then have "of_nat ?q + t \<le> of_int (2 ^ 31)" using t by simp
  from rnd_mono[OF this] have "f_le (rnd (of_nat ?q + t)) (Fin (2 ^ 31))"
    by (subst (asm) rnd_int_exact) simp_all
  moreover have "f_le (Fin 0) (rnd (of_nat ?q + t))" using t by (intro rnd_nonneg) simp
  ultimately show ?thesis unfolding eq by (cases "rnd (of_nat ?q + t)") auto
qed

lemma from_secs_f64_mono:
  assumes "f_le (Fin x) (Fin y)" and "from_secs_f64 (Fin x) = Some a" and "from_secs_f64 (Fin y) = Some b"
  shows "a \<le> b"
proof -
  have "x * of_nat nanos_per_sec \<le> y * of_nat nanos_per_sec"
    using assms(1) by (simp add: mult_right_mono)
  then show ?thesis
    using assms(2,3) round_even_mono[of "x * of_nat nanos_per_sec" "y * of_nat nanos_per_sec"]
    by (auto simp: from_secs_f64_def Let_def split: if_splits intro: nat_mono)
qed

lemma retry_product:
  assumes "d < 2 ^ 32" and "m < 2 ^ 32" and "base \<le> 2 ^ 30 * nanos_per_sec"
  obtains k s p where "f_add (Fin 1) (depth_ratio d m) = Fin k" "1 \<le> k" "as_secs_f64 base = Fin s" "0 \<le> s"
    "f_mul (Fin k) (Fin s) = Fin p" "0 \<le> p" "p \<le> 2 ^ 64 - 2 ^ 32"
    "fail_fast_retry_after d m base = from_secs_f64 (Fin p)"
proof -
  obtain r where r: "depth_ratio d m = Fin r" "0 \<le> r" "r \<le> 2 ^ 32"
    using depth_ratio_range[OF assms(1,2)] by blast
  obtain k where k: "f_add (Fin 1) (Fin r) = Fin k" "1 \<le> k" "k \<le> 2 ^ 33"
    using factor_range[OF r(2,3)] by blast
  obtain s where s: "as_secs_f64 base = Fin s" "0 \<le> s" "s \<le> 2 ^ 31"
    using as_secs_f64_range[OF assms(3)] by blast
  have "k * s \<le> 2 ^ 33 * 2 ^ 31" using k s by (intro mult_mono) auto
  have le: "r + 1 \<le> 2 ^ 32 + 1" using r by simp
  have kk: "k \<le> 2 ^ 32 + 1"
  proof -
    have "f_le (rnd (1 + r)) (rnd (of_int (2 ^ 32 + 1)))" using r by (intro rnd_mono) simp
    moreover have "rnd (of_int (2 ^ 32 + 1)) = Fin (2 ^ 32 + 1)" by (subst rnd_int_exact) simp_all
    ultimately show ?thesis using k(1) by simp
  qed
  have "k * s \<le> (2 ^ 32 + 1) * 2 ^ 31" using kk k s by (intro mult_mono) auto
  then have le: "k * s \<le> of_int (2 ^ 32 + 1) * 2 ^ 31" by simp
  have ex: "rnd (2 ^ 64 - 2 ^ 32) = Fin (2 ^ 64 - 2 ^ 32)"
  proof -
    have "rnd_pos (2 ^ 64 - 2 ^ 32) = 2 ^ 64 - 2 ^ 32"
    proof (rule rnd_pos_exact[where m = "2 ^ 32 - 1" and k = 32])
      have "ilog2 (2 ^ 64 - 2 ^ 32) < 64"
        using ilog2_bounds(1)[of "2 ^ 64 - 2 ^ 32"] powi2_less_cancel[of "ilog2 (2 ^ 64 - 2 ^ 32)" 64]
        by simp
      then show "ulp_exp (2 ^ 64 - 2 ^ 32) \<le> 32" by (simp add: ulp_exp_def)
    qed simp
    moreover have "\<not> (2::rat) powi 1024 \<le> 2 ^ 64 - 2 ^ 32"
    proof -
      have "(2::rat) powi 64 < 2 powi 1024" by (rule power_int_strict_increasing) simp_all
      then show ?thesis by simp
    qed
    ultimately show ?thesis by (simp add: rnd_pos_case)
  qed
  have "f_le (rnd (k * s)) (rnd (2 ^ 64 - 2 ^ 32))"
    using \<open>k * s \<le> (2 ^ 32 + 1) * 2 ^ 31\<close> by (intro rnd_mono) simp
  moreover have "f_le (Fin 0) (rnd (k * s))" using k s by (intro rnd_nonneg) simp
  ultimately obtain p where p: "rnd (k * s) = Fin p" "0 \<le> p" "p \<le> 2 ^ 64 - 2 ^ 32"
    unfolding ex by (cases "rnd (k * s)") auto
  show ?thesis
    by (rule that[of k s p]) (use k s p r in \<open>simp_all add: f_mul_def fail_fast_retry_after_def mul_f64_def\<close>)
qed

lemma from_secs_f64_total:
  assumes "0 \<le> p" and "p \<le> 2 ^ 64 - 2 ^ 32"
  shows "\<exists>d. from_secs_f64 (Fin p) = Some d"
proof -
  have "round_even (p * of_nat nanos_per_sec) \<le> (2 ^ 64 - 2 ^ 32) * 1000000000"
    using assms by (intro round_even_le_int) (simp add: nanos_per_sec_def)
  then have "nat (round_even (p * of_nat nanos_per_sec)) \<le> duration_max"
    by (simp add: duration_max_def)
  then show ?thesis using assms(1) by (simp add: from_secs_f64_def Let_def)
qed

text \<open>
  The advised delay of a rejection is total and monotone: for 32-bit depths and a
  base of at most 2^30 seconds the computation never panics, and a deeper queue never
  yields a shorter Retry-After.
\<close>

theorem fail_fast_retry_after_mono:
  assumes "d \<le> d'" and "d' < 2 ^ 32" and "m < 2 ^ 32" and "base \<le> 2 ^ 30 * nanos_per_sec"
  shows "\<exists>a b. fail_fast_retry_after d m base = Some a \<and> fail_fast_retry_after d' m base = Some b \<and> a \<le> b"
proof -
  have d: "d < 2 ^ 32" using assms by simp
  obtain k s p where k: "f_add (Fin 1) (depth_ratio d m) = Fin k" "1 \<le> k" "as_secs_f64 base = Fin s" "0 \<le> s"
    "f_mul (Fin k) (Fin s) = Fin p" "0 \<le> p" "p \<le> 2 ^ 64 - 2 ^ 32"
    "fail_fast_retry_after d m base = from_secs_f64 (Fin p)" using retry_product[OF d assms(3,4)] .
  obtain k' s' p' where k': "f_add (Fin 1) (depth_ratio d' m) = Fin k'" "1 \<le> k'" "as_secs_f64 base = Fin s'" "0 \<le> s'"
    "f_mul (Fin k') (Fin s') = Fin p'" "0 \<le> p'" "p' \<le> 2 ^ 64 - 2 ^ 32"
    "fail_fast_retry_after d' m base = from_secs_f64 (Fin p')" using retry_product[OF assms(2,3,4)] .
  have "f_le (depth_ratio d m) (depth_ratio d' m)" using assms by (intro depth_ratio_mono)
  then have "f_le (Fin k) (Fin k')"
    using f_add_mono_right[of _ _ 1] depth_ratio_range[OF d assms(3)] depth_ratio_range[OF assms(2,3)] k(1) k'(1)
    by metis
  moreover have "s' = s" using k(3) k'(3) by simp
  ultimately have "k * s \<le> k' * s'" using k(4) by (simp add: mult_right_mono)
  from rnd_mono[OF this] have "f_le (Fin p) (Fin p')" using k(5) k'(5) by (simp add: f_mul_def)
  moreover obtain a b where "from_secs_f64 (Fin p) = Some a" "from_secs_f64 (Fin p') = Some b"
    using from_secs_f64_total k k' by metis
  ultimately show ?thesis using from_secs_f64_mono k(8) k'(8) by auto
qed

theorem fail_fast_retry_after_mono_witness:
  "\<exists>a b. fail_fast_retry_after 3 100 (secs 1) = Some a \<and> fail_fast_retry_after 50 100 (secs 1) = Some b \<and> a \<le> b"
  by (rule fail_fast_retry_after_mono) (simp_all add: secs_def nanos_per_sec_def)

lemma as_secs_f64_whole: "n \<le> 2 ^ 53 \<Longrightarrow> as_secs_f64 (secs n) = Fin (of_nat n)"
proof -
  assume n: "n \<le> 2 ^ 53"
  have z: "f_div (f_of_nat 0) (f_of_nat nanos_per_sec) = Fin 0"
    by (simp add: f_of_nat_exact f_div_def nanos_per_sec_def)
  have "f_add (Fin (of_nat n)) (Fin 0) = f_of_nat n" by (simp add: f_of_nat_def)
  then show ?thesis using n z
    by (simp add: as_secs_f64_def secs_def nanos_per_sec_def f_of_nat_exact)
qed

text \<open>
  A rejected client is never told to come back before the configured base delay
  (a whole number of seconds), whatever the queue depth; with a queue limit of zero the
  delay is the one for factor 3, not the factor 2 that the comment on the function states.
\<close>

theorem fail_fast_retry_after_bounds:
  assumes "d < 2 ^ 32" and "m < 2 ^ 32" and "n \<le> 2 ^ 30"
  shows "(\<exists>a. fail_fast_retry_after d m (secs n) = Some a \<and> secs n \<le> a)
    \<and> (m = 0 \<longrightarrow> fail_fast_retry_after d m (secs n) = Some (3 * secs n))"
proof
  have base: "secs n \<le> 2 ^ 30 * nanos_per_sec" using assms(3) by (simp add: secs_def nanos_per_sec_def)
  obtain k s p where k: "f_add (Fin 1) (depth_ratio d m) = Fin k" "1 \<le> k" "as_secs_f64 (secs n) = Fin s" "0 \<le> s"
    "f_mul (Fin k) (Fin s) = Fin p" "0 \<le> p" "p \<le> 2 ^ 64 - 2 ^ 32"
    "fail_fast_retry_after d m (secs n) = from_secs_f64 (Fin p)" using retry_product[OF assms(1,2) base] .
  have s: "s = of_nat n" using k(3) as_secs_f64_whole[of n] assms(3) by simp
  have "f_le (rnd (of_nat n)) (rnd (k * s))" using k s by (intro rnd_mono) (simp add: mult_le_cancel_right1)
  then have "of_nat n \<le> p"
    using k(5) s assms(3) f_of_nat_exact[of n] by (simp add: f_mul_def f_of_nat_def)
  then have "int (n * nanos_per_sec) \<le> round_even (p * of_nat nanos_per_sec)"
    by (intro round_even_ge_int) (simp add: nanos_per_sec_def)
  moreover obtain a where "from_secs_f64 (Fin p) = Some a" using from_secs_f64_total k by blast
  ultimately have "secs n \<le> a" using k(6)
    by (auto simp: from_secs_f64_def Let_def secs_def nanos_per_sec_def split: if_splits)
  with \<open>from_secs_f64 (Fin p) = Some a\<close> k(8)
  show "\<exists>a. fail_fast_retry_after d m (secs n) = Some a \<and> secs n \<le> a" by auto
  show "m = 0 \<longrightarrow> fail_fast_retry_after d m (secs n) = Some (3 * secs n)"
  proof
    assume "m = 0"
    then have f: "f_add (Fin 1) (depth_ratio d m) = Fin 3"
      using rnd_int_exact[of 3] by (simp add: depth_ratio_def)
    have "f_mul (Fin 3) (Fin (of_nat n)) = Fin (of_nat (3 * n))"
      using assms(3) f_of_nat_exact[of "3 * n"] by (simp add: f_mul_def f_of_nat_def)
    moreover have "round_even (of_nat (3 * n) * of_nat nanos_per_sec) = int (3 * n * nanos_per_sec)"
      using round_even_of_int[of "int (3 * n * nanos_per_sec)"] by simp
    moreover have "nat (3000000000 * int n) = 3000000000 * n" by (simp add: nat_mult_distrib)
    ultimately have "fail_fast_retry_after d m (secs n) = Some (3 * n * nanos_per_sec)"
      using assms(3) as_secs_f64_whole[of n]
      by (simp add: fail_fast_retry_after_def mul_f64_def f from_secs_f64_def Let_def duration_max_def
          nanos_per_sec_def)
    then show "fail_fast_retry_after d m (secs n) = Some (3 * secs n)"
      by (simp add: secs_def nanos_per_sec_def)
  qed
qed

theorem fail_fast_retry_after_bounds_witness:
  "fail_fast_retry_after 7 0 (secs 1) = Some (3 * secs 1)"
  using fail_fast_retry_after_bounds[of 7 0 1] by simp

end
