(* ===== verification/Exposition.thy ===== *)
theory Exposition
  imports Metrics Backpressure
begin

text \<open>
  The collectors as Prometheus sees them (src/metrics/mod.rs, \<open>Metrics::new\<close>, and src/metrics/endpoint.rs): their names,
  kinds, labels and buckets, their registration, which panics on a name that is taken, and the page of
  GET /metrics made from the record of theory Metrics.  The text encoder is a parameter.  Lemmas: the registration
  succeeds, every collector is on the page once, with as many label values as it has labels, and histograms are cumulative.
\<close>

section \<open>Collectors\<close>

datatype collector_kind = GaugeKind | CounterKind | HistogramKind "rat list"

record collector =
  co_name :: string
  co_kind :: collector_kind
  co_labels :: "string list"

definition wait_buckets :: "rat list" where
  "wait_buckets = [1/100, 5/100, 1/10, 5/10, 1, 2, 5, 10, 30]"

definition gap_buckets :: "rat list" where
  "gap_buckets = [1/10, 25/100, 5/10, 1, 2, 5, 10, 30, 60, 120]"

definition core_collectors :: "collector list" where
  "core_collectors = [
     \<lparr> co_name = ''llm_queue_depth'', co_kind = GaugeKind, co_labels = [''flow_id''] \<rparr>,
     \<lparr> co_name = ''llm_queue_wait_seconds'', co_kind = HistogramKind wait_buckets, co_labels = [] \<rparr>,
     \<lparr> co_name = ''llm_active_flows'', co_kind = GaugeKind, co_labels = [] \<rparr>,
     \<lparr> co_name = ''llm_tokens_generated_total'', co_kind = CounterKind, co_labels = [] \<rparr>,
     \<lparr> co_name = ''llm_tokens_per_second'', co_kind = GaugeKind, co_labels = [] \<rparr>,
     \<lparr> co_name = ''vllm_requests_active'', co_kind = GaugeKind, co_labels = [] \<rparr>,
     \<lparr> co_name = ''vllm_errors_total'', co_kind = CounterKind, co_labels = [] \<rparr>,
     \<lparr> co_name = ''llm_backpressure_rejections_total'', co_kind = CounterKind, co_labels = [''mode''] \<rparr>,
     \<lparr> co_name = ''llm_flow_credit'', co_kind = GaugeKind, co_labels = [''flow_id''] \<rparr>,
     \<lparr> co_name = ''scheduler_effective_max_flows'', co_kind = GaugeKind, co_labels = [] \<rparr>,
     \<lparr> co_name = ''llm_flow_starvation_seconds'', co_kind = GaugeKind, co_labels = [''flow_id''] \<rparr>,
     \<lparr> co_name = ''llm_starvation_force_admits_total'', co_kind = CounterKind, co_labels = [] \<rparr>,
     \<lparr> co_name = ''llm_request_events_total'', co_kind = CounterKind, co_labels = [''event''] \<rparr>,
     \<lparr> co_name = ''vllm_kv_cache_usage'', co_kind = GaugeKind, co_labels = [] \<rparr>,
     \<lparr> co_name = ''vllm_kv_cache_free'', co_kind = GaugeKind, co_labels = [] \<rparr>,
     \<lparr> co_name = ''llm_backend_kv_pressure'', co_kind = GaugeKind, co_labels = [] \<rparr>,
     \<lparr> co_name = ''llm_backend_stalled'', co_kind = GaugeKind, co_labels = [] \<rparr>,
     \<lparr> co_name = ''tinyllb_backend_stall_events_total'', co_kind = CounterKind, co_labels = [] \<rparr>,
     \<lparr> co_name = ''llm_kv_admission_decisions_total'', co_kind = CounterKind, co_labels = [''decision''] \<rparr>]"

definition heuristic_collectors :: "collector list" where
  "heuristic_collectors = [
     \<lparr> co_name = ''llm_flow_priority_class'', co_kind = GaugeKind, co_labels = [''flow_id''] \<rparr>,
     \<lparr> co_name = ''llm_flow_priority_source_total'', co_kind = CounterKind, co_labels = [''flow_id'', ''source''] \<rparr>,
     \<lparr> co_name = ''llm_flow_inter_request_seconds'', co_kind = HistogramKind gap_buckets, co_labels = [''flow_id''] \<rparr>,
     \<lparr> co_name = ''llm_flow_cadence_state'', co_kind = GaugeKind, co_labels = [''flow_id''] \<rparr>,
     \<lparr> co_name = ''tinyllb_premature_stop_detected_total'', co_kind = CounterKind, co_labels = [] \<rparr>,
     \<lparr> co_name = ''tinyllb_premature_stop_retries_total'', co_kind = CounterKind, co_labels = [] \<rparr>,
     \<lparr> co_name = ''tinyllb_premature_stop_exhausted_total'', co_kind = CounterKind, co_labels = [] \<rparr>,
     \<lparr> co_name = ''tinyllb_backend_retries_total'', co_kind = CounterKind, co_labels = [] \<rparr>,
     \<lparr> co_name = ''tinyllb_backend_retry_exhausted_total'', co_kind = CounterKind, co_labels = [] \<rparr>]"

text \<open>The registration in the order of the source; \<open>None\<close> is the panic of \<open>expect\<close>.\<close>

fun register_all :: "collector list \<Rightarrow> collector list \<Rightarrow> collector list option" where
  "register_all reg [] = Some reg"
| "register_all reg (c # cs) = (if co_name c \<in> co_name ` set reg then None else register_all (reg @ [c]) cs)"

section \<open>The page\<close>

text \<open>A sample of a histogram: the counts up to each bound, and the number of observations.\<close>

datatype sample = Value f64 | Buckets "nat list" nat

definition histogram :: "rat list \<Rightarrow> duration list \<Rightarrow> sample" where
  "histogram bounds ds = Buckets (map (\<lambda>b. length (filter (\<lambda>d. f_le (as_secs_f64 d) (lit b)) ds)) bounds) (length ds)"

definition labelled :: "('v \<Rightarrow> f64) \<Rightarrow> (string, 'v) hmap \<Rightarrow> (string list \<times> sample) list" where
  "labelled f m = map (\<lambda>(l, v). ([l], Value (f v))) m"

definition exposition :: "metrics \<Rightarrow> (string \<times> (string list \<times> sample) list) list" where
  "exposition m = [
     (''llm_queue_depth'', labelled f_of_nat (m_queue_depth m)),
     (''llm_queue_wait_seconds'', [([], histogram wait_buckets (m_queue_wait m))]),
     (''llm_active_flows'', [([], Value (f_of_int (m_active_flows m)))]),
     (''llm_tokens_generated_total'', [([], Value (f_of_int (m_tokens_generated m)))]),
     (''llm_tokens_per_second'', [([], Value (m_tokens_per_second m))]),
     (''vllm_requests_active'', [([], Value (f_of_int (m_requests_active m)))]),
     (''vllm_errors_total'', [([], Value (f_of_nat (m_errors m)))]),
     (''llm_backpressure_rejections_total'', labelled f_of_nat (m_bp_rejections m)),
     (''llm_flow_credit'', labelled id (m_flow_credit m)),
     (''scheduler_effective_max_flows'', [([], Value (f_of_nat (m_effective_max m)))]),
     (''llm_flow_starvation_seconds'', labelled as_secs_f64 (m_flow_starvation m)),
     (''llm_starvation_force_admits_total'', [([], Value (f_of_nat (m_force_admits m)))]),
     (''llm_request_events_total'', labelled f_of_nat (m_events m)),
     (''vllm_kv_cache_usage'', [([], Value (m_kv_usage m))]),
     (''vllm_kv_cache_free'', [([], Value (m_kv_free m))]),
     (''llm_backend_kv_pressure'', [([], Value (m_kv_pressure m))]),
     (''llm_backend_stalled'', [([], Value (m_stalled m))]),
     (''tinyllb_backend_stall_events_total'', [([], Value (f_of_nat (m_stall_events m)))]),
     (''llm_kv_admission_decisions_total'', labelled f_of_nat (m_kv_decisions m)),
     (''llm_flow_priority_class'', labelled f_of_nat (m_priority_class m)),
     (''llm_flow_priority_source_total'', map (\<lambda>((l, src), n). ([l, src], Value (f_of_nat n))) (m_priority_source m)),
     (''llm_flow_inter_request_seconds'', map (\<lambda>l. ([l], histogram gap_buckets (map snd (filter (\<lambda>(k, _). k = l) (m_inter_request m))))) (remdups (map fst (m_inter_request m)))),
     (''llm_flow_cadence_state'', labelled f_of_nat (m_cadence_state m)),
     (''tinyllb_premature_stop_detected_total'', [([], Value (f_of_nat (m_ps_detected m)))]),
     (''tinyllb_premature_stop_retries_total'', [([], Value (f_of_nat (m_ps_retries m)))]),
     (''tinyllb_premature_stop_exhausted_total'', [([], Value (f_of_nat (m_ps_exhausted m)))]),
     (''tinyllb_backend_retries_total'', [([], Value (f_of_nat (m_be_retries m)))]),
     (''tinyllb_backend_retry_exhausted_total'', [([], Value (f_of_nat (m_be_exhausted m)))])]"

definition metrics_handler :: "((string \<times> (string list \<times> sample) list) list \<Rightarrow> string option) \<Rightarrow> metrics
    \<Rightarrow> nat \<times> (string \<times> string) list \<times> string" where
  "metrics_handler encode m = (case encode (exposition m) of
       Some body \<Rightarrow> (200, [(''content-type'', ''text/plain; version=0.0.4'')], body)
     | None \<Rightarrow> (500, [], []))"

section \<open>Properties\<close>

lemma register_all_iff:
  "register_all reg cs = (if distinct (map co_name cs) \<and> co_name ` set cs \<inter> co_name ` set reg = {} then Some (reg @ cs) else None)"
  by (induction cs arbitrary: reg) auto

text \<open>\<open>Metrics::new\<close> does not panic.\<close>

lemma collectors_register:
  "register_all [] (core_collectors @ heuristic_collectors) = Some (core_collectors @ heuristic_collectors)"
  by (simp add: register_all_iff) (simp add: core_collectors_def heuristic_collectors_def)

text \<open>The page has every collector once, in the order of registration, and a label value for every label.\<close>

lemma exposition_complete:
  "map fst (exposition m) = map co_name (core_collectors @ heuristic_collectors)"
  "list_all2 (\<lambda>c (_, samples). list_all (\<lambda>(ls, _). length ls = length (co_labels c)) samples)
     (core_collectors @ heuristic_collectors) (exposition m)"
  by (simp_all add: exposition_def core_collectors_def heuristic_collectors_def list_all_iff labelled_def split_beta)

text \<open>Bucket counts are cumulative and bounded by the number of observations.\<close>

lemma histogram_cumulative:
  assumes "sorted bounds"
  shows "\<exists>cs n. histogram bounds ds = Buckets cs n \<and> sorted cs \<and> (\<forall>c \<in> set cs. c \<le> n)"
proof -
  have le: "length (filter (\<lambda>d. f_le (as_secs_f64 d) (lit a)) ds) \<le> length (filter (\<lambda>d. f_le (as_secs_f64 d) (lit b)) ds)"
    if "a \<le> b" for a b
  proof -
    have "f_le (lit a) (lit b)" using that by (simp add: lit_def rnd_mono)
    then show ?thesis by (induction ds) (auto intro: f_le_trans le_SucI)
  qed
  have "sorted (map (\<lambda>b. length (filter (\<lambda>d. f_le (as_secs_f64 d) (lit b)) ds)) bounds)"
    using assms le by (auto simp: sorted_wrt_map elim: sorted_wrt_mono_rel[rotated])
  then show ?thesis by (auto simp: histogram_def)
qed

end
