(* ===== verification/FlowCore.thy ===== *)
theory FlowCore
  imports F64 Config
begin

unbundle bit_operations_syntax

text \<open>
  Flows (src/flow/mod.rs): identifiers, the hash that gives a flow its home slot, the
  priority tokens, and the per-flow record with its accessors.  A flow identifier is
  the byte string of the Rust \<open>String\<close>.  The atomics are the fields of an immutable
  record; \<open>fetch_add\<close>/\<open>fetch_sub\<close> on \<open>AtomicU32\<close> wrap, so \<open>depth\<close> and \<open>active\<close>
  are 32-bit words.
\<close>

section \<open>Strings\<close>

definition byte_of :: "char \<Rightarrow> nat" where "byte_of c = of_char c"

definition ascii_lower :: "char \<Rightarrow> char" where
  "ascii_lower c = (if 65 \<le> byte_of c \<and> byte_of c \<le> 90 then char_of (byte_of c + 32) else c)"

definition to_ascii_lowercase :: "string \<Rightarrow> string" where
  "to_ascii_lowercase s = map ascii_lower s"

definition eq_ignore_ascii_case :: "string \<Rightarrow> string \<Rightarrow> bool" where
  "eq_ignore_ascii_case a b \<longleftrightarrow> to_ascii_lowercase a = to_ascii_lowercase b"

text \<open>\<open>str::trim\<close> on ASCII text.\<close>

definition is_ws :: "char \<Rightarrow> bool" where
  "is_ws c \<longleftrightarrow> byte_of c = 32 \<or> (9 \<le> byte_of c \<and> byte_of c \<le> 13)"

definition trim :: "string \<Rightarrow> string" where
  "trim s = rev (dropWhile is_ws (rev (dropWhile is_ws s)))"

definition starts_with :: "'a list \<Rightarrow> 'a list \<Rightarrow> bool" where
  "starts_with s p \<longleftrightarrow> take (length p) s = p"

lemma starts_with_append [simp]: "starts_with (p @ s) p"
  by (simp add: starts_with_def)

section \<open>Flow identifiers and the home slot\<close>

type_synonym flow_id = string

definition is_ephemeral :: "flow_id \<Rightarrow> bool" where
  "is_ephemeral f = starts_with f ''ephemeral-''"

definition metric_label :: "flow_id \<Rightarrow> string" where
  "metric_label f = (if is_ephemeral f then ''ephemeral'' else f)"

text \<open>FNV-1a, 64 bit.\<close>

definition fnv_offset :: u64 where "fnv_offset = 0xcbf29ce484222325"
definition fnv_prime :: u64 where "fnv_prime = 0x00000100000001b3"

definition fnv_step :: "u64 \<Rightarrow> char \<Rightarrow> u64" where
  "fnv_step h b = (h XOR of_nat (byte_of b)) * fnv_prime"

definition fnv1a :: "string \<Rightarrow> u64" where
  "fnv1a s = foldl fnv_step fnv_offset s"

definition slot_id_for_flow :: "string \<Rightarrow> nat \<Rightarrow> nat" where
  "slot_id_for_flow flow slot_count =
     (if slot_count = 0 then 0 else unat (fnv1a flow) mod slot_count)"

lemma slot_id_in_range: "0 < n \<Longrightarrow> slot_id_for_flow f n < n"
  by (simp add: slot_id_for_flow_def)

text \<open>One step of the hash is a bijection of the state, as the prime is odd.\<close>

lemma fnv_prime_inverse: "fnv_prime * 0xCE965057AFF6957B = 1"
  by (simp add: fnv_prime_def)

lemma fnv_step_inj: "fnv_step h b = fnv_step h' b \<longleftrightarrow> h = h'"
proof
  assume "fnv_step h b = fnv_step h' b"
  then have "(h XOR of_nat (byte_of b)) * (fnv_prime * 0xCE965057AFF6957B)
      = (h' XOR of_nat (byte_of b)) * (fnv_prime * 0xCE965057AFF6957B)"
    by (simp only: fnv_step_def mult.assoc[symmetric])
  then have "h XOR of_nat (byte_of b) = h' XOR of_nat (byte_of b)"
    by (simp only: fnv_prime_inverse mult_1_right)
  then have "(h XOR of_nat (byte_of b)) XOR of_nat (byte_of b) = (h' XOR of_nat (byte_of b)) XOR of_nat (byte_of b)"
    by simp
  then show "h = h'" by (simp add: xor.assoc)
qed simp

lemma byte_of_inj: "of_nat (byte_of a) = (of_nat (byte_of b) :: u64) \<longleftrightarrow> a = b"
proof -
  have "byte_of c < 2 ^ LENGTH(64)" for c
    using of_char_of[where 'a = nat] by (simp add: byte_of_def less_trans[of _ 256])
  then have "unat (of_nat (byte_of c) :: u64) = byte_of c" for c
    by (simp add: unat_of_nat take_bit_nat_eq_self)
  then show ?thesis by (metis byte_of_def of_char_eq_iff)
qed

lemma fnv1a_last_byte: "fnv1a (s @ [a]) = fnv1a (s @ [b]) \<longleftrightarrow> a = b"
proof -
  have "fnv_step h a = fnv_step h b \<longleftrightarrow> a = b" for h
  proof
    assume "fnv_step h a = fnv_step h b"
    then have "(h XOR of_nat (byte_of a)) * (fnv_prime * 0xCE965057AFF6957B)
        = (h XOR of_nat (byte_of b)) * (fnv_prime * 0xCE965057AFF6957B)"
      by (simp only: fnv_step_def mult.assoc[symmetric])
    then have "h XOR of_nat (byte_of a) = h XOR of_nat (byte_of b)"
      by (simp only: fnv_prime_inverse mult_1_right)
    then have "h XOR (h XOR of_nat (byte_of a)) = h XOR (h XOR of_nat (byte_of b))" by simp
    then have "of_nat (byte_of a) = (of_nat (byte_of b) :: u64)" by (simp flip: xor.assoc)
    then show "a = b" by (simp add: byte_of_inj)
  qed simp
  then show ?thesis by (simp add: fnv1a_def)
qed

section \<open>Priority classes\<close>

datatype priority_class = Interactive | Agent | Background

definition resolve_priority_token :: "string \<Rightarrow> priority_class option" where
  "resolve_priority_token s = (let t = to_ascii_lowercase (trim s) in
     if t = ''interactive'' then Some Interactive
     else if t = ''agent'' then Some Agent
     else if t = ''background'' then Some Background
     else None)"

definition class_value :: "priorities \<Rightarrow> priority_class \<Rightarrow> nat" where
  "class_value classes c = (case c of Interactive \<Rightarrow> pr_interactive classes
     | Agent \<Rightarrow> pr_agent classes | Background \<Rightarrow> pr_background classes)"

section \<open>The flow record\<close>

record flow =
  fl_id :: flow_id
  fl_weight :: f64
  fl_priority :: nat
  fl_depth :: u32
  fl_credit :: i64
  fl_enqueued_at :: "instant option"
  fl_active :: u32
  fl_priority_source :: nat
  fl_last_seen :: nat

definition flow_new :: "flow_id \<Rightarrow> f64 \<Rightarrow> nat \<Rightarrow> nat \<Rightarrow> flow" where
  "flow_new i w p now = \<lparr> fl_id = i, fl_weight = w, fl_priority = p, fl_depth = 0,
     fl_credit = 0, fl_enqueued_at = None, fl_active = 0, fl_priority_source = 0,
     fl_last_seen = now \<rparr>"

definition is_active :: "flow \<Rightarrow> bool" where
  "is_active f \<longleftrightarrow> 0 < fl_active f"

definition inc_active :: "flow \<Rightarrow> flow" where
  "inc_active f = f\<lparr>fl_active := fl_active f + 1\<rparr>"

definition dec_active :: "flow \<Rightarrow> flow" where
  "dec_active f = f\<lparr>fl_active := fl_active f - 1\<rparr>"

text \<open>\<open>weight as i64\<close> and \<open>work_unit as i64\<close> truncate.\<close>

definition weight_i64 :: "flow \<Rightarrow> i64" where
  "weight_i64 f = as_i64 (fl_weight f)"

lemma flow_new_simps [simp]:
  "fl_id (flow_new i w p now) = i" "fl_depth (flow_new i w p now) = 0"
  "fl_active (flow_new i w p now) = 0" "fl_credit (flow_new i w p now) = 0"
  "fl_priority_source (flow_new i w p now) = 0" "fl_enqueued_at (flow_new i w p now) = None"
  "fl_priority (flow_new i w p now) = p" "fl_weight (flow_new i w p now) = w"
  "fl_last_seen (flow_new i w p now) = now"
  by (simp_all add: flow_new_def)

end
