(* ===== verification/Slots.thy ===== *)
theory Slots
  imports FlowCore
begin

text \<open>
  The stateful slot allocator (src/flow/slots.rs).  State: the assignments and the
  per-slot occupancy, kept in step by every operation (\<open>slots_inv\<close>).  Lemmas: the
  operations keep the invariant, the occupancy never underflows, an assignment is in
  range and stable, and two flows share a slot only when none was free.
\<close>

record slot_alloc =
  assignments :: "(flow_id, nat) hmap"
  occupied :: "(nat, nat) hmap"

definition slots_new :: slot_alloc where
  "slots_new = \<lparr> assignments = [], occupied = [] \<rparr>"

definition slot_is_free :: "slot_alloc \<Rightarrow> nat \<Rightarrow> bool" where
  "slot_is_free a slot = (case hget (occupied a) slot of None \<Rightarrow> True | Some count \<Rightarrow> count = 0)"

text \<open>\<open>Inner::free\<close>: the occupancy entry is dropped when it reaches zero.\<close>

definition slot_free :: "nat \<Rightarrow> slot_alloc \<Rightarrow> slot_alloc" where
  "slot_free slot a = (case hget (occupied a) slot of
       None \<Rightarrow> a
     | Some count \<Rightarrow>
         if count - 1 = 0 then a\<lparr>occupied := hdel slot (occupied a)\<rparr>
         else a\<lparr>occupied := hput slot (count - 1) (occupied a)\<rparr>)"

definition slot_place :: "flow_id \<Rightarrow> nat \<Rightarrow> slot_alloc \<Rightarrow> nat \<times> slot_alloc" where
  "slot_place flow slot_count a =
     (let home = slot_id_for_flow flow slot_count;
          slot = (if slot_is_free a home then home
                  else case List.find (slot_is_free a) [0..<slot_count] of
                         Some s \<Rightarrow> s | None \<Rightarrow> home);
          n = (case hget (occupied a) slot of Some c \<Rightarrow> c | None \<Rightarrow> 0)
      in (slot, a\<lparr>assignments := hput flow slot (assignments a),
                  occupied := hput slot (n + 1) (occupied a)\<rparr>))"

definition slot_assign :: "flow_id \<Rightarrow> nat \<Rightarrow> slot_alloc \<Rightarrow> nat \<times> slot_alloc" where
  "slot_assign flow slot_count a =
     (case hget (assignments a) flow of
        Some slot \<Rightarrow>
          if slot < slot_count then (slot, a)
          else slot_place flow slot_count (slot_free slot (a\<lparr>assignments := hdel flow (assignments a)\<rparr>))
      | None \<Rightarrow> slot_place flow slot_count a)"

definition slot_release :: "flow_id \<Rightarrow> slot_alloc \<Rightarrow> slot_alloc" where
  "slot_release flow a = (case hget (assignments a) flow of
       Some slot \<Rightarrow> slot_free slot (a\<lparr>assignments := hdel flow (assignments a)\<rparr>)
     | None \<Rightarrow> a)"

fun sweep_orphans :: "(flow_id \<times> nat) list \<Rightarrow> slot_alloc \<Rightarrow> slot_alloc" where
  "sweep_orphans [] a = a"
| "sweep_orphans ((f, slot) # os) a =
     sweep_orphans os (slot_free slot (a\<lparr>assignments := hdel f (assignments a)\<rparr>))"

definition slot_sweep_missing :: "(flow_id \<Rightarrow> bool) \<Rightarrow> slot_alloc \<Rightarrow> nat \<times> slot_alloc" where
  "slot_sweep_missing exists a =
     (let orphans = filter (\<lambda>(f, s). \<not> exists f) (assignments a)
      in (length orphans, sweep_orphans orphans a))"

definition slot_len :: "slot_alloc \<Rightarrow> nat" where
  "slot_len a = length (assignments a)"

section \<open>The invariant\<close>

definition holders :: "nat \<Rightarrow> (flow_id, nat) hmap \<Rightarrow> nat" where
  "holders s m = length (filter (\<lambda>(f, t). t = s) m)"

definition slots_inv :: "slot_alloc \<Rightarrow> bool" where
  "slots_inv a \<longleftrightarrow> hwf (assignments a) \<and> hwf (occupied a)
     \<and> (\<forall>s. hget (occupied a) s = (if holders s (assignments a) = 0 then None
                                    else Some (holders s (assignments a))))"

lemma holders_hput_new:
  "hget m f = None \<Longrightarrow> holders s (hput f t m) = holders s m + (if t = s then 1 else 0)"
  by (induction m) (auto simp: holders_def hput_def split: if_splits)

lemma holders_hdel:
  "hwf m \<Longrightarrow> hget m f = Some t \<Longrightarrow>
     holders s m = holders s (hdel f m) + (if t = s then 1 else 0)"
proof (induction m)
  case (Cons x m)
  obtain g u where x: "x = (g, u)" by (cases x)
  show ?case
  proof (cases "g = f")
    case True
    with Cons.prems x have "hdel f (x # m) = m"
      by (simp add: hdel_def hwf_def hkeys_def)
    with True Cons.prems x show ?thesis by (auto simp: holders_def)
  next
    case False
    with Cons x show ?thesis by (auto simp: holders_def hdel_def hwf_def hkeys_def)
  qed
qed simp

lemma holders_pos_iff:
  assumes "hwf m"
  shows "0 < holders s m \<longleftrightarrow> (\<exists>f. hget m f = Some s)"
proof -
  have "0 < holders s m \<longleftrightarrow> (\<exists>f t. (f, t) \<in> set m \<and> t = s)"
    unfolding holders_def length_greater_0_conv filter_empty_conv by blast
  then show ?thesis by (simp add: hwf_in_set[OF assms])
qed

lemma slots_inv_new: "slots_inv slots_new"
  by (simp add: slots_inv_def slots_new_def holders_def)

lemma slot_is_free_iff: "slots_inv a \<Longrightarrow> slot_is_free a s \<longleftrightarrow> holders s (assignments a) = 0"
  by (simp add: slots_inv_def slot_is_free_def)

lemma slot_free_assignments [simp]: "assignments (slot_free s a) = assignments a"
  by (simp add: slot_free_def split: option.splits)

lemma slot_remove_inv:
  assumes "slots_inv a" and "hget (assignments a) f = Some t"
  shows "slots_inv (slot_free t (a\<lparr>assignments := hdel f (assignments a)\<rparr>))"
proof -
  from assms(1) have wf: "hwf (assignments a)" "hwf (occupied a)"
    and occ: "\<And>s. hget (occupied a) s = (if holders s (assignments a) = 0 then None
                                          else Some (holders s (assignments a)))"
    by (auto simp: slots_inv_def)
  note h = holders_hdel[OF wf(1) assms(2)]
  show ?thesis
    using wf occ h by (auto simp: slots_inv_def slot_free_def)
qed

lemma slot_place_inv:
  assumes "slots_inv a" and "hget (assignments a) f = None"
  shows "slots_inv (snd (slot_place f n a))"
proof -
  from assms(1) have wf: "hwf (assignments a)" "hwf (occupied a)"
    and occ: "\<And>s. hget (occupied a) s = (if holders s (assignments a) = 0 then None
                                          else Some (holders s (assignments a)))"
    by (auto simp: slots_inv_def)
  show ?thesis
    using wf occ holders_hput_new[OF assms(2)]
    by (auto simp: slots_inv_def slot_place_def Let_def split: option.splits)
qed

lemma slot_assign_inv: "slots_inv a \<Longrightarrow> slots_inv (snd (slot_assign f n a))"
  by (auto simp: slot_assign_def slot_place_inv slot_remove_inv split: option.splits)

lemma slot_release_inv: "slots_inv a \<Longrightarrow> slots_inv (slot_release f a)"
  by (auto simp: slot_release_def slot_remove_inv split: option.splits)

lemma sweep_orphans_inv:
  "slots_inv a \<Longrightarrow> distinct (map fst os) \<Longrightarrow> (\<forall>(f, s) \<in> set os. hget (assignments a) f = Some s) \<Longrightarrow>
     slots_inv (sweep_orphans os a)
     \<and> hget (assignments (sweep_orphans os a))
       = (\<lambda>f. if f \<in> fst ` set os then None else hget (assignments a) f)"
proof (induction os a rule: sweep_orphans.induct)
  case (2 f slot os a)
  let ?a = "slot_free slot (a\<lparr>assignments := hdel f (assignments a)\<rparr>)"
  have "slots_inv ?a" using 2 by (auto intro: slot_remove_inv)
  moreover have "\<forall>(g, s) \<in> set os. hget (assignments ?a) g = Some s" using "2.prems" by force
  ultimately have "slots_inv (sweep_orphans os ?a) \<and> hget (assignments (sweep_orphans os ?a))
       = (\<lambda>g. if g \<in> fst ` set os then None else hget (assignments ?a) g)"
    using 2 by simp
  then show ?case by (auto simp: fun_eq_iff)
qed auto

lemma sweep_missing_inv:
  assumes "slots_inv a"
  shows "slots_inv (snd (slot_sweep_missing ex a))"
    and "hget (assignments (snd (slot_sweep_missing ex a))) f
           = (if ex f then hget (assignments a) f else None)"
proof -
  let ?os = "filter (\<lambda>(f, s). \<not> ex f) (assignments a)"
  from assms have wf: "hwf (assignments a)" by (simp add: slots_inv_def)
  then have "distinct (map fst ?os)" by (simp add: hwf_def hkeys_def distinct_map_filter)
  moreover have "\<forall>(f, s) \<in> set ?os. hget (assignments a) f = Some s"
    using wf by (auto simp: hwf_in_set)
  ultimately have *: "slots_inv (sweep_orphans ?os a) \<and> hget (assignments (sweep_orphans ?os a))
       = (\<lambda>f. if f \<in> fst ` set ?os then None else hget (assignments a) f)"
    using assms by (intro sweep_orphans_inv) auto
  then show "slots_inv (snd (slot_sweep_missing ex a))"
    by (simp add: slot_sweep_missing_def Let_def)
  have "f \<in> fst ` set ?os \<longleftrightarrow> \<not> ex f \<and> hget (assignments a) f \<noteq> None"
    using wf by (force simp: hwf_in_set)
  with * show "hget (assignments (snd (slot_sweep_missing ex a))) f
           = (if ex f then hget (assignments a) f else None)"
    by (auto simp: slot_sweep_missing_def Let_def)
qed

section \<open>Behaviour of \<open>assign\<close>\<close>

lemma slot_place_props:
  assumes "0 < n"
  shows "fst (slot_place f n a) < n"
    and "hget (assignments (snd (slot_place f n a))) g
           = (if g = f then Some (fst (slot_place f n a)) else hget (assignments a) g)"
    and "\<exists>s < n. slot_is_free a s \<Longrightarrow> slot_is_free a (fst (slot_place f n a))"
proof -
  show "fst (slot_place f n a) < n"
    using slot_id_in_range[OF assms]
    by (auto simp: slot_place_def Let_def find_Some_iff split: option.splits)
  show "hget (assignments (snd (slot_place f n a))) g
           = (if g = f then Some (fst (slot_place f n a)) else hget (assignments a) g)"
    by (simp add: slot_place_def Let_def)
  show "slot_is_free a (fst (slot_place f n a))" if "\<exists>s < n. slot_is_free a s"
    using that by (auto simp: slot_place_def Let_def find_Some_iff find_None_iff split: option.splits)
qed

text \<open>The home slot is taken whenever it is free, else the lowest free one.\<close>

lemma slot_place_home:
  "slot_is_free a (slot_id_for_flow f n) \<Longrightarrow> fst (slot_place f n a) = slot_id_for_flow f n"
  by (simp add: slot_place_def Let_def)

lemma slot_place_lowest:
  assumes "\<not> slot_is_free a (slot_id_for_flow f n)" and "s < n" and "slot_is_free a s"
  shows "fst (slot_place f n a) \<le> s"
proof -
  obtain t where t: "List.find (slot_is_free a) [0..<n] = Some t"
    using assms(2,3) by (cases "List.find (slot_is_free a) [0..<n]") (auto simp: find_None_iff)
  then obtain i where i: "i < n" "t = i" "\<forall>j < i. \<not> slot_is_free a j"
    by (auto simp: find_Some_iff)
  with assms(3) have "t \<le> s" by (meson not_le)
  then show ?thesis using assms(1) t by (simp add: slot_place_def Let_def)
qed

lemma slot_assign_cases:
  obtains (keep) s where "hget (assignments a) f = Some s" "s < n" "slot_assign f n a = (s, a)"
  | (place) "\<not> (\<exists>s < n. hget (assignments a) f = Some s)" "slot_assign f n a = slot_place f n (slot_release f a)"
  by (cases "hget (assignments a) f") (auto simp: slot_assign_def slot_release_def split: if_splits)

lemma slot_release_get:
  "hget (assignments (slot_release f a)) g = (if g = f then None else hget (assignments a) g)"
  by (auto simp: slot_release_def split: option.splits)

lemma slot_assign_result:
  assumes "0 < n"
  shows "fst (slot_assign f n a) < n"
    and "hget (assignments (snd (slot_assign f n a))) g
           = (if g = f then Some (fst (slot_assign f n a)) else hget (assignments a) g)"
  using slot_place_props(1,2)[OF assms, of f "slot_release f a"]
  by (cases rule: slot_assign_cases[of a f n]; auto simp: slot_release_get)+

text \<open>
  An assignment is in range, recorded and sticky: with at least one slot,
  \<open>assign\<close> returns an index below the slot count, a second call returns the same index
  and changes nothing, and no other flow's assignment is touched.
\<close>

theorem slot_assign_stable:
  assumes "0 < n"
  shows "fst (slot_assign f n a) < n
    \<and> slot_assign f n (snd (slot_assign f n a)) = slot_assign f n a
    \<and> (\<forall>g. g \<noteq> f \<longrightarrow> hget (assignments (snd (slot_assign f n a))) g = hget (assignments a) g)"
proof -
  note r = slot_assign_result[OF assms, of f a]
  have "slot_assign f n (snd (slot_assign f n a)) = (fst (slot_assign f n a), snd (slot_assign f n a))"
    using r(1) r(2)[of f] by (subst slot_assign_def) simp
  then show ?thesis using r by simp
qed

theorem slot_assign_stable_witness:
  "(0::nat) < 4 \<and> fst (slot_assign ''a'' 4 slots_new) < 4"
  using slot_assign_stable[of 4 "''a''" slots_new] by simp

text \<open>Some other flow holds the slot.\<close>

definition held_by_other :: "slot_alloc \<Rightarrow> flow_id \<Rightarrow> nat \<Rightarrow> bool" where
  "held_by_other a f s \<longleftrightarrow> (\<exists>g. g \<noteq> f \<and> hget (assignments a) g = Some s)"

lemma released_free:
  assumes "slots_inv a"
  shows "slot_is_free (slot_release f a) s \<longleftrightarrow> \<not> held_by_other a f s"
proof -
  have inv: "slots_inv (slot_release f a)" using assms by (rule slot_release_inv)
  then have wf: "hwf (assignments (slot_release f a))" by (simp add: slots_inv_def)
  show ?thesis using slot_is_free_iff[OF inv, of s] holders_pos_iff[OF wf, of s]
    by (auto simp: held_by_other_def slot_release_get split: if_splits)
qed

lemma slot_place_fallback:
  assumes "\<not> slot_is_free a (slot_id_for_flow f n)" and "fst (slot_place f n a) = s"
  shows "if \<exists>t < n. slot_is_free a t then s < n \<and> slot_is_free a s \<and> (\<forall>t < s. \<not> slot_is_free a t)
         else s = slot_id_for_flow f n"
  using assms by (cases "List.find (slot_is_free a) [0..<n]")
    (auto simp: slot_place_def Let_def find_None_iff find_Some_iff)

text \<open>
  C30. Which slot a flow gets: the one it holds, if that is below the slot count; otherwise its hash home
  if no other flow holds it; otherwise the lowest slot that no other flow holds; and
  its hash home, shared, only if every slot is held by another flow.  The assignment is recorded and no other
  flow's assignment changes.
\<close>

theorem slot_assign_exclusive:
  assumes "slots_inv a" and "0 < n"
  shows "(let s = fst (slot_assign f n a); home = slot_id_for_flow f n; old = hget (assignments a) f in
      if (\<exists>t < n. old = Some t) then old = Some s
      else if \<not> held_by_other a f home then s = home
      else if (\<exists>t < n. \<not> held_by_other a f t) then s < n \<and> \<not> held_by_other a f s \<and> (\<forall>t < s. held_by_other a f t)
      else s = home)
    \<and> hget (assignments (snd (slot_assign f n a))) g =
        (if g = f then Some (fst (slot_assign f n a)) else hget (assignments a) g)"
proof (rule conjI)
  show "hget (assignments (snd (slot_assign f n a))) g =
        (if g = f then Some (fst (slot_assign f n a)) else hget (assignments a) g)"
    by (rule slot_assign_result(2)[OF assms(2)])
  show "let s = fst (slot_assign f n a); home = slot_id_for_flow f n; old = hget (assignments a) f in
      if (\<exists>t < n. old = Some t) then old = Some s
      else if \<not> held_by_other a f home then s = home
      else if (\<exists>t < n. \<not> held_by_other a f t) then s < n \<and> \<not> held_by_other a f s \<and> (\<forall>t < s. held_by_other a f t)
      else s = home"
  proof (cases rule: slot_assign_cases[of a f n])
    case (keep s)
    then show ?thesis by simp
  next
    case place
    note free = released_free[OF assms(1), of f]
    define s where "s = fst (slot_place f n (slot_release f a))"
    show ?thesis
    proof (cases "held_by_other a f (slot_id_for_flow f n)")
      case True
      then have taken: "\<not> \<not> held_by_other a f (slot_id_for_flow f n)" by blast
      show ?thesis unfolding place(2) s_def[symmetric] Let_def if_not_P[OF place(1)] if_not_P[OF taken]
        by (rule slot_place_fallback[of "slot_release f a" f n, unfolded free not_not, OF True s_def[symmetric]])
    next
      case False
      from slot_place_home[of "slot_release f a" f n, unfolded free] False
      show ?thesis unfolding place(2) Let_def if_not_P[OF place(1)] by simp
    qed
  qed
qed

text \<open>The second of two flows gets the other of two slots.\<close>

theorem slot_assign_exclusive_witness:
  "fst (slot_assign ''b'' 2 (snd (slot_assign ''a'' 2 slots_new))) \<noteq> fst (slot_assign ''a'' 2 slots_new)"
proof -
  let ?s = "fst (slot_assign ''a'' 2 slots_new)" and ?a = "snd (slot_assign ''a'' 2 slots_new)"
  have g: "hget (assignments ?a) h = (if h = ''a'' then Some ?s else None)" for h
    using slot_assign_result(2)[of 2 "''a''" slots_new h] by (simp add: slots_new_def)
  have held: "held_by_other ?a ''b'' t \<longleftrightarrow> t = ?s" for t by (auto simp: held_by_other_def g)
  have "\<exists>t < 2. t \<noteq> ?s" by (rule exI[of _ "if ?s = 0 then 1 else 0"]) simp
  then show ?thesis
    using slot_assign_exclusive[OF slot_assign_inv[OF slots_inv_new, of "''a''" 2], of 2 "''b''" "''b''"]
    by (auto simp: Let_def held g split: if_splits)
qed

end
