(* ===== verification/Registry.thy ===== *)
theory Registry
  imports Slots
begin

text \<open>
  The flow registry (\<open>FlowRegistry\<close>, src/flow/mod.rs).  The registry owns the flow
  records; code that holds an \<open>Arc<Flow>\<close> reads and updates the same record, which
  \<open>reg_update\<close> models.  Lemmas: lookup laws, exact effect of the reaper on flows and
  slots, the queue snapshot against a list specification, and the override rules.
\<close>

record registry =
  rg_flows :: "(flow_id, flow) hmap"
  rg_default_weight :: f64
  rg_default_priority :: nat
  rg_slots :: slot_alloc

definition registry_new :: "f64 \<Rightarrow> nat \<Rightarrow> registry" where
  "registry_new w p = \<lparr> rg_flows = [], rg_default_weight = w, rg_default_priority = p,
     rg_slots = slots_new \<rparr>"

text \<open>\<open>get_or_create\<close> refreshes \<open>last_seen\<close> on every access.\<close>

definition get_or_create :: "nat \<Rightarrow> flow_id \<Rightarrow> registry \<Rightarrow> flow \<times> registry" where
  "get_or_create now i r =
     (let f = (case hget (rg_flows r) i of Some f \<Rightarrow> f
               | None \<Rightarrow> flow_new i (rg_default_weight r) (rg_default_priority r) now);
          f' = f\<lparr>fl_last_seen := now\<rparr>
      in (f', r\<lparr>rg_flows := hput i f' (rg_flows r)\<rparr>))"

definition reg_update :: "flow_id \<Rightarrow> (flow \<Rightarrow> flow) \<Rightarrow> registry \<Rightarrow> registry" where
  "reg_update i g r = (case hget (rg_flows r) i of None \<Rightarrow> r
     | Some f \<Rightarrow> r\<lparr>rg_flows := hput i (g f) (rg_flows r)\<rparr>)"

definition assign_slot :: "flow_id \<Rightarrow> nat \<Rightarrow> registry \<Rightarrow> nat \<times> registry" where
  "assign_slot i n r = (let (s, a) = slot_assign i n (rg_slots r) in (s, r\<lparr>rg_slots := a\<rparr>))"

record flow_registration =
  frg_id :: flow_id
  frg_weight :: f64
  frg_priority :: nat

text \<open>
  \<open>register\<close> looks the flow up and updates it under the lock of its entry; if it was missing, a second access
  inserts a new record, over whatever has been stored there in between.
\<close>

definition register_found :: "nat \<Rightarrow> flow_registration \<Rightarrow> registry \<Rightarrow> registry option" where
  "register_found now reg r = (case hget (rg_flows r) (frg_id reg) of
       Some f \<Rightarrow> Some (r\<lparr>rg_flows := hput (frg_id reg) (f\<lparr>fl_weight := frg_weight reg, fl_priority := frg_priority reg,
                    fl_priority_source := 2, fl_last_seen := now\<rparr>) (rg_flows r)\<rparr>)
     | None \<Rightarrow> None)"

definition register_insert :: "nat \<Rightarrow> flow_registration \<Rightarrow> registry \<Rightarrow> registry" where
  "register_insert now reg r = r\<lparr>rg_flows := hput (frg_id reg) \<lparr> fl_id = frg_id reg, fl_weight = frg_weight reg,
     fl_priority = frg_priority reg, fl_depth = 0, fl_credit = 0, fl_enqueued_at = None, fl_active = 0,
     fl_priority_source = 2, fl_last_seen = now \<rparr> (rg_flows r)\<rparr>"

definition register_flow :: "nat \<Rightarrow> flow_registration \<Rightarrow> registry \<Rightarrow> bool \<times> registry" where
  "register_flow now reg r = (case register_found now reg r of
       Some r1 \<Rightarrow> (False, r1)
     | None \<Rightarrow> (True, register_insert now reg r))"

lemma register_flow_eq:
  "register_flow now reg r = (let i = frg_id reg in
     case hget (rg_flows r) i of
       Some f \<Rightarrow> (False, r\<lparr>rg_flows := hput i (f\<lparr>fl_weight := frg_weight reg,
                    fl_priority := frg_priority reg, fl_priority_source := 2,
                    fl_last_seen := now\<rparr>) (rg_flows r)\<rparr>)
     | None \<Rightarrow> (True, r\<lparr>rg_flows := hput i \<lparr> fl_id = i, fl_weight = frg_weight reg,
                    fl_priority = frg_priority reg, fl_depth = 0, fl_credit = 0,
                    fl_enqueued_at = None, fl_active = 0, fl_priority_source = 2,
                    fl_last_seen = now \<rparr> (rg_flows r)\<rparr>))"
  by (simp add: register_flow_def register_found_def register_insert_def Let_def split: option.split)

definition reapable :: "nat \<Rightarrow> flow \<Rightarrow> bool" where
  "reapable cutoff f \<longleftrightarrow> fl_depth f = 0 \<and> fl_active f = 0 \<and> fl_last_seen f < cutoff"

fun reap_all :: "flow_id list \<Rightarrow> registry \<Rightarrow> registry" where
  "reap_all [] r = r"
| "reap_all (i # is) r =
     reap_all is (r\<lparr>rg_flows := hdel i (rg_flows r), rg_slots := slot_release i (rg_slots r)\<rparr>)"

text \<open>
  \<open>reap_idle\<close> first collects the idle flows and then removes what it has collected, without
  looking at it again; the lock of the map is held for single accesses only.
\<close>

definition reap_candidates :: "nat \<Rightarrow> nat \<Rightarrow> registry \<Rightarrow> flow_id list" where
  "reap_candidates now ttl_secs r = map fst (filter (\<lambda>(i, f). reapable (now - ttl_secs) f) (rg_flows r))"

definition reap_remove :: "flow_id list \<Rightarrow> registry \<Rightarrow> nat \<times> registry" where
  "reap_remove to_remove r =
     (let r1 = reap_all to_remove r
      in (length to_remove, r1\<lparr>rg_slots := snd (slot_sweep_missing (\<lambda>i. hget (rg_flows r1) i \<noteq> None) (rg_slots r1))\<rparr>))"

definition reap_idle :: "nat \<Rightarrow> nat \<Rightarrow> registry \<Rightarrow> nat \<times> registry" where
  "reap_idle now ttl_secs r = reap_remove (reap_candidates now ttl_secs r) r"

definition sum_depths :: "registry \<Rightarrow> u32" where
  "sum_depths r = sum_list (map (\<lambda>(i, f). fl_depth f) (rg_flows r))"

record queue_snapshot =
  qs_active :: nat
  qs_waiting :: nat
  qs_flows :: "(string \<times> nat) list"

fun snapshot_flows :: "registry \<Rightarrow> flow_id list \<Rightarrow> flow_id list \<Rightarrow> nat \<Rightarrow> (string \<times> nat) list" where
  "snapshot_flows r [] seen pos = []"
| "snapshot_flows r (i # is) seen pos =
     (if i \<in> set seen then snapshot_flows r is seen pos
      else case hget (rg_flows r) i of
        Some f \<Rightarrow> if 0 < fl_depth f
                  then (i, pos) # snapshot_flows r is (i # seen) (pos + 1)
                  else snapshot_flows r is seen pos
      | None \<Rightarrow> snapshot_flows r is seen pos)"

definition reg_queue_snapshot :: "nat \<Rightarrow> nat \<Rightarrow> flow_id list \<Rightarrow> registry \<Rightarrow> queue_snapshot" where
  "reg_queue_snapshot active waiting order r =
     \<lparr> qs_active = active, qs_waiting = waiting, qs_flows = snapshot_flows r order [] 1 \<rparr>"

definition apply_priority_override ::
  "nat \<Rightarrow> flow_id \<Rightarrow> priority_class option \<Rightarrow> bool \<Rightarrow> priorities \<Rightarrow> registry \<Rightarrow> registry" where
  "apply_priority_override now i cls unset classes r =
     (let r1 = snd (get_or_create now i r) in
      if unset then reg_update i (\<lambda>f. f\<lparr>fl_priority_source := 0, fl_priority := pr_agent classes\<rparr>) r1
      else case cls of
        Some c \<Rightarrow> reg_update i (\<lambda>f. f\<lparr>fl_priority := class_value classes c, fl_priority_source := 1\<rparr>) r1
      | None \<Rightarrow> r1)"

section \<open>Lookup laws\<close>

definition reg_lookup :: "registry \<Rightarrow> flow_id \<Rightarrow> flow option" where
  "reg_lookup r i = hget (rg_flows r) i"

text \<open>The flow a caller sees: the stored one, or the default record.\<close>

definition reg_flow :: "nat \<Rightarrow> registry \<Rightarrow> flow_id \<Rightarrow> flow" where
  "reg_flow now r i = (case reg_lookup r i of Some f \<Rightarrow> f
     | None \<Rightarrow> flow_new i (rg_default_weight r) (rg_default_priority r) now)"

lemma reg_lookup_update [simp, reg_simps]:
  "reg_lookup (reg_update i g r) j = (if j = i then map_option g (reg_lookup r i) else reg_lookup r j)"
  by (auto simp: reg_lookup_def reg_update_def split: option.splits)

lemma get_or_create_fst: "fst (get_or_create now i r) = (reg_flow now r i)\<lparr>fl_last_seen := now\<rparr>"
  by (simp add: get_or_create_def reg_flow_def reg_lookup_def Let_def)

lemma reg_lookup_get_or_create [simp, reg_simps]:
  "reg_lookup (snd (get_or_create now i r)) j =
     (if j = i then Some ((reg_flow now r i)\<lparr>fl_last_seen := now\<rparr>) else reg_lookup r j)"
  by (auto simp: get_or_create_def reg_flow_def reg_lookup_def Let_def)

lemma reg_slots_frame [simp, reg_simps]:
  "rg_slots (snd (get_or_create now i r)) = rg_slots r"
  "rg_slots (reg_update i g r) = rg_slots r"
  by (simp_all add: get_or_create_def reg_update_def Let_def split: option.splits)

lemma reg_defaults_frame [simp, reg_simps]:
  "rg_default_weight (snd (get_or_create now i r)) = rg_default_weight r"
  "rg_default_priority (snd (get_or_create now i r)) = rg_default_priority r"
  "rg_default_weight (reg_update i g r) = rg_default_weight r"
  "rg_default_priority (reg_update i g r) = rg_default_priority r"
  by (simp_all add: get_or_create_def reg_update_def Let_def split: option.splits)

lemma reg_new_simps [simp, reg_simps]:
  "reg_lookup (registry_new w p) i = None" "rg_default_weight (registry_new w p) = w"
  "rg_default_priority (registry_new w p) = p" "rg_slots (registry_new w p) = slots_new"
  by (simp_all add: reg_lookup_def registry_new_def)

definition reg_inv :: "registry \<Rightarrow> bool" where
  "reg_inv r \<longleftrightarrow> hwf (rg_flows r) \<and> slots_inv (rg_slots r)"

lemma reg_inv_new: "reg_inv (registry_new w p)"
  by (simp add: reg_inv_def registry_new_def slots_inv_new)

lemma reg_inv_ops:
  "reg_inv r \<Longrightarrow> reg_inv (snd (get_or_create now i r))"
  "reg_inv r \<Longrightarrow> reg_inv (reg_update i g r)"
  "reg_inv r \<Longrightarrow> reg_inv (snd (assign_slot i n r))"
  "reg_inv r \<Longrightarrow> reg_inv (snd (register_flow now reg r))"
  using slot_assign_inv[of "rg_slots r" i n]
  by (auto simp: reg_inv_def get_or_create_def reg_update_def assign_slot_def register_flow_eq
      Let_def split: option.splits prod.splits)

section \<open>The reaper\<close>

lemma reap_all_effect:
  "reg_inv r \<Longrightarrow> reg_inv (reap_all is r)
     \<and> reg_lookup (reap_all is r) i = (if i \<in> set is then None else reg_lookup r i)
     \<and> hget (assignments (rg_slots (reap_all is r))) i
         = (if i \<in> set is then None else hget (assignments (rg_slots r)) i)"
proof (induction "is" r rule: reap_all.induct)
  case (2 j "is" r)
  let ?r = "r\<lparr>rg_flows := hdel j (rg_flows r), rg_slots := slot_release j (rg_slots r)\<rparr>"
  have "reg_inv ?r" using "2.prems" by (simp add: reg_inv_def slot_release_inv)
  from 2(1)[OF this] show ?case by (auto simp: reg_lookup_def slot_release_get)
qed simp

lemma in_candidates:
  assumes "reg_inv r"
  shows "i \<in> set (reap_candidates now ttl r) \<longleftrightarrow> (\<exists>f. reg_lookup r i = Some f \<and> reapable (now - ttl) f)"
  using assms by (force simp: reap_candidates_def reg_inv_def reg_lookup_def hwf_in_set)

lemma reap_remove_effect:
  assumes "reg_inv r"
  shows "reg_inv (snd (reap_remove is r))"
    and "reg_lookup (snd (reap_remove is r)) i = (if i \<in> set is then None else reg_lookup r i)"
    and "hget (assignments (rg_slots (snd (reap_remove is r)))) i =
      (if i \<in> set is \<or> reg_lookup r i = None then None else hget (assignments (rg_slots r)) i)"
proof -
  let ?r1 = "reap_all is r"
  have r1: "reg_inv ?r1" "\<And>i. reg_lookup ?r1 i = (if i \<in> set is then None else reg_lookup r i)"
    "\<And>i. hget (assignments (rg_slots ?r1)) i = (if i \<in> set is then None else hget (assignments (rg_slots r)) i)"
    using reap_all_effect[OF assms] by blast+
  have eq: "snd (reap_remove is r)
      = ?r1\<lparr>rg_slots := snd (slot_sweep_missing (\<lambda>i. hget (rg_flows ?r1) i \<noteq> None) (rg_slots ?r1))\<rparr>"
    by (simp add: reap_remove_def Let_def)
  have sl: "slots_inv (rg_slots ?r1)" using r1(1) by (simp add: reg_inv_def)
  note sw = sweep_missing_inv[OF sl, of "\<lambda>i. hget (rg_flows ?r1) i \<noteq> None"]
  show "reg_inv (snd (reap_remove is r))" using r1(1) sw(1) by (simp add: eq reg_inv_def)
  show look: "reg_lookup (snd (reap_remove is r)) i = (if i \<in> set is then None else reg_lookup r i)"
    using r1(2)[of i] by (simp add: eq reg_lookup_def)
  have "hget (assignments (rg_slots (snd (reap_remove is r)))) i
      = (if reg_lookup ?r1 i \<noteq> None then hget (assignments (rg_slots ?r1)) i else None)"
    using sw(2)[of i] by (simp add: eq reg_lookup_def)
  then show "hget (assignments (rg_slots (snd (reap_remove is r)))) i =
      (if i \<in> set is \<or> reg_lookup r i = None then None else hget (assignments (rg_slots r)) i)"
    unfolding r1(2,3) by auto
qed

lemma reap_idle_effect:
  assumes "reg_inv r"
  shows "reg_inv (snd (reap_idle now ttl r))
    \<and> reg_lookup (snd (reap_idle now ttl r)) i =
        (case reg_lookup r i of Some f \<Rightarrow> if reapable (now - ttl) f then None else Some f | None \<Rightarrow> None)
    \<and> hget (assignments (rg_slots (snd (reap_idle now ttl r)))) i =
        (case reg_lookup r i of
           Some f \<Rightarrow> if reapable (now - ttl) f then None else hget (assignments (rg_slots r)) i
         | None \<Rightarrow> None)"
  unfolding reap_idle_def using reap_remove_effect[OF assms, of "reap_candidates now ttl r"] in_candidates[OF assms, of i now ttl]
  by (auto split: option.split)

text \<open>
  C32. The two phases of the reaper, with any changes of the registry between them: the flows collected are
  exactly the registered ones that at that moment have no queued and no active request and were last seen before
  the cutoff; and exactly those disappear, with their slots, as do the slots of flows that are not
  registered, while every other flow and its slot stay as they are by then.  So undisturbed the reaper removes exactly the
  idle flows; a flow that came back in between is removed all the same.  The registry
  invariant (with the slot occupancy counts) is kept.
\<close>

theorem reap_idle_exact:
  fixes r :: registry and now ttl :: nat
  defines "idle \<equiv> reap_candidates now ttl r"
  assumes "reg_inv r" and "reg_inv r'"
  shows "(i \<in> set idle \<longleftrightarrow> (\<exists>f. reg_lookup r i = Some f \<and> fl_depth f = 0 \<and> fl_active f = 0 \<and> fl_last_seen f < now - ttl))
    \<and> reg_inv (snd (reap_remove idle r'))
    \<and> fst (reap_remove idle r') = length idle
    \<and> reg_lookup (snd (reap_remove idle r')) i = (if i \<in> set idle then None else reg_lookup r' i)
    \<and> hget (assignments (rg_slots (snd (reap_remove idle r')))) i =
        (if i \<in> set idle \<or> reg_lookup r' i = None then None else hget (assignments (rg_slots r')) i)
    \<and> reap_idle now ttl r = reap_remove idle r"
  unfolding idle_def using reap_remove_effect(1)[OF assms(3)] reap_remove_effect(2,3)[OF assms(3), where i = i] in_candidates[OF assms(2), of i now ttl]
  by (auto simp: reapable_def reap_remove_def reap_idle_def Let_def)

theorem reap_idle_exact_witness:
  "let r = snd (get_or_create 1 ''a'' (registry_new (Fin 1) 50)); r' = snd (get_or_create 999 ''b'' r)
   in reg_lookup (snd (reap_remove (reap_candidates 1000 600 r) r')) ''a'' = None
    \<and> reg_lookup (snd (reap_remove (reap_candidates 1000 600 r) r')) ''b'' \<noteq> None"
proof -
  let ?r = "snd (get_or_create 1 ''a'' (registry_new (Fin 1) 50))"
  have inv: "reg_inv ?r" "reg_inv (snd (get_or_create 999 ''b'' ?r))" by (intro reg_inv_ops reg_inv_new)+
  note th = reap_idle_exact[OF inv, where now = 1000 and ttl = 600]
  show ?thesis using th[of "''a''"] th[of "''b''"] by (simp add: Let_def reg_flow_def)
qed

section \<open>The queue snapshot\<close>

text \<open>The specification: the waiting flows in order of their first occurrence, numbered from 1.\<close>

definition is_waiting :: "registry \<Rightarrow> flow_id \<Rightarrow> bool" where
  "is_waiting r i \<longleftrightarrow> (case reg_lookup r i of Some f \<Rightarrow> 0 < fl_depth f | None \<Rightarrow> False)"

definition waiting_in_order :: "registry \<Rightarrow> flow_id list \<Rightarrow> flow_id list" where
  "waiting_in_order r order = rev (remdups (rev (filter (is_waiting r) order)))"

fun first_occ :: "'a list \<Rightarrow> 'a list \<Rightarrow> 'a list" where
  "first_occ seen [] = []"
| "first_occ seen (x # xs) = (if x \<in> set seen then first_occ seen xs else x # first_occ (x # seen) xs)"

lemma first_occ_snoc:
  "first_occ seen (xs @ [x]) = first_occ seen xs @ (if x \<in> set seen \<union> set xs then [] else [x])"
  by (induction xs arbitrary: seen) auto

lemma first_occ_remdups: "first_occ [] xs = rev (remdups (rev xs))"
  by (induction xs rule: rev_induct) (auto simp: first_occ_snoc)

lemma snapshot_flows_Cons:
  "snapshot_flows r (i # is) seen pos =
     (if i \<notin> set seen \<and> is_waiting r i then (i, pos) # snapshot_flows r is (i # seen) (Suc pos)
      else snapshot_flows r is seen pos)"
  by (auto simp: is_waiting_def reg_lookup_def split: option.splits)

lemma zip_upt_Cons:
  "zip (x # xs) [p..<p + length (x # xs)] = (x, p) # zip xs [Suc p..<Suc p + length xs]"
  by (subst upt_conv_Cons) (simp_all del: upt_Suc)

lemma snapshot_flows_spec:
  "snapshot_flows r order seen pos =
     (let ids = first_occ seen (filter (is_waiting r) order) in zip ids [pos..<pos + length ids])"
proof (induction order arbitrary: seen pos)
  case (Cons i "is")
  show ?case
  proof (cases "i \<notin> set seen \<and> is_waiting r i")
    case True
    then have "first_occ seen (filter (is_waiting r) (i # is))
        = i # first_occ (i # seen) (filter (is_waiting r) is)" by simp
    with True show ?thesis
      unfolding snapshot_flows_Cons Cons.IH Let_def by (simp only: zip_upt_Cons) simp
  next
    case False
    then show ?thesis unfolding snapshot_flows_Cons Cons.IH Let_def by auto
  qed
qed simp

text \<open>
  \<open>GET /queue\<close> lists each waiting flow exactly once, in the order in which its
  first request was queued, with consecutive positions starting at 1; flows without a
  waiting request (depth 0 or unknown) are not listed.
\<close>

theorem queue_snapshot_spec:
  "qs_flows (reg_queue_snapshot a w order r)
     = zip (waiting_in_order r order) [1..<1 + length (waiting_in_order r order)]"
  by (simp add: reg_queue_snapshot_def snapshot_flows_spec first_occ_remdups waiting_in_order_def Let_def)

section \<open>Overrides and registration\<close>

text \<open>
  Explicit priorities: after \<open>apply_priority_override\<close> a header class pins the
  class's number with source 1, \<open>auto\<close> clears the pin and resets to the agent
  priority, and no header leaves priority and source of the flow as they were; other
  flows are not touched.
\<close>

theorem apply_priority_override_spec:
  "map_option (\<lambda>f. (fl_priority f, fl_priority_source f))
      (reg_lookup (apply_priority_override now i cls unset classes r) i)
     = Some (if unset then (pr_agent classes, 0)
             else case cls of Some c \<Rightarrow> (class_value classes c, 1)
               | None \<Rightarrow> (fl_priority (reg_flow now r i), fl_priority_source (reg_flow now r i)))
   \<and> (\<forall>j. j \<noteq> i \<longrightarrow> reg_lookup (apply_priority_override now i cls unset classes r) j = reg_lookup r j)"
  by (auto simp: apply_priority_override_def Let_def split: option.splits)

theorem apply_priority_override_spec_witness:
  "map_option fl_priority (reg_lookup (apply_priority_override 0 ''a'' (Some Interactive) False
      priorities_default (registry_new (Fin 1) 50)) ''a'') = Some 100"
  using apply_priority_override_spec[of 0 "''a''" "Some Interactive" False priorities_default
      "registry_new (Fin 1) 50"]
  by (auto simp: class_value_def priorities_default_def)

lemma register_flow_lookup:
  "reg_lookup (snd (register_flow now reg r)) j =
     (if j = frg_id reg then Some ((reg_flow now r j)\<lparr>fl_weight := frg_weight reg,
        fl_priority := frg_priority reg, fl_priority_source := 2, fl_last_seen := now\<rparr>)
      else reg_lookup r j)"
  by (auto simp: register_flow_eq reg_lookup_def reg_flow_def flow_new_def Let_def split: option.splits)

text \<open>
  The slot sweep is not only defensive: \<open>assign_slot\<close> records a slot before the
  flow is registered, so a reaper run between the two steps drops the assignment of a
  live flow, and another flow can then be given the same slot although others are free.
\<close>

theorem sweep_drops_unregistered_assignment:
  assumes "reg_inv r" and "reg_lookup r i = None" and "0 < n"
    and "(s, r1) = assign_slot i n r" and "r2 = snd (reap_idle now ttl r1)"
    and "r3 = snd (get_or_create now i r2)"
  shows "reg_lookup r3 i \<noteq> None \<and> hget (assignments (rg_slots r3)) i = None
    \<and> hget (assignments (rg_slots r1)) i = Some s"
proof -
  have r1: "r1 = snd (assign_slot i n r)" "s = fst (assign_slot i n r)"
    using assms(4) by (metis fst_conv snd_conv)+
  have look: "reg_lookup r1 i = None"
    using assms(2) by (simp add: r1 assign_slot_def reg_lookup_def split: prod.splits)
  have "reg_inv r1" unfolding r1(1) using assms(1) by (rule reg_inv_ops)
  from reap_idle_effect[OF this, of now ttl i] look have "hget (assignments (rg_slots r2)) i = None"
    by (simp add: assms(5))
  moreover have "hget (assignments (rg_slots r1)) i = Some s"
    using slot_assign_result(2)[OF assms(3), of i "rg_slots r" i]
    by (simp add: r1 assign_slot_def split_beta)
  ultimately show ?thesis by (simp add: assms(6))
qed

theorem sweep_drops_unregistered_assignment_witness:
  "let r1 = snd (assign_slot ''a'' 2 (registry_new (Fin 1) 50));
       r3 = snd (get_or_create 1 ''a'' (snd (reap_idle 1 600 r1)))
   in reg_lookup r3 ''a'' \<noteq> None \<and> hget (assignments (rg_slots r3)) ''a'' = None"
  using sweep_drops_unregistered_assignment[OF reg_inv_new, of "Fin 1" 50 "''a''" 2
      "fst (assign_slot ''a'' 2 (registry_new (Fin 1) 50))"
      "snd (assign_slot ''a'' 2 (registry_new (Fin 1) 50))", OF _ _ _ refl refl]
  by (simp add: Let_def)

end
