(* ===== verification/Cadence.thy ===== *)
theory Cadence
  imports Registry
begin

text \<open>
  The turn-boundary cadence state machine (src/flow/cadence.rs): per-flow state, the
  arrival step, classification and the reaper.  Lemmas: the exact transition function,
  the demotion ladder over a run of tool calls, promotion by an idle turn boundary, and
  when a priority is (not) written.
\<close>

datatype cadence_state = Cold | CInteractive | AgenticSuspected | AgenticConfirmed

text \<open>\<open>#[repr(u32)]\<close>: the discriminant orders the states by demotion.\<close>

fun state_num :: "cadence_state \<Rightarrow> nat" where
  "state_num Cold = 0"
| "state_num CInteractive = 1"
| "state_num AgenticSuspected = 2"
| "state_num AgenticConfirmed = 3"

instantiation cadence_state :: linorder
begin

definition less_eq_cadence_state :: "cadence_state \<Rightarrow> cadence_state \<Rightarrow> bool" where
  "less_eq_cadence_state a b \<longleftrightarrow> state_num a \<le> state_num b"

definition less_cadence_state :: "cadence_state \<Rightarrow> cadence_state \<Rightarrow> bool" where
  "less_cadence_state a b \<longleftrightarrow> state_num a < state_num b"

instance
proof
  fix a b :: cadence_state
  show "a \<le> b \<Longrightarrow> b \<le> a \<Longrightarrow> a = b"
    by (cases a; cases b) (simp_all add: less_eq_cadence_state_def)
qed (auto simp: less_eq_cadence_state_def less_cadence_state_def)

end

lemmas cadence_order = less_eq_cadence_state_def less_cadence_state_def

definition state_priority :: "priorities \<Rightarrow> cadence_state \<Rightarrow> nat" where
  "state_priority classes s = (case s of
       Cold \<Rightarrow> pr_interactive classes
     | CInteractive \<Rightarrow> pr_interactive classes
     | AgenticSuspected \<Rightarrow> pr_agent classes
     | AgenticConfirmed \<Rightarrow> pr_background classes)"

record cadence =
  ca_last_arrival :: "instant option"
  ca_count :: u32
  ca_state :: cadence_state
  ca_last_seen :: nat

definition cadence_new :: "nat \<Rightarrow> cadence" where
  "cadence_new now_unix = \<lparr> ca_last_arrival = None, ca_count = 0, ca_state = Cold,
     ca_last_seen = now_unix \<rparr>"

record cadence_registry =
  cr_inner :: "(flow_id, cadence) hmap"
  cr_policy :: priority_policy
  cr_classes :: priorities

text \<open>\<open>entry().or_default()\<close>.\<close>

definition cadence_entry :: "nat \<Rightarrow> cadence_registry \<Rightarrow> flow_id \<Rightarrow> cadence" where
  "cadence_entry now_unix c i = (case hget (cr_inner c) i of Some e \<Rightarrow> e | None \<Rightarrow> cadence_new now_unix)"

definition arrival_gap :: "instant \<Rightarrow> cadence \<Rightarrow> duration option" where
  "arrival_gap now e = map_option (\<lambda>last. duration_since now last) (ca_last_arrival e)"

definition is_idle_chunk :: "priority_policy \<Rightarrow> instant \<Rightarrow> bool \<Rightarrow> cadence \<Rightarrow> bool" where
  "is_idle_chunk pol now tb e \<longleftrightarrow> tb \<and>
     (case arrival_gap now e of Some g \<Rightarrow> pp_idle_gap_threshold pol \<le> g | None \<Rightarrow> False)"

definition demote :: "priority_policy \<Rightarrow> u32 \<Rightarrow> cadence_state \<Rightarrow> cadence_state" where
  "demote pol count s = (case s of
       Cold \<Rightarrow> if pp_agentic_suspected_threshold pol \<le> unat count then AgenticSuspected else s
     | CInteractive \<Rightarrow> if pp_agentic_suspected_threshold pol \<le> unat count then AgenticSuspected else s
     | AgenticSuspected \<Rightarrow> if pp_agentic_confirmed_threshold pol \<le> unat count then AgenticConfirmed else s
     | AgenticConfirmed \<Rightarrow> s)"

definition arrival_step :: "priority_policy \<Rightarrow> instant \<Rightarrow> nat \<Rightarrow> bool \<Rightarrow> cadence \<Rightarrow> cadence" where
  "arrival_step pol now now_unix tb e =
     (let e1 = e\<lparr>ca_last_arrival := Some now, ca_last_seen := now_unix\<rparr> in
      if is_idle_chunk pol now tb e then e1\<lparr>ca_state := CInteractive, ca_count := 0\<rparr>
      else if tb then e1\<lparr>ca_count := 0\<rparr>
      else e1\<lparr>ca_count := ca_count e + 1, ca_state := demote pol (ca_count e + 1) (ca_state e)\<rparr>)"

definition record_arrival ::
  "flow_id \<Rightarrow> instant \<Rightarrow> nat \<Rightarrow> bool \<Rightarrow> cadence_registry \<Rightarrow> duration option \<times> cadence_registry" where
  "record_arrival i now now_unix tb c =
     (let e = cadence_entry now_unix c i in
      (arrival_gap now e,
       c\<lparr>cr_inner := hput i (arrival_step (cr_policy c) now now_unix tb e) (cr_inner c)\<rparr>))"

definition classify_and_apply ::
  "nat \<Rightarrow> flow_id \<Rightarrow> flow \<Rightarrow> cadence_registry \<Rightarrow> flow \<times> cadence_registry" where
  "classify_and_apply now_unix i f c =
     (if fl_priority_source f \<noteq> 0 then (f, c)
      else if \<not> pp_enabled (cr_policy c) then (f, c)
      else let e = cadence_entry now_unix c i in
        (f\<lparr>fl_priority := state_priority (cr_classes c) (ca_state e)\<rparr>,
         c\<lparr>cr_inner := hput i e (cr_inner c)\<rparr>))"

definition state_of :: "nat \<Rightarrow> flow_id \<Rightarrow> cadence_registry \<Rightarrow> cadence_state \<times> cadence_registry" where
  "state_of now_unix i c = (let e = cadence_entry now_unix c i in
     (ca_state e, c\<lparr>cr_inner := hput i e (cr_inner c)\<rparr>))"

definition cadence_reap_idle :: "nat \<Rightarrow> nat \<Rightarrow> cadence_registry \<Rightarrow> nat \<times> cadence_registry" where
  "cadence_reap_idle now ttl_secs c =
     (let cutoff = now - ttl_secs;
          to_remove = map fst (filter (\<lambda>(i, e). ca_last_seen e < cutoff) (cr_inner c))
      in (length to_remove, c\<lparr>cr_inner := foldr hdel to_remove (cr_inner c)\<rparr>))"

section \<open>Single arrivals\<close>

lemma cadence_entry_record [simp]:
  "cadence_entry u (snd (record_arrival i now u' tb c)) j =
     (if j = i then arrival_step (cr_policy c) now u' tb (cadence_entry u' c i) else cadence_entry u c j)"
  by (simp add: record_arrival_def cadence_entry_def Let_def)

lemma record_arrival_policy [simp]:
  "cr_policy (snd (record_arrival i now u tb c)) = cr_policy c"
  "cr_classes (snd (record_arrival i now u tb c)) = cr_classes c"
  by (simp_all add: record_arrival_def Let_def)

lemma arrival_step_idle:
  "is_idle_chunk pol now tb e \<Longrightarrow> ca_state (arrival_step pol now u tb e) = CInteractive
     \<and> ca_count (arrival_step pol now u tb e) = 0"
  by (simp add: arrival_step_def)

lemma arrival_step_fast:
  "\<not> is_idle_chunk pol now True e \<Longrightarrow> ca_state (arrival_step pol now u True e) = ca_state e
     \<and> ca_count (arrival_step pol now u True e) = 0"
  by (simp add: arrival_step_def)

lemma arrival_step_tool:
  "ca_state (arrival_step pol now u False e) = demote pol (ca_count e + 1) (ca_state e)
     \<and> ca_count (arrival_step pol now u False e) = ca_count e + 1"
  by (simp add: arrival_step_def is_idle_chunk_def)

section \<open>Runs of tool calls\<close>

text \<open>The specification: the class of a flow after \<open>k\<close> tool calls in a row.\<close>

definition ladder_class :: "priority_policy \<Rightarrow> nat \<Rightarrow> cadence_state \<Rightarrow> cadence_state" where
  "ladder_class pol k s = (if k < pp_agentic_suspected_threshold pol then s
     else if k < pp_agentic_confirmed_threshold pol then AgenticSuspected else AgenticConfirmed)"

fun tool_run :: "priority_policy \<Rightarrow> (instant \<times> nat) list \<Rightarrow> cadence \<Rightarrow> cadence" where
  "tool_run pol [] e = e"
| "tool_run pol ((t, u) # ts) e = tool_run pol ts (arrival_step pol t u False e)"

lemma tool_run_snoc:
  "tool_run pol (ts @ [(t, u)]) e = arrival_step pol t u False (tool_run pol ts e)"
  by (induction pol ts e rule: tool_run.induct) auto

lemma tool_run_state:
  assumes "pp_agentic_suspected_threshold pol < pp_agentic_confirmed_threshold pol"
    and "0 < pp_agentic_suspected_threshold pol"
    and "ca_count e = 0" and "ca_state e \<le> CInteractive" and "length ts < 2 ^ 32"
  shows "ca_count (tool_run pol ts e) = of_nat (length ts)
    \<and> ca_state (tool_run pol ts e) = ladder_class pol (length ts) (ca_state e)"
  using assms(5)
proof (induction ts rule: rev_induct)
  case Nil
  show ?case using assms(2,3) by (simp add: ladder_class_def)
next
  case (snoc x ts)
  obtain t u where x: "x = (t, u)" by (cases x)
  from snoc have IH: "ca_count (tool_run pol ts e) = of_nat (length ts)"
    "ca_state (tool_run pol ts e) = ladder_class pol (length ts) (ca_state e)" by simp_all
  have c: "unat (of_nat (length ts) + 1 :: u32) = length ts + 1"
    using snoc.prems by (intro unat_of_nat_plus_1) simp
  have s: "ca_state e = Cold \<or> ca_state e = CInteractive"
    using assms(4) by (cases "ca_state e") (simp_all add: cadence_order)
  have "demote pol (of_nat (length ts) + 1) (ladder_class pol (length ts) (ca_state e))
      = ladder_class pol (length ts + 1) (ca_state e)"
    using s assms(1) unfolding demote_def c ladder_class_def by auto
  then show ?case
    using IH arrival_step_tool[of pol t u "tool_run pol ts e"] by (simp add: x tool_run_snoc add.commute)
qed

text \<open>
  The demotion ladder: with thresholds that \<open>validate\<close> accepts, a Cold or
  Interactive flow with a fresh counter is, after k tool calls in a row, unchanged for
  k below the suspected threshold, AgenticSuspected up to the confirmed threshold and
  AgenticConfirmed from there on, whatever the gaps between the calls.
\<close>

theorem tool_run_ladder:
  assumes "validate cfg = Inr ()" and "pol = cfg_priority_policy cfg"
    and "ca_count e = 0" and "ca_state e \<le> CInteractive" and "length ts < 2 ^ 32"
  shows "ca_state (tool_run pol ts e) = ladder_class pol (length ts) (ca_state e)"
  using tool_run_state[OF _ _ assms(3,4,5), of pol] validate_cadence[OF assms(1)] assms(2) by simp

theorem tool_run_ladder_witness:
  "ca_state (tool_run priority_policy_default (replicate 12 (0, 0)) (cadence_new 0)) = AgenticConfirmed"
  using tool_run_ladder[OF validate_default refl, of "cadence_new 0" "replicate 12 (0, 0)"]
  by (simp add: config_default_def cadence_new_def cadence_order ladder_class_def priority_policy_default_def)

section \<open>The state is a function of the history\<close>

text \<open>
  The specification, on the arrivals of one flow, newest first, each with its time and whether it is a turn
  boundary: an idle boundary is one whose gap to the arrival before it reaches the threshold, and the class is that of the
  longest unbroken run of tool calls since the last idle boundary.
\<close>

type_synonym arrivals = "(instant \<times> bool) list"

definition idle_boundary :: "priority_policy \<Rightarrow> instant \<times> bool \<Rightarrow> arrivals \<Rightarrow> bool" where
  "idle_boundary pol a older \<longleftrightarrow> snd a \<and> older \<noteq> [] \<and> pp_idle_gap_threshold pol \<le> fst a - fst (hd older)"

fun since_idle :: "priority_policy \<Rightarrow> arrivals \<Rightarrow> arrivals" where
  "since_idle pol [] = []"
| "since_idle pol (a # older) = (if idle_boundary pol a older then [] else a # since_idle pol older)"

fun was_idle :: "priority_policy \<Rightarrow> arrivals \<Rightarrow> bool" where
  "was_idle pol [] = False"
| "was_idle pol (a # older) = (idle_boundary pol a older \<or> was_idle pol older)"

definition current_run :: "arrivals \<Rightarrow> nat" where
  "current_run as = length (takeWhile (\<lambda>a. \<not> snd a) as)"

fun longest_run :: "arrivals \<Rightarrow> nat" where
  "longest_run [] = 0"
| "longest_run (a # older) = max (current_run (a # older)) (longest_run older)"

definition history_class :: "priority_policy \<Rightarrow> arrivals \<Rightarrow> cadence_state" where
  "history_class pol as = ladder_class pol (longest_run (since_idle pol as)) (if was_idle pol as then CInteractive else Cold)"

lemma current_run_Cons [simp]: "current_run [] = 0" "current_run (a # as) = (if snd a then 0 else Suc (current_run as))"
  by (simp_all add: current_run_def)

lemma current_le_longest: "current_run as \<le> longest_run as"
  by (cases as) auto

lemma current_since_idle: "current_run (since_idle pol as) = current_run as"
  by (induction as) (auto simp: idle_boundary_def)

lemma current_le_length: "current_run as \<le> length as"
  by (simp add: current_run_def length_takeWhile_le)

text \<open>What an entry holds after the arrivals \<open>as\<close>.\<close>

definition reflects :: "priority_policy \<Rightarrow> arrivals \<Rightarrow> cadence \<Rightarrow> bool" where
  "reflects pol as e \<longleftrightarrow> ca_state e = history_class pol as \<and> ca_count e = of_nat (current_run as)
     \<and> ca_last_arrival e = (case as of [] \<Rightarrow> None | a # _ \<Rightarrow> Some (fst a))"

lemma is_idle_boundary: "reflects pol as e \<Longrightarrow> is_idle_chunk pol t tb e \<longleftrightarrow> idle_boundary pol (t, tb) as"
  by (cases as) (auto simp: reflects_def is_idle_chunk_def idle_boundary_def arrival_gap_def duration_since_def)

lemma demote_ladder:
  assumes "pp_agentic_suspected_threshold pol < pp_agentic_confirmed_threshold pol"
    and "b \<in> {Cold, CInteractive}" and "k \<le> l" and "unat c = Suc k"
  shows "demote pol c (ladder_class pol l b) = ladder_class pol (max (Suc k) l) b"
  using assms by (auto simp: demote_def ladder_class_def)

lemma reflects_step:
  assumes "pp_agentic_suspected_threshold pol < pp_agentic_confirmed_threshold pol" and "0 < pp_agentic_suspected_threshold pol"
    and r: "reflects pol as e" and "length as + 1 < 2 ^ 32"
  shows "reflects pol ((t, tb) # as) (arrival_step pol t u tb e)"
proof (cases "idle_boundary pol (t, tb) as")
  case True
  then show ?thesis using is_idle_boundary[OF r, of t tb] assms(2)
    by (simp add: reflects_def arrival_step_def history_class_def ladder_class_def idle_boundary_def)
next
  case no: False
  show ?thesis
  proof (cases tb)
    case True
    then show ?thesis using is_idle_boundary[OF r, of t tb] no r
      by (simp add: reflects_def arrival_step_def history_class_def)
  next
    case False
    let ?b = "if was_idle pol as then CInteractive else Cold" and ?l = "longest_run (since_idle pol as)"
    have "unat (of_nat (current_run as) + 1 :: u32) = Suc (current_run as)"
      using current_le_length[of as] assms(4) by (subst unat_of_nat_plus_1) simp_all
    moreover have "current_run as \<le> ?l" using current_le_longest[of "since_idle pol as"] by (simp add: current_since_idle)
    ultimately have "demote pol (of_nat (current_run as) + 1) (ladder_class pol ?l ?b) = ladder_class pol (max (Suc (current_run as)) ?l) ?b"
      using assms(1) by (intro demote_ladder) simp_all
    then show ?thesis using is_idle_boundary[OF r, of t tb] no False r
      by (simp add: reflects_def arrival_step_def history_class_def current_since_idle add.commute)
  qed
qed

text \<open>Arrivals of many flows, newest first, and those of one of them.\<close>

fun cadence_run :: "(flow_id \<times> instant \<times> nat \<times> bool) list \<Rightarrow> cadence_registry \<Rightarrow> cadence_registry" where
  "cadence_run [] c = c"
| "cadence_run ((i, t, u, tb) # h) c = snd (record_arrival i t u tb (cadence_run h c))"

definition arrivals_of :: "flow_id \<Rightarrow> (flow_id \<times> instant \<times> nat \<times> bool) list \<Rightarrow> arrivals" where
  "arrivals_of i h = map (\<lambda>(_, t, _, tb). (t, tb)) (filter (\<lambda>a. fst a = i) h)"

lemma arrivals_of_Cons [simp]:
  "arrivals_of i [] = []" "arrivals_of i ((j, t, u, tb) # h) = (if j = i then (t, tb) # arrivals_of i h else arrivals_of i h)"
  by (simp_all add: arrivals_of_def)

lemma cadence_run_policy: "cr_policy (cadence_run h c) = cr_policy c"
  by (induction h c rule: cadence_run.induct) simp_all

lemma cadence_run_reflects:
  assumes "pp_agentic_suspected_threshold (cr_policy c) < pp_agentic_confirmed_threshold (cr_policy c)"
    and "0 < pp_agentic_suspected_threshold (cr_policy c)" and "cr_inner c = []" and "length h < 2 ^ 32"
  shows "reflects (cr_policy c) (arrivals_of i h) (cadence_entry u (cadence_run h c) i)"
  using assms(4)
proof (induction h arbitrary: u)
  case Nil
  show ?case using assms(2,3)
    by (simp add: cadence_entry_def cadence_new_def reflects_def history_class_def ladder_class_def)
next
  case (Cons a h)
  obtain j t v tb where a: "a = (j, t, v, tb)" by (cases a)
  have "length (arrivals_of i h) \<le> length h" by (simp add: arrivals_of_def)
  then have "reflects (cr_policy c) ((t, tb) # arrivals_of i h)
      (arrival_step (cr_policy c) t v tb (cadence_entry v (cadence_run h c) i))"
    using Cons by (intro reflects_step[OF assms(1,2)]) simp_all
  then show ?case using Cons by (auto simp: a cadence_run_policy)
qed

text \<open>
  C37. The cadence state is a function of the flow's own arrivals: with thresholds that \<open>validate\<close> accepts, after any
  arrivals of any flows (fewer than 2^32, none reaped) the state of a flow is given by the longest unbroken run of its tool calls since its last
  idle turn boundary - below the suspected threshold it is Interactive, or Cold if there never was such a
  boundary; from there on AgenticSuspected, and from the confirmed threshold on AgenticConfirmed - its
  counter is the length of the run it is in, and its last arrival is the newest.
\<close>

theorem cadence_by_history:
  assumes "validate cfg = Inr ()" and "cr_policy c = cfg_priority_policy cfg" and "cr_inner c = []" and "length h < 2 ^ 32"
  shows "ca_state (cadence_entry u (cadence_run h c) i) = history_class (cr_policy c) (arrivals_of i h)
    \<and> unat (ca_count (cadence_entry u (cadence_run h c) i)) = current_run (arrivals_of i h)
    \<and> ca_last_arrival (cadence_entry u (cadence_run h c) i) = (case arrivals_of i h of [] \<Rightarrow> None | a # _ \<Rightarrow> Some (fst a))"
proof -
  have "length (arrivals_of i h) \<le> length h" by (simp add: arrivals_of_def)
  then have "current_run (arrivals_of i h) < 2 ^ 32"
    using current_le_length[of "arrivals_of i h"] assms(4) by linarith
  then have "unat (of_nat (current_run (arrivals_of i h)) :: u32) = current_run (arrivals_of i h)" by (rule unat_of_nat_u32)
  then show ?thesis using cadence_run_reflects[OF _ _ assms(3,4), of i u] validate_cadence[OF assms(1)] assms(2)
    by (simp add: reflects_def)
qed

text \<open>Twelve tool calls confirm a flow, another flow's arrival does not change it, and an idle user promotes it again.\<close>

theorem cadence_by_history_witness:
  "let c = \<lparr> cr_inner = [], cr_policy = priority_policy_default, cr_classes = priorities_default \<rparr>;
       h = (''b'', 2, 0, True) # replicate 12 (''a'', 1, 0, False)
   in ca_state (cadence_entry 0 (cadence_run h c) ''a'') = AgenticConfirmed
    \<and> ca_state (cadence_entry 0 (cadence_run ((''a'', 1 + pp_idle_gap_threshold priority_policy_default, 0, True) # h) c) ''a'') = CInteractive"
proof -
  let ?c = "\<lparr> cr_inner = [], cr_policy = priority_policy_default, cr_classes = priorities_default \<rparr>"
  let ?h = "(''b'', 2, 0, True) # replicate 12 (''a'', 1, 0, False)"
  note th = cadence_by_history[OF validate_default, of ?c, of _ 0 "''a''"]
  have "ca_state (cadence_entry 0 (cadence_run ?h ?c) ''a'') = history_class priority_policy_default (arrivals_of ''a'' ?h)"
    using th[of ?h] by (simp add: config_default_def)
  moreover have "ca_state (cadence_entry 0 (cadence_run ((''a'', 1 + pp_idle_gap_threshold priority_policy_default, 0, True) # ?h) ?c) ''a'')
      = history_class priority_policy_default (arrivals_of ''a'' ((''a'', 1 + pp_idle_gap_threshold priority_policy_default, 0, True) # ?h))"
    using th[of "(''a'', 1 + pp_idle_gap_threshold priority_policy_default, 0, True) # ?h"] by (simp add: config_default_def)
  ultimately show ?thesis
    by (simp add: Let_def numeral_eq_Suc arrivals_of_def history_class_def ladder_class_def idle_boundary_def priority_policy_default_def)
qed

text \<open>
  The heuristic never overwrites a pinned priority, and otherwise writes exactly
  the class of the flow's current state: pinned (header or admin) and disabled leave
  the flow as it is.
\<close>

theorem classify_and_apply_spec:
  "fst (classify_and_apply u i f c) =
     (if fl_priority_source f = 0 \<and> pp_enabled (cr_policy c)
      then f\<lparr>fl_priority := state_priority (cr_classes c) (ca_state (cadence_entry u c i))\<rparr>
      else f)
   \<and> fst (state_of u i (snd (classify_and_apply u i f c))) = ca_state (cadence_entry u c i)"
  by (simp add: classify_and_apply_def state_of_def cadence_entry_def Let_def)

lemma cadence_reap_get:
  assumes "hwf (cr_inner c)"
  shows "hget (cr_inner (snd (cadence_reap_idle now ttl c))) i =
    (case hget (cr_inner c) i of Some e \<Rightarrow> if ca_last_seen e < now - ttl then None else Some e
     | None \<Rightarrow> None)"
proof -
  let ?is = "map fst (filter (\<lambda>(i, e). ca_last_seen e < now - ttl) (cr_inner c))"
  have "i \<in> set ?is \<longleftrightarrow> (\<exists>e. hget (cr_inner c) i = Some e \<and> ca_last_seen e < now - ttl)"
    using assms by (force simp: hwf_in_set)
  then show ?thesis
    by (auto simp: cadence_reap_idle_def Let_def hm.del_all_get split: option.splits)
qed

end
