(* ===== verification/Json.thy ===== *)
theory Json
  imports F64
begin

text \<open>
  \<open>serde_json::Value\<close> as the code uses it.  The parser and the printer are library
  code: wherever the program parses or prints, the model takes them as arguments.  The
  accessors (\<open>get\<close>, \<open>as_str\<close>, \<open>as_i64\<close>, ...) and the object update follow the
  documented behaviour of the library's value type.
\<close>

datatype jnum = PosInt nat | NegInt int | Float f64

datatype json = JNull | JBool bool | JNum jnum | JStr string
  | JArr "json list" | JObj "(string \<times> json) list"

fun j_get :: "json \<Rightarrow> string \<Rightarrow> json option" where
  "j_get (JObj m) k = map_of m k"
| "j_get _ k = None"

fun j_as_str :: "json \<Rightarrow> string option" where
  "j_as_str (JStr s) = Some s"
| "j_as_str _ = None"

fun j_as_bool :: "json \<Rightarrow> bool option" where
  "j_as_bool (JBool b) = Some b"
| "j_as_bool _ = None"

fun j_as_array :: "json \<Rightarrow> json list option" where
  "j_as_array (JArr a) = Some a"
| "j_as_array _ = None"

fun j_as_object :: "json \<Rightarrow> (string \<times> json) list option" where
  "j_as_object (JObj m) = Some m"
| "j_as_object _ = None"

fun j_as_i64 :: "json \<Rightarrow> int option" where
  "j_as_i64 (JNum (PosInt n)) = (if int n \<le> i64_max then Some (int n) else None)"
| "j_as_i64 (JNum (NegInt i)) = Some i"
| "j_as_i64 _ = None"

fun j_as_f64 :: "json \<Rightarrow> f64 option" where
  "j_as_f64 (JNum (PosInt n)) = Some (f_of_nat n)"
| "j_as_f64 (JNum (NegInt i)) = Some (f_of_int i)"
| "j_as_f64 (JNum (Float x)) = Some x"
| "j_as_f64 _ = None"

text \<open>\<open>Number::from_f64\<close>: no JSON number for NaN and the infinities.\<close>

definition num_from_f64 :: "f64 \<Rightarrow> json option" where
  "num_from_f64 x = (case x of Fin r \<Rightarrow> Some (JNum (Float x)) | _ \<Rightarrow> None)"

definition obj_insert :: "string \<Rightarrow> json \<Rightarrow> (string \<times> json) list \<Rightarrow> (string \<times> json) list" where
  "obj_insert k v m = AList.update k v m"

lemma map_of_obj_insert [simp]: "map_of (obj_insert k v m) k' = (if k' = k then Some v else map_of m k')"
  by (simp add: obj_insert_def update_conv')

text \<open>
  \<open>value["k"] = v\<close> (\<open>IndexMut\<close>): null becomes an object, an object is updated, any
  other value panics (\<open>None\<close>).
\<close>

fun j_index_set :: "json \<Rightarrow> string \<Rightarrow> json \<Rightarrow> json option" where
  "j_index_set JNull k v = Some (JObj [(k, v)])"
| "j_index_set (JObj m) k v = Some (JObj (obj_insert k v m))"
| "j_index_set _ k v = None"

lemma j_index_set_get:
  "j_index_set j k v = Some j' \<Longrightarrow> j_get j' k' = (if k' = k then Some v else j_get j k')"
  by (cases j) auto

end
