(* ===== verification/Identify.thy ===== *)
theory Identify
  imports FlowCore Json
begin

text \<open>
  Flow identification (src/flow/identify.rs).  A header map is a list of lower-case
  names with values; \<open>get\<close> returns the first.  The JSON parser and the UUID generator
  are arguments (\<open>parse\<close>, \<open>uuid\<close>).  Lemmas: the precedence of the sources, and that
  a priority header can only do what its token says.
\<close>

type_synonym header_map = "(string \<times> string) list"

definition hdr_get :: "header_map \<Rightarrow> string \<Rightarrow> string option" where
  "hdr_get hs name = map_of hs name"

text \<open>\<open>HeaderValue::to_str\<close>: visible ASCII and tab only.\<close>

definition hdr_to_str :: "string \<Rightarrow> string option" where
  "hdr_to_str v = (if list_all (\<lambda>c. byte_of c = 9 \<or> (32 \<le> byte_of c \<and> byte_of c < 127)) v
     then Some v else None)"

definition hdr_str :: "header_map \<Rightarrow> string \<Rightarrow> string option" where
  "hdr_str hs name = Option.bind (hdr_get hs name) hdr_to_str"

record resolved_flow =
  rf_flow_id :: flow_id
  rf_priority_override :: "priority_class option"
  rf_unset_override :: bool

definition extract_flow_id_from_header :: "header_map \<Rightarrow> flow_id option" where
  "extract_flow_id_from_header hs = (case hdr_str hs ''x-llm-flow-id'' of
       Some s \<Rightarrow> if s \<noteq> [] then Some s else None | None \<Rightarrow> None)"

definition session_headers :: "string list" where
  "session_headers = [''x-claude-code-session-id'', ''x-session-id'', ''x-session-affinity'',
     ''x-client-request-id'', ''session_id'']"

fun first_session_header :: "header_map \<Rightarrow> string list \<Rightarrow> flow_id option" where
  "first_session_header hs [] = None"
| "first_session_header hs (n # ns) = (case hdr_str hs n of
       Some s \<Rightarrow> if trim s \<noteq> [] then Some (trim s) else first_session_header hs ns
     | None \<Rightarrow> first_session_header hs ns)"

definition extract_flow_id_from_session_headers :: "header_map \<Rightarrow> flow_id option" where
  "extract_flow_id_from_session_headers hs = first_session_header hs session_headers"

definition extract_flow_id_from_body :: "(string \<Rightarrow> json option) \<Rightarrow> string \<Rightarrow> flow_id option" where
  "extract_flow_id_from_body parse body =
     (if body = [] then None
      else case parse body of None \<Rightarrow> None | Some value \<Rightarrow>
        (case j_get value ''metadata'' of None \<Rightarrow> None | Some metadata \<Rightarrow>
          (case j_get metadata ''flow_id'' of None \<Rightarrow> None | Some v \<Rightarrow>
            (case j_as_str v of None \<Rightarrow> None | Some flow_id \<Rightarrow>
              if flow_id = [] then None else Some flow_id))))"

definition generate_ephemeral_id :: "string \<Rightarrow> flow_id" where
  "generate_ephemeral_id uuid = ''ephemeral-'' @ uuid"

definition priority_header :: "header_map \<Rightarrow> priority_class option \<times> bool" where
  "priority_header hs = (case hdr_str hs ''x-llm-priority'' of
       None \<Rightarrow> (None, False)
     | Some v \<Rightarrow> (let val = trim v in
         if val = [] then (None, False)
         else if eq_ignore_ascii_case val ''auto'' then (None, True)
         else case resolve_priority_token val of
           Some c \<Rightarrow> (Some c, False) | None \<Rightarrow> (None, False)))"

definition resolve :: "(string \<Rightarrow> json option) \<Rightarrow> string \<Rightarrow> header_map \<Rightarrow> string \<Rightarrow> resolved_flow" where
  "resolve parse uuid hs body =
     (let f1 = extract_flow_id_from_header hs;
          f2 = (if f1 = None then extract_flow_id_from_session_headers hs else f1);
          f3 = (if f2 = None then extract_flow_id_from_body parse body else f2);
          flow = (case f3 of Some f \<Rightarrow> f | None \<Rightarrow> generate_ephemeral_id uuid);
          (cls, unset) = priority_header hs
      in \<lparr> rf_flow_id = flow, rf_priority_override = cls, rf_unset_override = unset \<rparr>)"

lemma first_session_header_Some:
  "first_session_header hs ns = Some f \<longleftrightarrow>
     (\<exists>as n bs v. ns = as @ n # bs \<and> hdr_str hs n = Some v \<and> trim v \<noteq> [] \<and> f = trim v
        \<and> (\<forall>m \<in> set as. \<forall>w. hdr_str hs m = Some w \<longrightarrow> trim w = []))"
proof (induction ns)
  case (Cons n ns)
  show ?case
  proof (cases "\<exists>v. hdr_str hs n = Some v \<and> trim v \<noteq> []")
    case True
    then obtain v where v: "hdr_str hs n = Some v" "trim v \<noteq> []" by blast
    then show ?thesis by (fastforce simp: Cons_eq_append_conv)
  next
    case False
    then have *: "first_session_header hs (n # ns) = first_session_header hs ns"
      by (auto split: option.splits)
    show ?thesis unfolding * Cons.IH
    proof (intro iffI; elim exE conjE)
      fix as m bs v
      assume "ns = as @ m # bs" "hdr_str hs m = Some v" "trim v \<noteq> []" "f = trim v"
        "\<forall>m \<in> set as. \<forall>w. hdr_str hs m = Some w \<longrightarrow> trim w = []"
      with False show "\<exists>as m bs v. n # ns = as @ m # bs \<and> hdr_str hs m = Some v \<and> trim v \<noteq> []
          \<and> f = trim v \<and> (\<forall>m \<in> set as. \<forall>w. hdr_str hs m = Some w \<longrightarrow> trim w = [])"
        by (intro exI[of _ "n # as"] exI[of _ m] exI[of _ bs] exI[of _ v]) auto
    next
      fix as m bs v
      assume a: "n # ns = as @ m # bs" "hdr_str hs m = Some v" "trim v \<noteq> []" "f = trim v"
        "\<forall>m \<in> set as. \<forall>w. hdr_str hs m = Some w \<longrightarrow> trim w = []"
      with False obtain as' where "as = n # as'" by (cases as) auto
      with a show "\<exists>as m bs v. ns = as @ m # bs \<and> hdr_str hs m = Some v \<and> trim v \<noteq> []
          \<and> f = trim v \<and> (\<forall>m \<in> set as. \<forall>w. hdr_str hs m = Some w \<longrightarrow> trim w = [])"
        by (intro exI[of _ as'] exI[of _ m] exI[of _ bs] exI[of _ v]) auto
    qed
  qed
qed simp

lemma resolve_precedence_core:
  "rf_flow_id (resolve parse uuid hs body) =
     (case extract_flow_id_from_header hs of Some f \<Rightarrow> f | None \<Rightarrow>
       (case first_session_header hs session_headers of Some f \<Rightarrow> f | None \<Rightarrow>
         (case extract_flow_id_from_body parse body of Some f \<Rightarrow> f
          | None \<Rightarrow> generate_ephemeral_id uuid)))
   \<and> is_ephemeral (generate_ephemeral_id uuid)
   \<and> metric_label (generate_ephemeral_id uuid) = ''ephemeral''"
proof -
  have "is_ephemeral (generate_ephemeral_id uuid)"
    unfolding is_ephemeral_def generate_ephemeral_id_def by (rule starts_with_append)
  then show ?thesis
    by (simp add: resolve_def Let_def extract_flow_id_from_session_headers_def metric_label_def
        split: option.splits prod.splits)
qed

text \<open>
  Identity precedence: an explicit flow header wins over everything; without it the
  first non-blank session header (in the fixed order) wins; without those a non-empty
  \<open>metadata.flow_id\<close> string of a JSON body is used; only when all are absent is an
  ephemeral identifier made, and that one is recognised as ephemeral.
\<close>

theorem resolve_precedence:
  "rf_flow_id (resolve parse uuid hs body) =
     (case extract_flow_id_from_header hs of Some f \<Rightarrow> f | None \<Rightarrow>
       (case first_session_header hs session_headers of Some f \<Rightarrow> f | None \<Rightarrow>
         (case extract_flow_id_from_body parse body of Some f \<Rightarrow> f
          | None \<Rightarrow> generate_ephemeral_id uuid)))
   \<and> is_ephemeral (generate_ephemeral_id uuid)
   \<and> metric_label (generate_ephemeral_id uuid) = ''ephemeral''"
  by (rule resolve_precedence_core)

text \<open>A resolved identifier is never empty, whatever the client sends.\<close>

lemma resolve_nonempty: "rf_flow_id (resolve parse uuid hs body) \<noteq> []"
proof -
  have "extract_flow_id_from_header hs \<noteq> Some []"
    by (simp add: extract_flow_id_from_header_def split: option.splits)
  moreover have "first_session_header hs session_headers \<noteq> Some []"
    by (simp add: first_session_header_Some)
  moreover have "extract_flow_id_from_body parse body \<noteq> Some []"
    by (simp add: extract_flow_id_from_body_def split: option.splits)
  ultimately show ?thesis
    using resolve_precedence_core[of parse uuid hs body]
    by (auto simp: generate_ephemeral_id_def split: option.splits)
qed

text \<open>A pin and a reset are never requested together, and a reset needs the token auto.\<close>

lemma priority_header_exclusive:
  "snd (priority_header hs) \<Longrightarrow> fst (priority_header hs) = None
     \<and> (\<exists>v. hdr_str hs ''x-llm-priority'' = Some v \<and> eq_ignore_ascii_case (trim v) ''auto'')"
  by (auto simp: priority_header_def Let_def split: option.splits if_splits)

end
