(* ===== verification/BackendParse.thy ===== *)
theory BackendParse
  imports FlowCore
begin

text \<open>
  Parsing of the backend's metrics (src/backend/mod.rs): the Prometheus text scanner, the
  snapshot it fills, and the KV usage derived from llama.cpp's \<open>/slots\<close>.  Strings are
  ASCII byte strings.  \<open>str::parse::<f64>\<close> is modelled with its grammar and correct
  rounding; JSON decoding of \<open>/slots\<close> is library code, so \<open>parse_slots\<close> starts from the
  decoded entries.  Lemmas: a rendered sample parses back, the last sample of a gauge
  wins whatever surrounds it, and the derived usage lies in the unit interval.
\<close>

section \<open>Strings of the standard library\<close>

definition split_on :: "char \<Rightarrow> string \<Rightarrow> string option" where
  "split_on c s = (if c \<in> set s then Some (takeWhile (\<lambda>x. x \<noteq> c) s) else None)"

text \<open>\<open>split_whitespace().last()\<close>.\<close>

definition last_token :: "string \<Rightarrow> string option" where
  "last_token s = (let t = rev (takeWhile (\<lambda>c. \<not> is_ws c) (dropWhile is_ws (rev s)))
     in if t = [] then None else Some t)"

text \<open>\<open>str::lines\<close>: split after each newline, drop one trailing carriage return.\<close>

definition chomp_cr :: "string \<Rightarrow> string" where
  "chomp_cr l = (if l \<noteq> [] \<and> last l = CHR 0x0D then butlast l else l)"

fun split_lines :: "string \<Rightarrow> string \<Rightarrow> string list" where
  "split_lines [] acc = (if acc = [] then [] else [rev acc])"
| "split_lines (c # cs) acc = (if c = CHR 0x0A then chomp_cr (rev acc) # split_lines cs []
     else split_lines cs (c # acc))"

definition lines :: "string \<Rightarrow> string list" where
  "lines s = split_lines s []"

section \<open>Parsing numbers\<close>

definition is_digit :: "char \<Rightarrow> bool" where
  "is_digit c \<longleftrightarrow> 48 \<le> byte_of c \<and> byte_of c \<le> 57"

definition digits_value :: "string \<Rightarrow> nat" where
  "digits_value ds = foldl (\<lambda>n c. 10 * n + (byte_of c - 48)) 0 ds"

definition split_sign :: "string \<Rightarrow> bool \<times> string" where
  "split_sign s = (case s of
       c # cs \<Rightarrow> if c = CHR ''-'' then (True, cs) else if c = CHR ''+'' then (False, cs) else (False, s)
     | [] \<Rightarrow> (False, s))"

text \<open>The exponent part: absent, or \<open>e\<close> with an optionally signed digit string.\<close>

definition parse_exponent :: "string \<Rightarrow> int option" where
  "parse_exponent s = (case s of [] \<Rightarrow> Some 0
     | c # cs \<Rightarrow> if c = CHR ''e'' \<or> c = CHR ''E'' then
         (let (neg, ds) = split_sign cs in
          if ds \<noteq> [] \<and> list_all is_digit ds
          then Some (if neg then - int (digits_value ds) else int (digits_value ds)) else None)
       else None)"

definition parse_number :: "string \<Rightarrow> rat option" where
  "parse_number s =
     (let ip = takeWhile is_digit s; r1 = dropWhile is_digit s;
          (fp, r2) = (case r1 of
              c # cs \<Rightarrow> if c = CHR ''.'' then (takeWhile is_digit cs, dropWhile is_digit cs) else ([], r1)
            | [] \<Rightarrow> ([], r1))
      in if ip = [] \<and> fp = [] then None
         else case parse_exponent r2 of None \<Rightarrow> None
           | Some e \<Rightarrow> Some (of_nat (digits_value (ip @ fp)) * 10 powi (e - int (length fp))))"

definition parse_f64 :: "string \<Rightarrow> f64 option" where
  "parse_f64 s = (let (neg, t) = split_sign s; l = to_ascii_lowercase t in
     if l = ''inf'' \<or> l = ''infinity'' then Some (if neg then NInf else PInf)
     else if l = ''nan'' then Some NaN
     else case parse_number t of
       None \<Rightarrow> None | Some x \<Rightarrow> Some (rnd (if neg then - x else x)))"

section \<open>The scanner\<close>

definition parse_prometheus_line :: "string \<Rightarrow> (string \<times> f64) option" where
  "parse_prometheus_line raw = (let line = trim raw in
     if line = [] \<or> starts_with line ''#'' then None
     else case (case split_on CHR ''{'' line of Some n \<Rightarrow> Some n | None \<Rightarrow> split_on CHR '' '' line) of
         None \<Rightarrow> None
       | Some metric_name \<Rightarrow>
           (case Option.bind (last_token line) parse_f64 of
              None \<Rightarrow> None | Some value \<Rightarrow> Some (metric_name, value)))"

record backend_snapshot =
  bs_kv_usage :: f64
  bs_kv_free :: f64
  bs_slot_count :: "nat option"
  bs_preemptions :: nat
  bs_generation_tokens :: f64
  bs_prompt_tokens :: f64
  bs_requests_running :: f64
  bs_requests_waiting :: f64
  bs_cached_prompt_tokens :: f64
  bs_decode_calls :: f64

definition snapshot_default :: backend_snapshot where
  "snapshot_default = \<lparr> bs_kv_usage = Fin 0, bs_kv_free = Fin 1, bs_slot_count = None,
     bs_preemptions = 0, bs_generation_tokens = Fin 0, bs_prompt_tokens = Fin 0,
     bs_requests_running = Fin 0, bs_requests_waiting = Fin 0, bs_cached_prompt_tokens = Fin 0,
     bs_decode_calls = Fin 0 \<rparr>"

definition is_busy :: "backend_snapshot \<Rightarrow> bool" where
  "is_busy s \<longleftrightarrow> f_lt (Fin 0) (bs_requests_running s) \<or> f_lt (Fin 0) (bs_requests_waiting s)"

record parse_result =
  pr_snapshot :: backend_snapshot
  pr_found_usage :: bool
  pr_found_free :: bool
  pr_found_llamacpp :: bool

definition parse_result_default :: parse_result where
  "parse_result_default = \<lparr> pr_snapshot = snapshot_default, pr_found_usage = False,
     pr_found_free = False, pr_found_llamacpp = False \<rparr>"

definition on_snapshot :: "(backend_snapshot \<Rightarrow> backend_snapshot) \<Rightarrow> parse_result \<Rightarrow> parse_result" where
  "on_snapshot g r = r\<lparr>pr_snapshot := g (pr_snapshot r)\<rparr>"

definition llama :: "parse_result \<Rightarrow> parse_result" where
  "llama r = r\<lparr>pr_found_llamacpp := True\<rparr>"

definition apply_sample :: "string \<times> f64 \<Rightarrow> parse_result \<Rightarrow> parse_result" where
  "apply_sample nv r = (let (name, value) = nv in
     if name = ''vllm:gpu_cache_usage_perc'' \<or> name = ''vllm:kv_cache_usage_perc'' then
       (on_snapshot (\<lambda>s. s\<lparr>bs_kv_usage := value\<rparr>) r)\<lparr>pr_found_usage := True\<rparr>
     else if name = ''vllm:gpu_cache_free_perc'' then
       (on_snapshot (\<lambda>s. s\<lparr>bs_kv_free := value\<rparr>) r)\<lparr>pr_found_free := True\<rparr>
     else if name = ''vllm:num_preemptions_total'' then
       on_snapshot (\<lambda>s. s\<lparr>bs_preemptions := as_u64 value\<rparr>) r
     else if name = ''vllm:generation_tokens_total'' then
       on_snapshot (\<lambda>s. s\<lparr>bs_generation_tokens := value\<rparr>) r
     else if name = ''vllm:prompt_tokens_total'' then
       on_snapshot (\<lambda>s. s\<lparr>bs_prompt_tokens := value\<rparr>) r
     else if name = ''vllm:num_requests_running'' then
       on_snapshot (\<lambda>s. s\<lparr>bs_requests_running := value\<rparr>) r
     else if name = ''vllm:num_requests_waiting'' then
       on_snapshot (\<lambda>s. s\<lparr>bs_requests_waiting := value\<rparr>) r
     else if name = ''llamacpp:requests_processing'' then
       llama (on_snapshot (\<lambda>s. s\<lparr>bs_requests_running := value\<rparr>) r)
     else if name = ''llamacpp:requests_deferred'' then
       llama (on_snapshot (\<lambda>s. s\<lparr>bs_requests_waiting := value\<rparr>) r)
     else if name = ''llamacpp:prompt_tokens_total'' then
       llama (on_snapshot (\<lambda>s. s\<lparr>bs_prompt_tokens := value\<rparr>) r)
     else if name = ''llamacpp:tokens_predicted_total'' then
       llama (on_snapshot (\<lambda>s. s\<lparr>bs_generation_tokens := value\<rparr>) r)
     else if name = ''llamacpp:prompt_tokens_cached_total'' then
       llama (on_snapshot (\<lambda>s. s\<lparr>bs_cached_prompt_tokens := value\<rparr>) r)
     else if name = ''llamacpp:n_decode_total'' then
       llama (on_snapshot (\<lambda>s. s\<lparr>bs_decode_calls := value\<rparr>) r)
     else r)"

definition apply_line :: "string \<Rightarrow> parse_result \<Rightarrow> parse_result" where
  "apply_line l r = (case parse_prometheus_line l of Some nv \<Rightarrow> apply_sample nv r | None \<Rightarrow> r)"

definition derive_free :: "parse_result \<Rightarrow> parse_result" where
  "derive_free r = (if pr_found_usage r \<and> \<not> pr_found_free r \<and> f_lt (bs_kv_usage (pr_snapshot r)) (Fin 1)
     then on_snapshot (\<lambda>s. s\<lparr>bs_kv_free := f_sub (Fin 1) (bs_kv_usage s)\<rparr>) r else r)"

definition parse_snapshot :: "string \<Rightarrow> parse_result" where
  "parse_snapshot body = derive_free (fold apply_line (lines body) parse_result_default)"

section \<open>llama.cpp slots\<close>

record slot_kv =
  sk_n_ctx :: nat
  sk_n_prompt_tokens :: nat

record slot_wire =
  sw_n_ctx :: "nat option"
  sw_n_prompt_tokens :: nat

text \<open>\<open>None\<close> stands for a body that is not a JSON array of slot objects.\<close>

definition parse_slots :: "slot_wire list option \<Rightarrow> slot_kv list option" where
  "parse_slots decoded = (case decoded of None \<Rightarrow> None
     | Some wire \<Rightarrow> if wire = [] then None
         else Some (List.map_filter (\<lambda>w. map_option
            (\<lambda>n. \<lparr> sk_n_ctx = n, sk_n_prompt_tokens = sw_n_prompt_tokens w \<rparr>) (sw_n_ctx w)) wire))"

definition wrap_u64 :: "nat \<Rightarrow> nat" where "wrap_u64 n = n mod 2 ^ 64"

definition slots_kv_usage :: "slot_kv list \<Rightarrow> bool \<Rightarrow> f64 option" where
  "slots_kv_usage slots kv_unified =
     (let used = wrap_u64 (sum_list (map sk_n_prompt_tokens slots));
          pool = (if kv_unified then (case slots of [] \<Rightarrow> None | s # _ \<Rightarrow> Some (sk_n_ctx s))
                  else Some (wrap_u64 (sum_list (map sk_n_ctx slots))))
      in case pool of None \<Rightarrow> None
         | Some p \<Rightarrow> if p = 0 then None
             else Some (f_clamp (f_div (f_of_nat used) (f_of_nat p)) (Fin 0) (Fin 1)))"

section \<open>A rendered sample parses back\<close>

lemma trim_id:
  assumes "s \<noteq> []" and "\<not> is_ws (hd s)" and "\<not> is_ws (last s)"
  shows "trim s = s"
proof -
  have "dropWhile is_ws s = s" using assms by (cases s) simp_all
  moreover have "dropWhile is_ws (rev s) = rev s"
    using assms by (cases "rev s") (simp_all add: last_conv_nth hd_conv_nth[symmetric] flip: hd_rev)
  ultimately show ?thesis by (simp add: trim_def)
qed

lemma last_token_append:
  assumes "v \<noteq> []" and "\<forall>c \<in> set v. \<not> is_ws c"
  shows "last_token (pre @ '' '' @ v) = Some v"
proof -
  have "dropWhile is_ws (rev (pre @ '' '' @ v)) = rev v @ CHR '' '' # rev pre"
    using assms by (cases v rule: rev_cases) simp_all
  moreover have "takeWhile (\<lambda>c. \<not> is_ws c) (rev v @ CHR '' '' # rev pre) = rev v"
    using assms(2) by (subst takeWhile_append2) (simp_all add: is_ws_def byte_of_def)
  ultimately show ?thesis using assms(1) by (simp add: last_token_def Let_def)
qed

lemma split_on_append:
  "c \<notin> set n \<Longrightarrow> split_on c (n @ c # s) = Some n"
  by (auto simp: split_on_def takeWhile_append1 takeWhile_append2 takeWhile_tail)

definition plain_name :: "string \<Rightarrow> bool" where
  "plain_name n \<longleftrightarrow> n \<noteq> [] \<and> hd n \<noteq> CHR ''#'' \<and> CHR ''{'' \<notin> set n \<and> (\<forall>c \<in> set n. \<not> is_ws c)"

text \<open>
  The scanner inverts the exposition format: a line made of a metric name, an
  optional label block (whose text may contain blanks) and a value token that parses as a
  number yields exactly that name and that number.
\<close>

theorem parse_prometheus_line_sample:
  assumes "plain_name n" and "labels = [] \<or> (\<exists>l. labels = ''{'' @ l)"
    and "v \<noteq> []" and "\<forall>c \<in> set v. \<not> is_ws c \<and> c \<noteq> CHR ''{''" and "parse_f64 v = Some x"
  shows "parse_prometheus_line (n @ labels @ '' '' @ v) = Some (n, x)"
proof -
  define s where "s = n @ labels @ '' '' @ v"
  have n: "n \<noteq> []" "\<not> is_ws (hd n)" "hd n \<noteq> CHR ''#''" "CHR ''{'' \<notin> set n" "CHR '' '' \<notin> set n"
    using assms(1) by (auto simp: plain_name_def is_ws_def byte_of_def)
  have "trim s = s" unfolding s_def using n(1,2) assms(3,4) by (intro trim_id) simp_all
  moreover have "\<not> starts_with s ''#''" using n(1,3) by (cases n) (simp_all add: s_def starts_with_def)
  moreover have "(case split_on CHR ''{'' s of Some n \<Rightarrow> Some n | None \<Rightarrow> split_on CHR '' '' s) = Some n"
  proof (cases "labels = []")
    case True
    then have "split_on CHR ''{'' s = None" using n(4) assms(4) by (auto simp: s_def split_on_def)
    then show ?thesis using True split_on_append[OF n(5)] by (simp add: s_def)
  next
    case False
    then obtain l where "labels = ''{'' @ l" using assms(2) by blast
    then show ?thesis using split_on_append[OF n(4), of "l @ '' '' @ v"] by (simp add: s_def)
  qed
  moreover have "last_token s = Some v"
    using last_token_append[of v "n @ labels"] assms(3,4) by (simp add: s_def)
  moreover have "s \<noteq> []" using n(1) by (simp add: s_def)
  ultimately have "parse_prometheus_line s = Some (n, x)"
    using assms(5) by (simp add: parse_prometheus_line_def Let_def)
  then show ?thesis by (simp only: s_def)
qed

theorem parse_prometheus_line_sample_witness:
  "parse_prometheus_line ''vllm:num_requests_running{model=x, engine=0} 3'' = Some (''vllm:num_requests_running'', Fin 3)"
proof -
  have "parse_f64 ''3'' = Some (rnd (of_int 3))"
    by (simp add: parse_f64_def split_sign_def Let_def to_ascii_lowercase_def ascii_lower_def byte_of_def
        parse_number_def is_digit_def parse_exponent_def digits_value_def)
  then have "parse_f64 ''3'' = Some (Fin 3)" by (subst (asm) rnd_int_exact) simp_all
  then show ?thesis
    using parse_prometheus_line_sample[of "''vllm:num_requests_running''" "''{model=x, engine=0}''" "''3''" "Fin 3"]
    by (simp add: plain_name_def is_ws_def byte_of_def)
qed

section \<open>The last sample wins\<close>

definition samples :: "string \<Rightarrow> (string \<times> f64) list" where
  "samples body = List.map_filter parse_prometheus_line (lines body)"

definition last_value :: "string set \<Rightarrow> f64 \<Rightarrow> (string \<times> f64) list \<Rightarrow> f64" where
  "last_value names d nvs = (let vs = map snd (filter (\<lambda>nv. fst nv \<in> names) nvs) in if vs = [] then d else last vs)"

lemma last_value_snoc:
  "last_value names d (nvs @ [nv]) = (if fst nv \<in> names then snd nv else last_value names d nvs)"
  by (simp add: last_value_def Let_def)

lemma fold_apply_line: "fold apply_line ls r = fold apply_sample (List.map_filter parse_prometheus_line ls) r"
  by (induction ls arbitrary: r) (auto simp: apply_line_def List.map_filter_def split: option.splits)

definition usage_names :: "string set" where
  "usage_names = {''vllm:gpu_cache_usage_perc'', ''vllm:kv_cache_usage_perc''}"
definition free_names :: "string set" where "free_names = {''vllm:gpu_cache_free_perc''}"
definition running_names :: "string set" where
  "running_names = {''vllm:num_requests_running'', ''llamacpp:requests_processing''}"
definition waiting_names :: "string set" where
  "waiting_names = {''vllm:num_requests_waiting'', ''llamacpp:requests_deferred''}"
definition generation_names :: "string set" where
  "generation_names = {''vllm:generation_tokens_total'', ''llamacpp:tokens_predicted_total''}"
definition prompt_names :: "string set" where
  "prompt_names = {''vllm:prompt_tokens_total'', ''llamacpp:prompt_tokens_total''}"
definition cached_names :: "string set" where "cached_names = {''llamacpp:prompt_tokens_cached_total''}"
definition decode_names :: "string set" where "decode_names = {''llamacpp:n_decode_total''}"
definition preemption_names :: "string set" where "preemption_names = {''vllm:num_preemptions_total''}"
definition llama_names :: "string set" where
  "llama_names = {''llamacpp:requests_processing'', ''llamacpp:requests_deferred'',
     ''llamacpp:prompt_tokens_total'', ''llamacpp:tokens_predicted_total'',
     ''llamacpp:prompt_tokens_cached_total'', ''llamacpp:n_decode_total''}"

lemma apply_sample_fields:
  "bs_kv_usage (pr_snapshot (apply_sample nv r)) = (if fst nv \<in> usage_names then snd nv else bs_kv_usage (pr_snapshot r))"
  "bs_kv_free (pr_snapshot (apply_sample nv r)) = (if fst nv \<in> free_names then snd nv else bs_kv_free (pr_snapshot r))"
  "bs_requests_running (pr_snapshot (apply_sample nv r)) = (if fst nv \<in> running_names then snd nv else bs_requests_running (pr_snapshot r))"
  "bs_requests_waiting (pr_snapshot (apply_sample nv r)) = (if fst nv \<in> waiting_names then snd nv else bs_requests_waiting (pr_snapshot r))"
  "bs_generation_tokens (pr_snapshot (apply_sample nv r)) = (if fst nv \<in> generation_names then snd nv else bs_generation_tokens (pr_snapshot r))"
  "bs_prompt_tokens (pr_snapshot (apply_sample nv r)) = (if fst nv \<in> prompt_names then snd nv else bs_prompt_tokens (pr_snapshot r))"
  "bs_cached_prompt_tokens (pr_snapshot (apply_sample nv r)) = (if fst nv \<in> cached_names then snd nv else bs_cached_prompt_tokens (pr_snapshot r))"
  "bs_decode_calls (pr_snapshot (apply_sample nv r)) = (if fst nv \<in> decode_names then snd nv else bs_decode_calls (pr_snapshot r))"
  "bs_preemptions (pr_snapshot (apply_sample nv r)) = (if fst nv \<in> preemption_names then as_u64 (snd nv) else bs_preemptions (pr_snapshot r))"
  "bs_slot_count (pr_snapshot (apply_sample nv r)) = bs_slot_count (pr_snapshot r)"
  "pr_found_usage (apply_sample nv r) = (fst nv \<in> usage_names \<or> pr_found_usage r)"
  "pr_found_free (apply_sample nv r) = (fst nv \<in> free_names \<or> pr_found_free r)"
  "pr_found_llamacpp (apply_sample nv r) = (fst nv \<in> llama_names \<or> pr_found_llamacpp r)"
  by (cases nv; simp add: apply_sample_def on_snapshot_def llama_def usage_names_def free_names_def
      running_names_def waiting_names_def llama_names_def generation_names_def prompt_names_def cached_names_def
      decode_names_def preemption_names_def)+

lemma fold_apply_sample:
  "let r = fold apply_sample nvs parse_result_default in
     bs_kv_usage (pr_snapshot r) = last_value usage_names (Fin 0) nvs
   \<and> bs_kv_free (pr_snapshot r) = last_value free_names (Fin 1) nvs
   \<and> bs_requests_running (pr_snapshot r) = last_value running_names (Fin 0) nvs
   \<and> bs_requests_waiting (pr_snapshot r) = last_value waiting_names (Fin 0) nvs
   \<and> bs_generation_tokens (pr_snapshot r) = last_value generation_names (Fin 0) nvs
   \<and> bs_prompt_tokens (pr_snapshot r) = last_value prompt_names (Fin 0) nvs
   \<and> bs_cached_prompt_tokens (pr_snapshot r) = last_value cached_names (Fin 0) nvs
   \<and> bs_decode_calls (pr_snapshot r) = last_value decode_names (Fin 0) nvs
   \<and> bs_preemptions (pr_snapshot r) = as_u64 (last_value preemption_names (Fin 0) nvs)
   \<and> bs_slot_count (pr_snapshot r) = None
   \<and> pr_found_usage r = (\<exists>nv \<in> set nvs. fst nv \<in> usage_names)
   \<and> pr_found_free r = (\<exists>nv \<in> set nvs. fst nv \<in> free_names)
   \<and> pr_found_llamacpp r = (\<exists>nv \<in> set nvs. fst nv \<in> llama_names)"
proof (induction nvs rule: rev_induct)
  case Nil
  then show ?case by (simp add: parse_result_default_def snapshot_default_def last_value_def trunc_def)
next
  case (snoc nv nvs)
  then show ?case by (simp add: Let_def apply_sample_fields last_value_snoc)
qed

text \<open>
  C36. A scrape is read by metric name only: whatever comments, unknown metrics and
  malformed lines surround them, each of the nine numbers of the snapshot is the last sample under one
  of its metric names (or the default; preemptions as an unsigned integer), the slot count is left open, the flavour flags
  say which names occurred, and the free fraction is derived from the usage exactly when it was not reported
  and usage is below 1.
\<close>

theorem parse_snapshot_spec:
  "let r = parse_snapshot body; nvs = samples body; usage = last_value usage_names (Fin 0) nvs in
     bs_kv_usage (pr_snapshot r) = usage
   \<and> bs_requests_running (pr_snapshot r) = last_value running_names (Fin 0) nvs
   \<and> bs_requests_waiting (pr_snapshot r) = last_value waiting_names (Fin 0) nvs
   \<and> bs_generation_tokens (pr_snapshot r) = last_value generation_names (Fin 0) nvs
   \<and> bs_prompt_tokens (pr_snapshot r) = last_value prompt_names (Fin 0) nvs
   \<and> bs_cached_prompt_tokens (pr_snapshot r) = last_value cached_names (Fin 0) nvs
   \<and> bs_decode_calls (pr_snapshot r) = last_value decode_names (Fin 0) nvs
   \<and> bs_preemptions (pr_snapshot r) = as_u64 (last_value preemption_names (Fin 0) nvs)
   \<and> bs_slot_count (pr_snapshot r) = None
   \<and> pr_found_usage r = (\<exists>nv \<in> set nvs. fst nv \<in> usage_names)
   \<and> pr_found_llamacpp r = (\<exists>nv \<in> set nvs. fst nv \<in> llama_names)
   \<and> bs_kv_free (pr_snapshot r) =
       (if pr_found_usage r \<and> \<not> (\<exists>nv \<in> set nvs. fst nv \<in> free_names) \<and> f_lt usage (Fin 1)
        then f_sub (Fin 1) usage else last_value free_names (Fin 1) nvs)"
  using fold_apply_sample[of "samples body"]
  by (simp add: parse_snapshot_def fold_apply_line samples_def[symmetric] Let_def derive_free_def on_snapshot_def)

section \<open>The derived usage\<close>

text \<open>
  The KV usage derived from \<open>/slots\<close> is a fraction: it is a number in [0, 1],
  absent when the pool is empty, and as long as the token sums fit in 64 bits and do not
  exceed the pool it is the binary64 quotient of resident tokens and pool size.
\<close>

theorem slots_kv_usage_fraction:
  assumes "slots_kv_usage slots unified = Some x"
  shows "(\<exists>r. x = Fin r \<and> 0 \<le> r \<and> r \<le> 1)
    \<and> (\<forall>u p. u = sum_list (map sk_n_prompt_tokens slots)
         \<and> p = (if unified then sk_n_ctx (hd slots) else sum_list (map sk_n_ctx slots))
         \<and> u \<le> p \<and> p \<le> 2 ^ 53 \<longrightarrow> 0 < p \<and> x = f_div (f_of_nat u) (f_of_nat p))"
proof
  have pos: "f_lt (Fin 0) (f_of_nat n)" if "0 < n" for n
    using rnd_mono[of 1 "of_nat n"] that by (cases "rnd (of_nat n)") (auto simp: f_of_nat_def Suc_le_eq)
  have nn: "f_div (f_of_nat u) (f_of_nat p) \<noteq> NaN \<or> f_of_nat u = PInf" if "0 < p" for u p
    using pos[OF that] rnd_nonneg[of "of_nat u"]
    by (cases "f_of_nat u"; cases "f_of_nat p") (auto simp: f_div_def f_of_nat_def)
  have fin: "f_of_nat (wrap_u64 u) \<noteq> PInf" for u
  proof -
    have "(of_nat (wrap_u64 u) :: rat) \<le> of_nat (2 ^ 64)"
      unfolding of_nat_le_iff by (simp add: wrap_u64_def less_imp_le)
    then have "(of_nat (wrap_u64 u) :: rat) \<le> 2 powi 64" by simp
    from rnd_mono[OF this] show ?thesis
      by (subst (asm) rnd_powi) (auto simp: f_of_nat_def)
  qed
  obtain u p where x: "x = f_clamp (f_div (f_of_nat (wrap_u64 u)) (f_of_nat p)) (Fin 0) (Fin 1)" "0 < p"
    using assms by (auto simp: slots_kv_usage_def Let_def split: option.splits if_splits list.splits)
  have "f_div (f_of_nat (wrap_u64 u)) (f_of_nat p) \<noteq> NaN" using nn[OF x(2)] fin by blast
  from f_clamp_bounds[OF _ this, of "Fin 0" "Fin 1"] show "\<exists>r. x = Fin r \<and> 0 \<le> r \<and> r \<le> 1"
    unfolding x(1) by (intro f_le_Fin01) simp_all
  show "\<forall>u p. u = sum_list (map sk_n_prompt_tokens slots)
         \<and> p = (if unified then sk_n_ctx (hd slots) else sum_list (map sk_n_ctx slots))
         \<and> u \<le> p \<and> p \<le> 2 ^ 53 \<longrightarrow> 0 < p \<and> x = f_div (f_of_nat u) (f_of_nat p)"
  proof (intro allI impI)
    fix u p assume a: "u = sum_list (map sk_n_prompt_tokens slots)
         \<and> p = (if unified then sk_n_ctx (hd slots) else sum_list (map sk_n_ctx slots))
         \<and> u \<le> p \<and> p \<le> 2 ^ 53"
    then have w: "wrap_u64 u = u" "wrap_u64 p = p" by (simp_all add: wrap_u64_def)
    have px: "0 < p \<and> x = f_clamp (f_div (f_of_nat u) (f_of_nat p)) (Fin 0) (Fin 1)"
      using assms a w by (auto simp: slots_kv_usage_def Let_def split: option.splits if_splits list.splits)
    then have "f_div (f_of_nat u) (f_of_nat p) = rnd (of_nat u / of_nat p)"
      using a by (simp add: f_of_nat_exact f_div_def)
    moreover have "f_le (Fin 0) (rnd (of_nat u / of_nat p))" "f_le (rnd (of_nat u / of_nat p)) (Fin 1)"
      using a px by (auto intro!: rnd_unit simp: divide_le_eq)
    ultimately show "0 < p \<and> x = f_div (f_of_nat u) (f_of_nat p)"
      using px f_le_not_lt by (auto simp: f_clamp_def)
  qed
qed

theorem slots_kv_usage_fraction_witness:
  "slots_kv_usage [\<lparr> sk_n_ctx = 4, sk_n_prompt_tokens = 1 \<rparr>, \<lparr> sk_n_ctx = 4, sk_n_prompt_tokens = 5 \<rparr>] False
     = Some (f_div (f_of_nat 6) (f_of_nat 8))"
proof -
  let ?s = "[\<lparr> sk_n_ctx = 4, sk_n_prompt_tokens = 1 \<rparr>, \<lparr> sk_n_ctx = 4, sk_n_prompt_tokens = 5 \<rparr>]"
  obtain x where x: "slots_kv_usage ?s False = Some x" by (simp add: slots_kv_usage_def wrap_u64_def)
  from slots_kv_usage_fraction[OF this] x show ?thesis by simp
qed

end
