(* ===== verification/Monitor.thy ===== *)
theory Monitor
  imports BackendParse Metrics
begin

text \<open>
  The backend monitor (src/backend/mod.rs): one iteration of the polling loop with the
  inference-stall watchdog, and \<open>wait_for\<close> on the snapshot channel.  The HTTP client is
  represented by what it returned: a failed request, a failed body, or the body with the
  result of the \<open>/slots\<close> request.  A \<open>watch\<close> channel keeps only its last value, so a
  receiver is a list of the values (or the closing) it observes.
\<close>

section \<open>The polling loop\<close>

record watchdog =
  wd_prompt :: f64
  wd_generation :: f64
  wd_cached :: f64
  wd_decode :: f64
  wd_last_progress :: instant
  wd_stalled :: bool

record monitor_state =
  mo_snapshot :: backend_snapshot
  mo_stall_signal :: bool
  mo_watchdog :: watchdog
  mo_last_slots_ok :: "bool option"
  mo_last_flavor :: "string option"

definition monitor_new :: "instant \<Rightarrow> monitor_state" where
  "monitor_new now = \<lparr> mo_snapshot = snapshot_default, mo_stall_signal = False,
     mo_watchdog = \<lparr> wd_prompt = Fin 0, wd_generation = Fin 0, wd_cached = Fin 0, wd_decode = Fin 0,
       wd_last_progress = now, wd_stalled = False \<rparr>,
     mo_last_slots_ok = None, mo_last_flavor = None \<rparr>"

text \<open>One scrape; the three times are those of the three clock readings of the watchdog.\<close>

datatype scrape_body = Unreachable | BodyError | Body string "slot_wire list option"

record scrape =
  sp_body :: scrape_body
  sp_t_idle :: instant
  sp_t_progress :: instant
  sp_t_check :: instant

definition flavor_of :: "parse_result \<Rightarrow> string" where
  "flavor_of r = (if pr_found_usage r then ''vllm''
     else if pr_found_llamacpp r then ''llama-cpp'' else ''unknown'')"

definition merge_slots :: "bool \<Rightarrow> slot_kv list option \<Rightarrow> backend_snapshot \<Rightarrow> backend_snapshot" where
  "merge_slots kv_unified slots s = (case slots of
       Some sl \<Rightarrow> let s1 = s\<lparr>bs_slot_count := Some (length sl)\<rparr> in
         (case slots_kv_usage sl kv_unified of
            Some u \<Rightarrow> s1\<lparr>bs_kv_usage := u, bs_kv_free := f_sub (Fin 1) u\<rparr>
          | None \<Rightarrow> s1)
     | None \<Rightarrow> s\<lparr>bs_slot_count := None\<rparr>)"

definition next_slots_ok :: "bool option \<Rightarrow> bool \<Rightarrow> bool option" where
  "next_slots_ok prev ok = (case (prev, ok) of
       (Some True, False) \<Rightarrow> Some False
     | (Some False, True) \<Rightarrow> Some True
     | (None, True) \<Rightarrow> Some True
     | _ \<Rightarrow> prev)"

text \<open>\<open>!=\<close> on floats: NaN differs from everything.\<close>

definition f_ne :: "f64 \<Rightarrow> f64 \<Rightarrow> bool" where
  "f_ne x y \<longleftrightarrow> \<not> f_eq x y"

definition wd_progressed :: "backend_snapshot \<Rightarrow> watchdog \<Rightarrow> bool" where
  "wd_progressed s w \<longleftrightarrow> f_ne (bs_prompt_tokens s) (wd_prompt w)
     \<or> f_ne (bs_generation_tokens s) (wd_generation w)
     \<or> f_ne (bs_cached_prompt_tokens s) (wd_cached w)
     \<or> f_ne (bs_decode_calls s) (wd_decode w)"

definition watchdog_step :: "duration \<Rightarrow> scrape \<Rightarrow> backend_snapshot \<Rightarrow> watchdog \<times> metrics \<Rightarrow> watchdog \<times> metrics" where
  "watchdog_step stall_timeout sp s wm =
     (let (w, m) = wm;
          lp1 = (if \<not> is_busy s then sp_t_idle sp else wd_last_progress w);
          lp2 = (if wd_progressed s w then sp_t_progress sp else lp1);
          now_stalled = (is_busy s \<and> stall_timeout \<le> duration_since (sp_t_check sp) lp2);
          m1 = (if now_stalled \<and> \<not> wd_stalled w then m\<lparr>m_stall_events := m_stall_events m + 1\<rparr> else m);
          st = (if now_stalled \<and> \<not> wd_stalled w then True
                else if \<not> now_stalled \<and> wd_stalled w then False else wd_stalled w)
      in (\<lparr> wd_prompt = bs_prompt_tokens s, wd_generation = bs_generation_tokens s,
            wd_cached = bs_cached_prompt_tokens s, wd_decode = bs_decode_calls s,
            wd_last_progress = lp2, wd_stalled = st \<rparr>,
          m1\<lparr>m_stalled := (if st then Fin 1 else Fin 0)\<rparr>))"

definition poll_step :: "backend_cfg \<Rightarrow> scrape \<Rightarrow> monitor_state \<times> metrics \<Rightarrow> monitor_state \<times> metrics" where
  "poll_step cfg sp sm = (let (st, m) = sm in
     case sp_body sp of
       Unreachable \<Rightarrow> (st, m)
     | BodyError \<Rightarrow> (st, m)
     | Body body decoded \<Rightarrow>
         let r = parse_snapshot body;
             m1 = (if pr_found_usage r
                   then m\<lparr>m_kv_usage := bs_kv_usage (pr_snapshot r), m_kv_free := bs_kv_free (pr_snapshot r)\<rparr>
                   else m);
             slots = parse_slots decoded;
             s = (if pr_found_llamacpp r then merge_slots (be_kv_unified cfg) slots (pr_snapshot r)
                  else pr_snapshot r);
             st1 = (if pr_found_llamacpp r
                    then st\<lparr>mo_last_slots_ok := next_slots_ok (mo_last_slots_ok st) (slots \<noteq> None)\<rparr> else st)
         in if pr_found_usage r \<or> pr_found_llamacpp r then
              let m2 = m1\<lparr>m_kv_pressure := bs_kv_usage s\<rparr>;
                  st2 = st1\<lparr>mo_snapshot := s, mo_last_flavor := Some (flavor_of r)\<rparr>
              in if be_stall_timeout cfg = 0 then (st2, m2)
                 else let (w, m3) = watchdog_step (be_stall_timeout cfg) sp s (mo_watchdog st2, m2)
                      in (st2\<lparr>mo_watchdog := w, mo_stall_signal := wd_stalled w\<rparr>, m3)
            else (st1, m1))"

section \<open>Waiting for a snapshot\<close>

datatype snap_event = Snap backend_snapshot | Closed | TimedOut
datatype wait_result = WaitDone | WaitTimeout | WaitPending

text \<open>\<open>wait_for\<close>, possibly under a timeout, as a function of what the receiver observes.\<close>

fun wait_for :: "(backend_snapshot \<Rightarrow> bool) \<Rightarrow> backend_snapshot \<Rightarrow> snap_event list \<Rightarrow> wait_result" where
  "wait_for pred s evs = (if pred s then WaitDone
     else case evs of
       [] \<Rightarrow> WaitPending
     | Snap s' # es \<Rightarrow> wait_for pred s' es
     | Closed # es \<Rightarrow> WaitDone
     | TimedOut # es \<Rightarrow> WaitTimeout)"

declare wait_for.simps [simp del]

section \<open>The watchdog\<close>

text \<open>
  Specification over a run of scrapes that carried metrics: a scrape is a mark if the
  engine was idle or some token counter differed from the previous scrape.
\<close>

type_synonym observed = "(scrape \<times> backend_snapshot) list"

definition counters :: "backend_snapshot \<Rightarrow> f64 list" where
  "counters s = [bs_prompt_tokens s, bs_generation_tokens s, bs_cached_prompt_tokens s, bs_decode_calls s]"

definition moved :: "f64 list \<Rightarrow> f64 list \<Rightarrow> bool" where
  "moved a b \<longleftrightarrow> list_ex (\<lambda>(x, y). f_ne x y) (zip a b)"

text \<open>The times at which the run saw idleness or progress, most recent first.\<close>

fun marks :: "f64 list \<Rightarrow> observed \<Rightarrow> instant list" where
  "marks prev [] = []"
| "marks prev ((sp, s) # os) = marks (counters s) os
     @ (if moved (counters s) prev then [sp_t_progress sp] else if is_busy s then [] else [sp_t_idle sp])"

definition run_watchdog :: "duration \<Rightarrow> observed \<Rightarrow> watchdog \<times> metrics \<Rightarrow> watchdog \<times> metrics" where
  "run_watchdog timeout os wm = fold (\<lambda>(sp, s). watchdog_step timeout sp s) os wm"

definition wd_counters :: "watchdog \<Rightarrow> f64 list" where
  "wd_counters w = [wd_prompt w, wd_generation w, wd_cached w, wd_decode w]"

lemma watchdog_step_simps:
  "wd_counters (fst (watchdog_step t sp s (w, m))) = counters s"
  "wd_last_progress (fst (watchdog_step t sp s (w, m))) =
     (if moved (counters s) (wd_counters w) then sp_t_progress sp
      else if is_busy s then wd_last_progress w else sp_t_idle sp)"
  "wd_stalled (fst (watchdog_step t sp s (w, m))) \<longleftrightarrow>
     is_busy s \<and> t \<le> sp_t_check sp - wd_last_progress (fst (watchdog_step t sp s (w, m)))"
  by (auto simp: watchdog_step_def Let_def wd_counters_def counters_def moved_def wd_progressed_def
      duration_since_def)

lemma run_watchdog_progress:
  "wd_last_progress (fst (run_watchdog t os (w, m))) =
     (case marks (wd_counters w) os of [] \<Rightarrow> wd_last_progress w | x # _ \<Rightarrow> x)
   \<and> wd_counters (fst (run_watchdog t os (w, m))) = (if os = [] then wd_counters w else counters (snd (last os)))"
proof (induction os arbitrary: w m)
  case (Cons a os)
  obtain sp s where a: "a = (sp, s)" by (cases a)
  obtain w' m' where st: "watchdog_step t sp s (w, m) = (w', m')" by (cases "watchdog_step t sp s (w, m)")
  have "run_watchdog t (a # os) (w, m) = run_watchdog t os (w', m')"
    by (simp add: run_watchdog_def a st)
  then show ?case using Cons.IH[of w' m'] watchdog_step_simps[of t sp s w m]
    by (auto simp: a st split: list.splits)
qed (simp add: run_watchdog_def)

lemma run_watchdog_snoc:
  "run_watchdog t (os @ [(sp, s)]) wm = watchdog_step t sp s (run_watchdog t os wm)"
  by (simp add: run_watchdog_def)

text \<open>
  C35. The stall signal means what it says: after a run of scrapes whose clock readings do
  not decrease, the engine is flagged as stalled if and only if it is busy now and every
  sign of life - an idle scrape, a change of any of the four token counters, or the start
  of the watchdog - lies at least \<open>stall_timeout\<close> back.
\<close>

theorem watchdog_stalled_iff:
  assumes "os = prev @ [(sp, s)]" and "0 < timeout"
    and "sorted_wrt (\<ge>) (marks (wd_counters w) os @ [wd_last_progress w])"
  shows "wd_stalled (fst (run_watchdog timeout os (w, m))) \<longleftrightarrow>
     is_busy s \<and> (\<forall>t \<in> insert (wd_last_progress w) (set (marks (wd_counters w) os)). t + timeout \<le> sp_t_check sp)"
proof -
  let ?w = "fst (run_watchdog timeout os (w, m))"
  have "?w = fst (watchdog_step timeout sp s (run_watchdog timeout prev (w, m)))"
    by (simp add: assms(1) run_watchdog_snoc)
  then have "wd_stalled ?w \<longleftrightarrow> is_busy s \<and> timeout \<le> sp_t_check sp - wd_last_progress ?w"
    using watchdog_step_simps(3)[of timeout sp s] by (metis prod.collapse)
  also have "\<dots> \<longleftrightarrow> is_busy s \<and> wd_last_progress ?w + timeout \<le> sp_t_check sp"
    using assms(2) by auto
  also have "\<dots> \<longleftrightarrow> is_busy s \<and> (\<forall>t \<in> insert (wd_last_progress w) (set (marks (wd_counters w) os)). t + timeout \<le> sp_t_check sp)"
  proof -
    have "wd_last_progress ?w \<in> insert (wd_last_progress w) (set (marks (wd_counters w) os))
      \<and> (\<forall>t \<in> insert (wd_last_progress w) (set (marks (wd_counters w) os)). t \<le> wd_last_progress ?w)"
      using run_watchdog_progress[of timeout os w m] assms(3)
      by (cases "marks (wd_counters w) os") auto
    then show ?thesis by (meson add_le_mono1 order_trans)
  qed
  finally show ?thesis .
qed

definition scrape_at :: "instant \<Rightarrow> scrape" where
  "scrape_at t = \<lparr> sp_body = Unreachable, sp_t_idle = t, sp_t_progress = t, sp_t_check = t \<rparr>"

theorem watchdog_stalled_iff_witness:
  "wd_stalled (fst (run_watchdog 30
     [(scrape_at 10, snapshot_default\<lparr>bs_requests_running := Fin 1, bs_generation_tokens := Fin 7\<rparr>),
      (scrape_at 40, snapshot_default\<lparr>bs_requests_running := Fin 1, bs_generation_tokens := Fin 7\<rparr>)]
     (mo_watchdog (monitor_new 0), metrics_new)))"
proof -
  let ?s = "snapshot_default\<lparr>bs_requests_running := Fin 1, bs_generation_tokens := Fin 7\<rparr>"
  let ?os = "[(scrape_at 10, ?s), (scrape_at 40, ?s)]" and ?w = "mo_watchdog (monitor_new 0)"
  have mk: "marks (wd_counters ?w) ?os = [10]"
    by (simp add: wd_counters_def counters_def monitor_new_def moved_def f_ne_def f_eq_def
        snapshot_default_def is_busy_def scrape_at_def)
  have busy: "is_busy ?s" by (simp add: is_busy_def)
  have eq: "?os = [(scrape_at 10, ?s)] @ [(scrape_at 40, ?s)]" by simp
  have so: "sorted_wrt (\<ge>) (marks (wd_counters ?w) ?os @ [wd_last_progress ?w])"
    unfolding mk by (simp add: monitor_new_def)
  have "\<forall>t \<in> insert (wd_last_progress ?w) (set (marks (wd_counters ?w) ?os)). t + 30 \<le> sp_t_check (scrape_at 40)"
    unfolding mk by (simp add: monitor_new_def scrape_at_def)
  moreover have "(0::nat) < 30" by simp
  ultimately show ?thesis using watchdog_stalled_iff[OF eq _ so] busy by blast
qed

text \<open>
  A scrape that brings no metrics - backend unreachable, body unreadable, or neither
  a KV-usage nor a llama.cpp metric in it - changes neither the published snapshot nor
  the stall signal nor the watchdog.
\<close>

theorem poll_keeps_last_reading:
  assumes "case sp_body sp of Body body d \<Rightarrow> \<not> pr_found_usage (parse_snapshot body)
      \<and> \<not> pr_found_llamacpp (parse_snapshot body) | _ \<Rightarrow> True"
  shows "poll_step cfg sp (st, m) = (st, m)"
  using assms by (cases "sp_body sp") (simp_all add: poll_step_def Let_def)

theorem poll_keeps_last_reading_witness:
  "poll_step backend_default (scrape_at 5) (monitor_new 0, metrics_new) = (monitor_new 0, metrics_new)"
  by (rule poll_keeps_last_reading) (simp add: scrape_at_def)

text \<open>A NaN counter reading is progress at every scrape, so it masks a stall.\<close>

lemma nan_counter_never_stalls:
  assumes "bs_generation_tokens s = NaN" and "sp_t_check sp < sp_t_progress sp + timeout" and "0 < timeout"
  shows "\<not> wd_stalled (fst (watchdog_step timeout sp s (w, m)))"
proof -
  have "moved (counters s) (wd_counters w)"
    using assms(1) by (simp add: moved_def counters_def wd_counters_def f_ne_def f_eq_def)
  then show ?thesis using assms(2,3) watchdog_step_simps[of timeout sp s w m] by auto
qed

section \<open>Waiting\<close>

lemma wait_for_done_iff:
  "wait_for P s evs = WaitPending \<longleftrightarrow> \<not> P s \<and> (\<forall>e \<in> set evs. \<exists>s'. e = Snap s' \<and> \<not> P s')"
proof (induction evs arbitrary: s)
  case Nil
  then show ?case by (simp add: wait_for.simps)
next
  case (Cons e es)
  then show ?case by (cases e) (simp_all add: wait_for.simps[of P s])
qed

end
