(* ===== verification/KvAdmission.thy ===== *)
theory KvAdmission
  imports Monitor Backpressure Registry
begin

text \<open>
  The KV-cache admission gate (src/scheduler/kv_admission.rs).  A request checks the last
  snapshot, may be parked until the usage falls, and is counted in \<open>delayed_count\<close> while
  it is parked.  The gate is a step function over the events the parked requests observe,
  so that any number of requests interleave.  Lemmas: the decision bands, no rejection in
  blocking mode or of bypassing requests, and the exactness of the delayed count.
\<close>

datatype kvm_decision = Accept | Delay | Reject

record kv_policy =
  kv_enabled :: bool
  kv_reject_threshold :: f64
  kv_delay_threshold :: f64
  kv_bypass_interactive :: bool
  kv_mode :: backpressure_mode
  kv_max_wait :: duration
  kv_retry_after_base :: duration
  kv_max_queue_depth :: nat

definition kv_policy_new :: "kv_policy_cfg \<Rightarrow> backpressure_mode \<Rightarrow> duration \<Rightarrow> duration \<Rightarrow> nat \<Rightarrow> kv_policy" where
  "kv_policy_new cfg mode max_wait base max_depth = \<lparr> kv_enabled = kvp_enabled cfg,
     kv_reject_threshold = kvp_reject_threshold cfg, kv_delay_threshold = kvp_delay_threshold cfg,
     kv_bypass_interactive = kvp_bypass_interactive cfg, kv_mode = mode, kv_max_wait = max_wait,
     kv_retry_after_base = base, kv_max_queue_depth = max_depth \<rparr>"

definition decide :: "kv_policy \<Rightarrow> f64 \<Rightarrow> kvm_decision" where
  "decide pol usage = (if f_lt (kv_reject_threshold pol) usage then Reject
     else if f_lt (kv_delay_threshold pol) usage then Delay else Accept)"

text \<open>In blocking mode the reject band is absorbed into the delay band.\<close>

definition effective_decision :: "kv_policy \<Rightarrow> f64 \<Rightarrow> kvm_decision" where
  "effective_decision pol usage = (case (decide pol usage, kv_mode pol) of
       (Reject, Blocking) \<Rightarrow> Delay | (d, _) \<Rightarrow> d)"

text \<open>Outcome of an admission: proceed, a 429 with its delay, or the panic of \<open>mul_f64\<close>.\<close>

datatype admission = Proceed | Rejected duration | Panicked

definition reject_after :: "nat \<Rightarrow> nat \<Rightarrow> duration \<Rightarrow> admission" where
  "reject_after depth max_depth base = (case fail_fast_retry_after depth max_depth base of
       Some d \<Rightarrow> Rejected d | None \<Rightarrow> Panicked)"

text \<open>The gate's shared state: the counter, the parked requests, the last snapshot, the metrics.\<close>

record kv_gate =
  kg_delayed :: u32
  kg_parked :: "nat list"
  kg_snapshot :: "backend_snapshot option"
  kg_closed :: bool
  kg_metrics :: metrics

definition inc_decision :: "string \<Rightarrow> metrics \<Rightarrow> metrics" where
  "inc_decision l m = m\<lparr>m_kv_decisions := inc_label l (m_kv_decisions m)\<rparr>"

text \<open>From the start of \<open>check\<close> to its result or to the first await; \<open>None\<close> means parked.\<close>

definition kv_check_start :: "kv_policy \<Rightarrow> bool \<Rightarrow> backend_snapshot option \<Rightarrow> u32 \<Rightarrow> metrics
    \<Rightarrow> admission option \<times> u32 \<times> metrics" where
  "kv_check_start pol is_interactive snap delayed m =
     (if \<not> kv_enabled pol then (Some Proceed, delayed, m)
      else if kv_bypass_interactive pol \<and> is_interactive then
        (Some Proceed, delayed, inc_decision ''bypass'' m)
      else case snap of None \<Rightarrow> (Some Proceed, delayed, m)
      | Some s \<Rightarrow>
         (case effective_decision pol (bs_kv_usage s) of
            Accept \<Rightarrow> (Some Proceed, delayed, inc_decision ''accept'' m)
          | Delay \<Rightarrow> (None, delayed + 1, inc_decision ''delay'' m)
          | Reject \<Rightarrow> (Some (reject_after (unat delayed) (kv_max_queue_depth pol) (kv_retry_after_base pol)),
                      delayed, inc_decision ''reject'' m)))"

definition below_delay :: "kv_policy \<Rightarrow> backend_snapshot \<Rightarrow> bool" where
  "below_delay pol s \<longleftrightarrow> f_le (bs_kv_usage s) (kv_delay_threshold pol)"

text \<open>
  The end of the wait.  The retry delay is computed while the request still counts as
  delayed; dropping the guard decrements the counter on every exit, cancellation included.
\<close>

definition kv_wait_end :: "kv_policy \<Rightarrow> wait_result \<Rightarrow> u32 \<Rightarrow> admission \<times> u32" where
  "kv_wait_end pol w delayed = (case w of
       WaitTimeout \<Rightarrow> (reject_after (unat delayed) (kv_max_queue_depth pol) (kv_retry_after_base pol), delayed - 1)
     | _ \<Rightarrow> (Proceed, delayed - 1))"

datatype kv_event = KvArrive nat bool | KvSnap backend_snapshot | KvClosed
  | KvTimeout nat | KvCancel nat

text \<open>A request whose wait is over at its first test leaves at once (\<open>wait_for\<close> tests first).
  Parked requests leave one after the other when a snapshot (or the closing) wakes them.\<close>

fun kv_release :: "kv_policy \<Rightarrow> nat list \<Rightarrow> u32 \<Rightarrow> (nat \<times> admission) list \<times> u32" where
  "kv_release pol [] d = ([], d)"
| "kv_release pol (i # is) d = (let (a, d') = kv_wait_end pol WaitDone d; (out, d'') = kv_release pol is d'
     in ((i, a) # out, d''))"

definition wait_over :: "kv_policy \<Rightarrow> kv_gate \<Rightarrow> bool" where
  "wait_over pol g \<longleftrightarrow> kg_closed g \<or>
     (case kg_snapshot g of Some s \<Rightarrow> below_delay pol s | None \<Rightarrow> False)"

definition kv_step :: "kv_policy \<Rightarrow> kv_event \<Rightarrow> kv_gate \<Rightarrow> (nat \<times> admission) list \<times> kv_gate" where
  "kv_step pol e g = (case e of
       KvArrive i ia \<Rightarrow>
         (let (r, d, m) = kv_check_start pol ia (kg_snapshot g) (kg_delayed g) (kg_metrics g) in
          case r of Some a \<Rightarrow> ([(i, a)], g\<lparr>kg_delayed := d, kg_metrics := m\<rparr>)
          | None \<Rightarrow>
              if wait_over pol g then
                (let (a, d') = kv_wait_end pol WaitDone d in ([(i, a)], g\<lparr>kg_delayed := d', kg_metrics := m\<rparr>))
              else ([], g\<lparr>kg_delayed := d, kg_metrics := m, kg_parked := kg_parked g @ [i]\<rparr>))
     | KvSnap s \<Rightarrow>
         (if below_delay pol s then
            (let (out, d) = kv_release pol (kg_parked g) (kg_delayed g)
             in (out, g\<lparr>kg_delayed := d, kg_parked := [], kg_snapshot := Some s\<rparr>))
          else ([], g\<lparr>kg_snapshot := Some s\<rparr>))
     | KvClosed \<Rightarrow>
         (let (out, d) = kv_release pol (kg_parked g) (kg_delayed g)
          in (out, g\<lparr>kg_delayed := d, kg_parked := [], kg_closed := True\<rparr>))
     | KvTimeout i \<Rightarrow>
         (if kv_mode pol \<noteq> Blocking \<and> i \<in> set (kg_parked g) then
            (let (a, d) = kv_wait_end pol WaitTimeout (kg_delayed g)
             in ([(i, a)], g\<lparr>kg_delayed := d, kg_parked := remove1 i (kg_parked g)\<rparr>))
          else ([], g))
     | KvCancel i \<Rightarrow>
         (if i \<in> set (kg_parked g)
          then ([], g\<lparr>kg_delayed := kg_delayed g - 1, kg_parked := remove1 i (kg_parked g)\<rparr>)
          else ([], g)))"

definition kv_gate_new :: "backend_snapshot option \<Rightarrow> kv_gate" where
  "kv_gate_new s = \<lparr> kg_delayed = 0, kg_parked = [], kg_snapshot = s, kg_closed = False,
     kg_metrics = metrics_new \<rparr>"

fun kv_run :: "kv_policy \<Rightarrow> kv_event list \<Rightarrow> kv_gate \<Rightarrow> (nat \<times> admission) list \<times> kv_gate" where
  "kv_run pol [] g = ([], g)"
| "kv_run pol (e # es) g = (let (o1, g1) = kv_step pol e g; (o2, g2) = kv_run pol es g1 in (o1 @ o2, g2))"

section \<open>The bands\<close>

text \<open>
  C34. The admission bands: an enabled gate lets a request that does not bypass it through
  at once exactly when the usage is not above the delay threshold, parks it when the
  usage lies in the delay band (in blocking mode also above it), and rejects it when the
  usage is above the reject threshold in the other modes; the delayed count grows exactly
  for parked requests.
\<close>

theorem kv_check_bands:
  assumes "kv_enabled pol" and "\<not> (kv_bypass_interactive pol \<and> ia)"
    and "bs_kv_usage s \<noteq> NaN" and "f_lt (kv_delay_threshold pol) (kv_reject_threshold pol)"
  shows "case kv_check_start pol ia (Some s) d m of (r, d', m') \<Rightarrow>
      (r = Some Proceed \<longleftrightarrow> f_le (bs_kv_usage s) (kv_delay_threshold pol))
    \<and> (r = None \<longleftrightarrow> f_lt (kv_delay_threshold pol) (bs_kv_usage s)
         \<and> (kv_mode pol = Blocking \<or> f_le (bs_kv_usage s) (kv_reject_threshold pol)))
    \<and> d' = (if r = None then d + 1 else d)"
proof -
  let ?u = "bs_kv_usage s"
  have nn: "kv_delay_threshold pol \<noteq> NaN" "kv_reject_threshold pol \<noteq> NaN"
    using assms(4) by (cases "kv_delay_threshold pol"; cases "kv_reject_threshold pol"; simp)+
  have le: "f_le ?u (kv_delay_threshold pol) \<longleftrightarrow> \<not> f_lt (kv_delay_threshold pol) ?u"
    "f_le ?u (kv_reject_threshold pol) \<longleftrightarrow> \<not> f_lt (kv_reject_threshold pol) ?u"
    using f_not_lt nn assms(3) by blast+
  have up: "f_lt (kv_reject_threshold pol) ?u \<Longrightarrow> f_lt (kv_delay_threshold pol) ?u"
    using assms(4) f_lt_trans by blast
  have nr: "reject_after a b c \<noteq> Proceed" for a b c by (simp add: reject_after_def split: option.split)
  show ?thesis using assms(1,2) up nr
    by (cases "kv_mode pol") (auto simp: kv_check_start_def effective_decision_def decide_def le)
qed

definition pol_default :: "backpressure_mode \<Rightarrow> kv_policy" where
  "pol_default mode = \<lparr> kv_enabled = True, kv_reject_threshold = Fin (9 / 10), kv_delay_threshold = Fin (8 / 10),
     kv_bypass_interactive = True, kv_mode = mode, kv_max_wait = secs 1, kv_retry_after_base = secs 1,
     kv_max_queue_depth = 100 \<rparr>"

theorem kv_check_bands_witness:
  "fst (kv_check_start (pol_default Hybrid) False (Some (snapshot_default\<lparr>bs_kv_usage := Fin (17 / 20)\<rparr>)) 0 metrics_new) = None"
  using kv_check_bands[of "pol_default Hybrid" False "snapshot_default\<lparr>bs_kv_usage := Fin (17 / 20)\<rparr>" 0 metrics_new]
  by (simp add: pol_default_def split_beta)

section \<open>Who is never rejected\<close>

lemma kv_release_simps [simp]:
  "fst (kv_release pol (i # is) d) = (i, Proceed) # fst (kv_release pol is (d - 1))"
  "snd (kv_release pol (i # is) d) = snd (kv_release pol is (d - 1))"
  by (simp_all add: kv_wait_end_def split_beta)

lemma kv_release_spec:
  "fst (kv_release pol is d) = map (\<lambda>i. (i, Proceed)) is \<and> snd (kv_release pol is d) = d - of_nat (length is)"
  by (induction "is" arbitrary: d) (simp_all add: algebra_simps del: kv_release.simps(2))

lemma kv_arrive_blocking:
  "kv_mode pol = Blocking \<Longrightarrow> fst (kv_check_start pol ia s d m) \<in> {None, Some Proceed}"
  by (cases s) (auto simp: kv_check_start_def effective_decision_def decide_def)

lemma kv_step_blocking:
  assumes "kv_mode pol = Blocking"
  shows "(i, a) \<in> set (fst (kv_step pol e g)) \<Longrightarrow> a = Proceed"
proof (cases e)
  case (KvArrive j ia)
  then show "(i, a) \<in> set (fst (kv_step pol e g)) \<Longrightarrow> a = Proceed"
    using kv_arrive_blocking[OF assms, of ia "kg_snapshot g" "kg_delayed g" "kg_metrics g"]
    by (auto simp: kv_step_def split_beta kv_wait_end_def split: if_splits)
qed (auto simp: kv_step_def split_beta kv_release_spec assms split: if_splits)

lemma kv_run_Cons: "kv_run pol (e # es) g = (fst (kv_step pol e g) @ fst (kv_run pol es (snd (kv_step pol e g))),
    snd (kv_run pol es (snd (kv_step pol e g))))"
  by (simp add: split_beta Let_def)

text \<open>
  The blocking contract: in blocking mode the gate never produces a 429 - along every
  sequence of arrivals, snapshots, closings and cancellations, each request that leaves
  the gate leaves it admitted.
\<close>

theorem kv_blocking_never_rejects:
  assumes "kv_mode pol = Blocking"
  shows "(i, a) \<in> set (fst (kv_run pol es g)) \<Longrightarrow> a = Proceed"
  using kv_step_blocking[OF assms]
  by (induction es arbitrary: g) (auto simp: kv_run_Cons simp del: kv_run.simps(2))

theorem kv_blocking_never_rejects_witness:
  "(1, Proceed) \<in> set (fst (kv_run (pol_default Blocking) [KvArrive 1 False, KvSnap snapshot_default]
     (kv_gate_new (Some (snapshot_default\<lparr>bs_kv_usage := Fin 1\<rparr>)))))"
proof -
  let ?out = "fst (kv_run (pol_default Blocking) [KvArrive 1 False, KvSnap snapshot_default]
     (kv_gate_new (Some (snapshot_default\<lparr>bs_kv_usage := Fin 1\<rparr>))))"
  have m: "kv_mode (pol_default Blocking) = Blocking" by (simp add: pol_default_def)
  have "map fst ?out = [1]"
    by (simp add: kv_step_def kv_check_start_def kv_gate_new_def pol_default_def effective_decision_def
        decide_def below_delay_def wait_over_def kv_wait_end_def snapshot_default_def)
  then obtain a where "(1, a) \<in> set ?out" by (auto simp: map_eq_Cons_conv)
  with kv_blocking_never_rejects[OF m this] show ?thesis by simp
qed

text \<open>
  Interactive requests bypass the gate: with \<open>bypass_interactive\<close> set, an
  interactive request proceeds at once, whatever the usage and the mode, without being
  counted as delayed.
\<close>

theorem kv_interactive_bypass:
  assumes "kv_bypass_interactive pol"
  shows "fst (kv_step pol (KvArrive i True) g) = [(i, Proceed)]
    \<and> kg_delayed (snd (kv_step pol (KvArrive i True) g)) = kg_delayed g
    \<and> kg_parked (snd (kv_step pol (KvArrive i True) g)) = kg_parked g"
  using assms by (simp add: kv_step_def kv_check_start_def)

theorem kv_interactive_bypass_witness:
  "fst (kv_step (pol_default FailFast) (KvArrive 3 True)
     (kv_gate_new (Some (snapshot_default\<lparr>bs_kv_usage := Fin 1\<rparr>)))) = [(3, Proceed)]"
  using kv_interactive_bypass[of "pol_default FailFast" 3] by (simp add: pol_default_def)

section \<open>The delayed count\<close>

definition kv_gate_inv :: "kv_gate \<Rightarrow> bool" where
  "kv_gate_inv g \<longleftrightarrow> kg_delayed g = of_nat (length (kg_parked g))"

lemma kv_check_start_count:
  "fst (snd (kv_check_start pol ia s d m)) = (if fst (kv_check_start pol ia s d m) = None then d + 1 else d)"
  by (simp add: kv_check_start_def split: option.split kvm_decision.split)

lemma remove_parked: "i \<in> set ps \<Longrightarrow> of_nat (length ps) - 1 = (of_nat (length (remove1 i ps)) :: u32)"
  using length_filter_remove1[of i ps] by (metis add_diff_cancel_right' of_nat_1 of_nat_add)

lemma kv_step_inv: "kv_gate_inv g \<Longrightarrow> kv_gate_inv (snd (kv_step pol e g))"
proof (cases e)
  case (KvArrive i ia)
  then show "kv_gate_inv g \<Longrightarrow> ?thesis"
    using kv_check_start_count[of pol ia "kg_snapshot g" "kg_delayed g" "kg_metrics g"]
    by (cases "fst (kv_check_start pol ia (kg_snapshot g) (kg_delayed g) (kg_metrics g))")
      (simp_all add: kv_step_def split_beta kv_gate_inv_def kv_wait_end_def add.commute)
next
  case (KvTimeout i)
  then show "kv_gate_inv g \<Longrightarrow> ?thesis"
    by (simp add: kv_step_def kv_gate_inv_def kv_wait_end_def remove_parked)
next
  case (KvCancel i)
  then show "kv_gate_inv g \<Longrightarrow> ?thesis"
    by (simp add: kv_step_def kv_gate_inv_def remove_parked)
qed (simp_all add: kv_step_def kv_gate_inv_def split_beta kv_release_spec)

lemma kv_run_inv: "kv_gate_inv g \<Longrightarrow> kv_gate_inv (snd (kv_run pol es g))"
  by (induction es arbitrary: g) (auto simp: kv_run_Cons kv_step_inv simp del: kv_run.simps(2))

text \<open>
  The delayed count that queue reports and Retry-After use is exact: along every run
  of the gate, with its timeouts and cancelled requests, the counter equals the number of
  parked requests (fewer than 2^32), so no exit path leaks or double-releases a count.
\<close>

theorem kv_delayed_count_exact:
  assumes "length (kg_parked (snd (kv_run pol es (kv_gate_new s)))) < 2 ^ 32"
  shows "unat (kg_delayed (snd (kv_run pol es (kv_gate_new s)))) = length (kg_parked (snd (kv_run pol es (kv_gate_new s))))"
  using kv_run_inv[of "kv_gate_new s" pol es] assms unat_of_nat_u32
  by (simp add: kv_gate_inv_def kv_gate_new_def)

theorem kv_delayed_count_exact_witness:
  "kg_delayed (snd (kv_run (pol_default Hybrid) [KvArrive 1 False, KvArrive 2 False, KvCancel 1]
     (kv_gate_new (Some (snapshot_default\<lparr>bs_kv_usage := Fin (17 / 20)\<rparr>))))) = 1"
proof -
  let ?g = "snd (kv_run (pol_default Hybrid) [KvArrive 1 False, KvArrive 2 False, KvCancel 1]
     (kv_gate_new (Some (snapshot_default\<lparr>bs_kv_usage := Fin (17 / 20)\<rparr>))))"
  have p: "kg_parked ?g = [2]"
    by (simp add: kv_step_def kv_check_start_def kv_gate_new_def pol_default_def effective_decision_def
        decide_def below_delay_def wait_over_def)
  then have "unat (kg_delayed ?g) = 1"
    using kv_delayed_count_exact[of "pol_default Hybrid" "[KvArrive 1 False, KvArrive 2 False, KvCancel 1]"
        "Some (snapshot_default\<lparr>bs_kv_usage := Fin (17 / 20)\<rparr>)"] by simp
  then show ?thesis by (metis of_nat_1 of_nat_unat ucast_id)
qed

end
