(* ===== verification/Progress.thy ===== *)
theory Progress
  imports FlowCore
begin

text \<open>
  Token progress per flow (src/scheduler/flow_progress.rs).  The tracker keeps one
  aggregate entry per flow; its specification is the list of the flow's active requests,
  each with its estimate and what was delivered so far.  Lemmas: the tracker refines the
  lists along every run, and the near-done test is exact arithmetic.
\<close>

record progress_entry =
  pe_estimated :: i64
  pe_delivered :: i64

type_synonym flow_progress = "(flow_id, progress_entry) hmap"

definition progress_new :: flow_progress where "progress_new = []"

definition progress_register :: "flow_id \<Rightarrow> i64 \<Rightarrow> flow_progress \<Rightarrow> flow_progress" where
  "progress_register f est m =
     (let e = (case hget m f of Some e \<Rightarrow> e | None \<Rightarrow> \<lparr> pe_estimated = 0, pe_delivered = 0 \<rparr>)
      in hput f (e\<lparr>pe_estimated := wrap_i64 (pe_estimated e + est)\<rparr>) m)"

definition progress_update_delivered :: "flow_id \<Rightarrow> i64 \<Rightarrow> flow_progress \<Rightarrow> flow_progress" where
  "progress_update_delivered f delta m = (case hget m f of None \<Rightarrow> m
     | Some e \<Rightarrow> hput f (e\<lparr>pe_delivered := wrap_i64 (pe_delivered e + delta)\<rparr>) m)"

text \<open>
  \<open>unregister\<close> is two accesses to the map: under the lock of the entry it subtracts, or finds that nothing is left;
  then it drops the lock, and removes the flow's entry in a second access, whatever it holds by then.
\<close>

definition progress_subtract :: "flow_id \<Rightarrow> i64 \<Rightarrow> i64 \<Rightarrow> flow_progress \<Rightarrow> flow_progress \<times> bool" where
  "progress_subtract f est del m = (case hget m f of None \<Rightarrow> (m, False)
     | Some e \<Rightarrow>
         let new_est = sat_i64 (pe_estimated e - est); new_del = sat_i64 (pe_delivered e - del) in
         if new_est = 0 \<and> new_del = 0 then (m, True)
         else (hput f \<lparr> pe_estimated = new_est, pe_delivered = new_del \<rparr> m, False))"

definition progress_remove :: "flow_id \<Rightarrow> flow_progress \<Rightarrow> flow_progress" where
  "progress_remove f m = hdel f m"

definition progress_unregister :: "flow_id \<Rightarrow> i64 \<Rightarrow> i64 \<Rightarrow> flow_progress \<Rightarrow> flow_progress" where
  "progress_unregister f est del m = (let (m1, nothing_left) = progress_subtract f est del m
     in if nothing_left then progress_remove f m1 else m1)"

lemma progress_unregister_eq:
  "progress_unregister f est del m = (case hget m f of None \<Rightarrow> m
     | Some e \<Rightarrow>
         let new_est = sat_i64 (pe_estimated e - est); new_del = sat_i64 (pe_delivered e - del) in
         if new_est = 0 \<and> new_del = 0 then hdel f m
         else hput f \<lparr> pe_estimated = new_est, pe_delivered = new_del \<rparr> m)"
  by (simp add: progress_unregister_def progress_subtract_def progress_remove_def Let_def split: option.split)

definition delivered_for :: "flow_progress \<Rightarrow> flow_id \<Rightarrow> i64" where
  "delivered_for m f = (case hget m f of Some e \<Rightarrow> pe_delivered e | None \<Rightarrow> 0)"

definition entry_near_done :: "f64 \<Rightarrow> progress_entry \<Rightarrow> bool" where
  "entry_near_done threshold e \<longleftrightarrow> 0 < pe_estimated e
     \<and> f_le threshold (f_div (f_of_int (pe_delivered e)) (f_of_int (pe_estimated e)))"

definition is_near_done :: "flow_progress \<Rightarrow> flow_id \<Rightarrow> f64 \<Rightarrow> bool" where
  "is_near_done m f threshold = (case hget m f of Some e \<Rightarrow> entry_near_done threshold e | None \<Rightarrow> False)"

definition any_flow_near_done :: "flow_progress \<Rightarrow> f64 \<Rightarrow> bool" where
  "any_flow_near_done m threshold = list_ex (\<lambda>(f, e). entry_near_done threshold e) m"

lemma any_flow_near_done_iff:
  "hwf m \<Longrightarrow> any_flow_near_done m t \<longleftrightarrow> (\<exists>f. is_near_done m f t)"
  by (force simp: any_flow_near_done_def is_near_done_def list_ex_iff hwf_in_set split: option.splits)

section \<open>The specification: active requests\<close>

type_synonym requests = "flow_id \<Rightarrow> (int \<times> int) list"

text \<open>
  The accesses to the map: a request registers, delivers, and leaves by the first access of \<open>unregister\<close>; the second one,
  if it follows, belongs to no live request any more.
\<close>

datatype progress_op = PRegister flow_id int | PDeliver flow_id nat int | PSubtract flow_id nat | PRemove flow_id

definition spec_op :: "progress_op \<Rightarrow> requests \<Rightarrow> requests" where
  "spec_op a R = (case a of
       PRegister f e \<Rightarrow> R(f := R f @ [(e, 0)])
     | PDeliver f k d \<Rightarrow> R(f := (R f)[k := (fst (R f ! k), snd (R f ! k) + d)])
     | PSubtract f k \<Rightarrow> R(f := take k (R f) @ drop (Suc k) (R f))
     | PRemove f \<Rightarrow> R)"

text \<open>
  The calls of the code, with the flows whose entry is still to be removed: a request unregisters with its own
  estimate and delivered count.
\<close>

definition code_op :: "requests \<Rightarrow> progress_op \<Rightarrow> flow_progress \<times> flow_id set \<Rightarrow> flow_progress \<times> flow_id set" where
  "code_op R a mx = (let (m, X) = mx in case a of
       PRegister f e \<Rightarrow> (progress_register f e m, X)
     | PDeliver f k d \<Rightarrow> (progress_update_delivered f d m, X)
     | PSubtract f k \<Rightarrow> (let (m1, nothing_left) = progress_subtract f (fst (R f ! k)) (snd (R f ! k)) m
                        in (m1, if nothing_left then insert f X else X))
     | PRemove f \<Rightarrow> (progress_remove f m, X - {f}))"

definition tot_est :: "(int \<times> int) list \<Rightarrow> int" where "tot_est rs = sum_list (map fst rs)"
definition tot_del :: "(int \<times> int) list \<Rightarrow> int" where "tot_del rs = sum_list (map snd rs)"

definition requests_ok :: "(int \<times> int) list \<Rightarrow> bool" where
  "requests_ok rs \<longleftrightarrow> (\<forall>(e, d) \<in> set rs. 0 < e \<and> 0 \<le> d) \<and> tot_est rs \<le> i64_max \<and> tot_del rs \<le> i64_max"

text \<open>
  What the callers keep to: positive estimates, live requests, totals in range - and no request of a flow registers while the
  flow's entry is about to be removed.
\<close>

definition op_ok :: "requests \<Rightarrow> flow_id set \<Rightarrow> progress_op \<Rightarrow> bool" where
  "op_ok R X a \<longleftrightarrow> (case a of PRegister f e \<Rightarrow> 0 < e \<and> f \<notin> X
     | PDeliver f k d \<Rightarrow> k < length (R f) \<and> 0 \<le> d
     | PSubtract f k \<Rightarrow> k < length (R f)
     | PRemove f \<Rightarrow> f \<in> X)
   \<and> (\<forall>f. requests_ok (R f) \<longrightarrow> requests_ok (spec_op a R f))"

definition tracks :: "flow_progress \<times> flow_id set \<Rightarrow> requests \<Rightarrow> bool" where
  "tracks mx R \<longleftrightarrow> hwf (fst mx) \<and> (\<forall>f. requests_ok (R f) \<and> (f \<in> snd mx \<longrightarrow> R f = [])
     \<and> (f \<notin> snd mx \<longrightarrow> hget (fst mx) f = (if R f = [] then None
       else Some \<lparr> pe_estimated = tot_est (R f), pe_delivered = tot_del (R f) \<rparr>)))"

lemma tot_nonneg: "requests_ok rs \<Longrightarrow> 0 \<le> tot_est rs \<and> 0 \<le> tot_del rs"
  by (force simp: requests_ok_def tot_est_def tot_del_def intro!: sum_list_nonneg)

lemma tot_pos: "requests_ok rs \<Longrightarrow> rs \<noteq> [] \<Longrightarrow> 0 < tot_est rs"
proof -
  assume ok: "requests_ok rs" and "rs \<noteq> []"
  then obtain e d rs' where rs: "rs = (e, d) # rs'" by (cases rs) auto
  with ok have "0 < e" and "0 \<le> sum_list (map fst rs')"
    by (force simp: requests_ok_def intro!: sum_list_nonneg)+
  then show ?thesis by (simp add: rs tot_est_def)
qed

lemma tot_in_i64: "requests_ok rs \<Longrightarrow> in_i64 (tot_est rs) \<and> in_i64 (tot_del rs)"
  using tot_nonneg[of rs] by (simp add: requests_ok_def in_i64_def i64_min_def)

lemma tot_update:
  assumes "k < length rs"
  shows "tot_est (rs[k := (fst (rs ! k), snd (rs ! k) + d)]) = tot_est rs"
    and "tot_del (rs[k := (fst (rs ! k), snd (rs ! k) + d)]) = tot_del rs + d"
proof -
  have "map fst rs = map fst (rs[k := (fst (rs ! k), snd (rs ! k) + d)])"
    using assms by (simp add: list_eq_iff_nth_eq nth_list_update)
  then show "tot_est (rs[k := (fst (rs ! k), snd (rs ! k) + d)]) = tot_est rs"
    by (simp add: tot_est_def)
  show "tot_del (rs[k := (fst (rs ! k), snd (rs ! k) + d)]) = tot_del rs + d"
    using assms arg_cong[OF id_take_nth_drop[OF assms], of tot_del]
    by (simp add: tot_del_def upd_conv_take_nth_drop)
qed

lemma tot_remove:
  assumes "k < length rs"
  shows "tot_est (take k rs @ drop (Suc k) rs) = tot_est rs - fst (rs ! k)"
    and "tot_del (take k rs @ drop (Suc k) rs) = tot_del rs - snd (rs ! k)"
proof -
  have "rs = take k rs @ rs ! k # drop (Suc k) rs" using assms by (rule id_take_nth_drop)
  then have "tot_est rs = tot_est (take k rs @ rs ! k # drop (Suc k) rs)"
    "tot_del rs = tot_del (take k rs @ rs ! k # drop (Suc k) rs)" by simp_all
  then show "tot_est (take k rs @ drop (Suc k) rs) = tot_est rs - fst (rs ! k)"
    and "tot_del (take k rs @ drop (Suc k) rs) = tot_del rs - snd (rs ! k)"
    by (simp_all add: tot_est_def tot_del_def)
qed

lemma tracksD:
  assumes "tracks (m, X) R"
  shows "hwf m" "requests_ok (R f)" "f \<in> X \<Longrightarrow> R f = []"
    "f \<notin> X \<Longrightarrow> hget m f = (if R f = [] then None else Some \<lparr> pe_estimated = tot_est (R f), pe_delivered = tot_del (R f) \<rparr>)"
  using assms by (auto simp: tracks_def)

lemma tracks_step:
  assumes t: "tracks (m, X) R" and ok: "op_ok R X a"
  shows "tracks (code_op R a (m, X)) (spec_op a R)"
proof (cases a)
  case (PRegister g e)
  have ok': "requests_ok (spec_op a R f)" for f using tracksD(2)[OF t] ok by (simp add: op_ok_def)
  have gX: "g \<notin> X" using ok PRegister by (simp add: op_ok_def)
  have tot: "tot_est (R g @ [(e, 0)]) = tot_est (R g) + e" "tot_del (R g @ [(e, 0)]) = tot_del (R g)"
    "R g = [] \<Longrightarrow> tot_est (R g) = 0 \<and> tot_del (R g) = 0"
    by (simp_all add: tot_est_def tot_del_def)
  have "in_i64 (tot_est (R g) + e)" using tot_in_i64[OF ok', of g] PRegister tot by (simp add: spec_op_def)
  then have "progress_register g e m = hput g \<lparr> pe_estimated = tot_est (R g) + e, pe_delivered = tot_del (R g) \<rparr> m"
    using tracksD(4)[OF t gX] tot(3) by (auto simp: progress_register_def Let_def)
  then show ?thesis using PRegister ok' tracksD[OF t] gX by (auto simp: tracks_def code_op_def spec_op_def tot)
next
  case (PDeliver g k d)
  have ok': "requests_ok (spec_op a R f)" for f using tracksD(2)[OF t] ok by (simp add: op_ok_def)
  have k: "k < length (R g)" using ok PDeliver by (simp add: op_ok_def)
  then have ne: "R g \<noteq> []" by auto
  then have "g \<notin> X" using tracksD(3)[OF t] by blast
  then show ?thesis using PDeliver ok' tot_in_i64[OF ok', of g] tracksD[OF t] tot_update[OF k, of d] ne
    by (auto simp: tracks_def code_op_def spec_op_def progress_update_delivered_def)
next
  case (PSubtract g k)
  have ok': "requests_ok (spec_op a R f)" for f using tracksD(2)[OF t] ok by (simp add: op_ok_def)
  let ?rs = "take k (R g) @ drop (Suc k) (R g)"
  have k: "k < length (R g)" using ok PSubtract by (simp add: op_ok_def)
  then have ne: "R g \<noteq> []" by auto
  then have gX: "g \<notin> X" using tracksD(3)[OF t] by blast
  have rs: "requests_ok ?rs" using ok'[of g] PSubtract by (simp add: spec_op_def)
  have left: "?rs = [] \<longleftrightarrow> tot_est ?rs = 0 \<and> tot_del ?rs = 0"
    using tot_pos[OF rs] by (cases "?rs = []") (auto simp: tot_est_def tot_del_def)
  have "progress_subtract g (fst (R g ! k)) (snd (R g ! k)) m = (if ?rs = [] then (m, True)
      else (hput g \<lparr> pe_estimated = tot_est ?rs, pe_delivered = tot_del ?rs \<rparr> m, False))"
    unfolding left using tot_in_i64[OF rs] tracksD(4)[OF t gX] tot_remove[OF k] ne
    by (simp add: progress_subtract_def Let_def)
  then show ?thesis using PSubtract ok' tracksD[OF t] gX by (auto simp: tracks_def code_op_def spec_op_def)
next
  case (PRemove g)
  then have "R g = []" using ok tracksD(3)[OF t] by (simp add: op_ok_def)
  then show ?thesis using PRemove tracksD[OF t] by (auto simp: tracks_def code_op_def spec_op_def progress_remove_def)
qed

fun run_progress :: "progress_op list \<Rightarrow> (flow_progress \<times> flow_id set) \<times> requests \<Rightarrow> (flow_progress \<times> flow_id set) \<times> requests" where
  "run_progress [] s = s"
| "run_progress (a # as) (mx, R) = run_progress as (code_op R a mx, spec_op a R)"

fun run_ok :: "progress_op list \<Rightarrow> (flow_progress \<times> flow_id set) \<times> requests \<Rightarrow> bool" where
  "run_ok [] s = True"
| "run_ok (a # as) (mx, R) = (op_ok R (snd mx) a \<and> run_ok as (code_op R a mx, spec_op a R))"

definition progress_start :: "(flow_progress \<times> flow_id set) \<times> requests" where
  "progress_start = ((progress_new, {}), \<lambda>_. [])"

lemma tracks_run:
  "tracks mx R \<Longrightarrow> run_ok as (mx, R) \<Longrightarrow> tracks (fst (run_progress as (mx, R))) (snd (run_progress as (mx, R)))"
proof (induction as arbitrary: mx R)
  case (Cons a as)
  then have "tracks (code_op R a mx) (spec_op a R)" using tracks_step[of "fst mx" "snd mx" R a] by simp
  then show ?case using Cons by simp
qed simp



text \<open>
  What happens otherwise: a request that registers between the two accesses is forgotten, as the entry that it has been added to is
  removed; and the tracker counts nothing for a flow with a live request.
\<close>

theorem register_during_unregister_lost:
  assumes "progress_subtract f est del m = (m1, True)"
  shows "hget (progress_remove f (progress_register f est1 m1)) f = None
    \<and> hget (progress_register f est1 (progress_remove f m1)) f = Some \<lparr> pe_estimated = wrap_i64 est1, pe_delivered = 0 \<rparr>"
  using assms by (simp add: progress_remove_def progress_register_def)

theorem register_during_unregister_lost_witness:
  "hget (progress_remove ''a'' (progress_register ''a'' 7 (progress_register ''a'' 5 progress_new))) ''a'' = None"
  using register_during_unregister_lost[of "''a''" 5 0 "progress_register ''a'' 5 progress_new" "progress_register ''a'' 5 progress_new" 7]
  by (simp add: progress_subtract_def progress_register_def progress_new_def wrap_i64_def sat_i64_def i64_min_def i64_max_def Let_def)

section \<open>The near-done test\<close>

lemma lit_0_9: "lit (9 / 10) = Fin (8106479329266893 / 2 ^ 53)"
proof -
  have "rnd (9 / 10) = Fin (of_int (round_even (9 / 10 / 2 powi (- 1 - 52))) * 2 powi (- 1 - 52))"
    by (rule rnd_at_exp) (simp_all add: power_int_minus)
  moreover have "round_even (9 / 10 / 2 powi (- 1 - 52)) = 8106479329266893"
  proof -
    have "(9 / 10 / 2 powi (- 1 - 52) :: rat) = 40532396646334464 / 5" by (simp add: power_int_minus)
    moreover have "\<lfloor>40532396646334464 / 5 :: rat\<rfloor> = 8106479329266892" by (rule floor_unique) simp_all
    ultimately show ?thesis by (simp add: round_even_def Let_def)
  qed
  ultimately show ?thesis by (simp add: lit_def power_int_minus)
qed

lemma near_done_div:
  assumes "0 < e" and "e \<le> 2 ^ 50" and "0 \<le> d" and "d \<le> 2 ^ 53"
  shows "f_le (lit (9 / 10)) (f_div (f_of_int d) (f_of_int e)) \<longleftrightarrow> 9 * e \<le> 10 * d"
proof -
  let ?x = "of_int d / of_int e :: rat"
  have e: "(0::rat) < of_int e" using assms by simp
  have eq: "f_div (f_of_int d) (f_of_int e) = rnd ?x"
    using assms by (simp add: f_of_int_exact f_div_def)
  show ?thesis
  proof (cases "9 * e \<le> 10 * d")
    case True
    then have "(of_int (9 * e) :: rat) \<le> of_int (10 * d)" by (simp only: of_int_le_iff)
    then have "9 / 10 \<le> ?x" using e by (simp add: field_simps)
    then show ?thesis using True by (simp add: eq lit_def rnd_mono)
  next
    case False
    then have "10 * d + 1 \<le> 9 * e" by simp
    then have "(of_int (10 * d + 1) :: rat) \<le> of_int (9 * e)" by (simp only: of_int_le_iff)
    then have x: "10 * of_int d + 1 \<le> (9 * of_int e :: rat)" by simp
    have "(of_int e :: rat) \<le> of_int (2 ^ 50)" using assms(2) by (simp only: of_int_le_iff)
    then have "of_int d * 2 ^ 53 \<le> (8106479329266892 :: rat) * of_int e" using x by simp
    then have "?x \<le> of_int 8106479329266892 / 2 ^ 53" using e by (simp add: field_simps)
    from rnd_mono[OF this] have "f_le (rnd ?x) (Fin (of_int 8106479329266892 / 2 ^ 53))"
      by (subst (asm) rnd_dyadic_pos) simp_all
    then have "\<not> f_le (lit (9 / 10)) (rnd ?x)" unfolding lit_0_9 by (cases "rnd ?x") auto
    then show ?thesis using False by (simp add: eq)
  qed
qed

text \<open>
  Predictive admission decides by exact arithmetic although it divides in binary64:
  for estimates up to 2^50 tokens, some tracked flow is reported near done at the
  threshold 0.9 if and only if it has a positive estimate of which at least nine tenths
  are delivered.
\<close>

theorem any_flow_near_done_exact:
  assumes "hwf m"
    and "\<And>f e. hget m f = Some e \<Longrightarrow> pe_estimated e \<le> 2 ^ 50 \<and> 0 \<le> pe_delivered e \<and> pe_delivered e \<le> 2 ^ 53"
  shows "any_flow_near_done m (lit (9 / 10)) \<longleftrightarrow>
    (\<exists>f e. hget m f = Some e \<and> 0 < pe_estimated e \<and> 9 * pe_estimated e \<le> 10 * pe_delivered e)"
  unfolding any_flow_near_done_iff[OF assms(1)] is_near_done_def entry_near_done_def
  using assms(2) near_done_div by (auto split: option.splits) blast+

theorem any_flow_near_done_exact_witness:
  "any_flow_near_done [(''a'', \<lparr> pe_estimated = 10, pe_delivered = 9 \<rparr>)] (lit (9 / 10))"
proof (rule any_flow_near_done_exact[THEN iffD2])
  show "\<exists>f e. hget [(''a'', \<lparr> pe_estimated = 10, pe_delivered = 9 \<rparr>)] f = Some e
      \<and> 0 < pe_estimated e \<and> 9 * pe_estimated e \<le> 10 * pe_delivered e"
    by (rule exI[of _ "''a''"]) simp
qed (auto simp: hwf_def hkeys_def split: if_splits)

end
