(* ===== verification/Gates.thy ===== *)
theory Gates
  imports Progress Metrics
begin

text \<open>
  The admission gates in front of the DRR queue: the KV-pressure concurrency cap
  (src/scheduler/pressure_cap.rs), starvation detection (src/scheduler/starvation.rs) and
  the completion bias gate (src/scheduler/completion_bias.rs).  The gate is an async
  loop: it becomes a function of the observations it makes, in order, one at each point
  where the source reads the clock, the gauge, the flow or the tracker.
\<close>

section \<open>The pressure cap\<close>

definition effective_max :: "kv_pressure_cfg \<Rightarrow> nat \<Rightarrow> f64 \<Rightarrow> nat" where
  "effective_max cfg max_active_flows pressure =
     (if \<not> kp_enabled cfg then max_active_flows
      else case map th_max_flows (filter (\<lambda>t. f_le (th_at t) pressure) (kp_thresholds cfg)) of
        [] \<Rightarrow> max_active_flows
      | ms \<Rightarrow> min (min_list ms) max_active_flows)"

lemma effective_max_eq:
  "kp_enabled cfg \<Longrightarrow> effective_max cfg mx p =
     Min (insert mx (th_max_flows ` {t \<in> set (kp_thresholds cfg). f_le (th_at t) p}))"
proof -
  assume en: "kp_enabled cfg"
  define ms where "ms = map th_max_flows (filter (\<lambda>t. f_le (th_at t) p) (kp_thresholds cfg))"
  have set: "set ms = th_max_flows ` {t \<in> set (kp_thresholds cfg). f_le (th_at t) p}"
    by (simp add: ms_def)
  have "effective_max cfg mx p = (if ms = [] then mx else min (min_list ms) mx)"
    unfolding effective_max_def ms_def[symmetric] using en
    by (cases ms) (simp_all del: min_list.simps)
  also have "\<dots> = Min (insert mx (set ms))"
  proof (cases "ms = []")
    case False
    then have "Min (insert mx (set ms)) = min mx (Min (set ms))" by (intro Min_insert) simp_all
    with False show ?thesis using min_list_Min[OF False] by (simp only: if_False min.commute)
  qed simp
  finally show ?thesis by (simp only: set)
qed

text \<open>
  The concurrency cap is sound: with a validated ladder it lies between 1 and
  \<open>max_active_flows\<close>, it is the minimum over the thresholds that the pressure has
  reached, and it never rises when the pressure rises.
\<close>

theorem effective_max_sound:
  assumes "kp_enabled cfg \<Longrightarrow> ladder_ok mx (kp_thresholds cfg)" and "1 \<le> mx" and "f_le p q"
  shows "1 \<le> effective_max cfg mx p \<and> effective_max cfg mx p \<le> mx
    \<and> effective_max cfg mx q \<le> effective_max cfg mx p
    \<and> (kp_enabled cfg \<longrightarrow> (\<forall>t \<in> set (kp_thresholds cfg). f_le (th_at t) p \<longrightarrow> effective_max cfg mx p \<le> th_max_flows t))"
proof (cases "kp_enabled cfg")
  case True
  note eq = effective_max_eq[OF True, of mx]
  have "\<forall>t \<in> set (kp_thresholds cfg). 1 \<le> th_max_flows t"
    using assms(1)[OF True] by (simp add: ladder_ok_def)
  then have "1 \<le> effective_max cfg mx p" using assms(2) by (auto simp: eq)
  moreover have "effective_max cfg mx q \<le> effective_max cfg mx p"
    unfolding eq using assms(3) by (intro Min_antimono) (auto dest: f_le_trans)
  ultimately show ?thesis by (auto simp: eq intro: Min_le)
qed (use assms in \<open>simp add: effective_max_def\<close>)

theorem effective_max_sound_witness:
  "effective_max \<lparr> kp_enabled = True, kp_thresholds = [\<lparr> th_at = Fin (1 / 2), th_max_flows = 3 \<rparr>] \<rparr> 4 (Fin 1) \<le> 3"
  using effective_max_sound[of "\<lparr> kp_enabled = True, kp_thresholds = [\<lparr> th_at = Fin (1 / 2), th_max_flows = 3 \<rparr>] \<rparr>"
      4 "Fin 1" "Fin 1"]
  by (simp add: ladder_ok_def in_unit_def)

section \<open>Starvation\<close>

definition is_starved :: "instant \<Rightarrow> duration \<Rightarrow> flow \<Rightarrow> duration option" where
  "is_starved now timeout f = (case fl_enqueued_at f of
       Some queued_at \<Rightarrow> let wait = duration_since now queued_at in
         if timeout < wait then Some wait else None
     | None \<Rightarrow> None)"

definition record_force_admit :: "flow \<Rightarrow> duration \<Rightarrow> metrics \<Rightarrow> metrics" where
  "record_force_admit f wait m =
     m\<lparr>m_flow_starvation := hput (metric_label (fl_id f)) wait (m_flow_starvation m),
       m_force_admits := m_force_admits m + 1\<rparr>"

lemma is_starved_iff:
  "is_starved now t f \<noteq> None \<longleftrightarrow> (\<exists>q. fl_enqueued_at f = Some q \<and> q + t < now)"
  by (auto simp: is_starved_def duration_since_def Let_def split: option.splits)

section \<open>The completion bias gate\<close>

record bias_gate =
  bg_enabled :: bool
  bg_target :: nat
  bg_predictive :: bool
  bg_check_interval :: duration
  bg_starvation_timeout :: duration

definition bias_gate_new :: "completion_bias_cfg \<Rightarrow> nat \<Rightarrow> duration \<Rightarrow> bias_gate" where
  "bias_gate_new cfg max_active_flows starvation_timeout =
     \<lparr> bg_enabled = cb_enabled cfg,
       bg_target = (if cb_target_active_flows cfg = 0 then max_active_flows else cb_target_active_flows cfg),
       bg_predictive = cb_predictive_admit cfg,
       bg_check_interval = starvation_timeout div 4,
       bg_starvation_timeout = starvation_timeout \<rparr>"

definition predictive_admit_threshold :: f64 where "predictive_admit_threshold = lit (9 / 10)"

text \<open>What one evaluation can see; \<open>active_flows.get() as u32\<close> saturates.\<close>

record gate_obs =
  go_now :: instant
  go_flow :: flow
  go_active_flows :: int
  go_progress :: flow_progress

definition gauge_u32 :: "int \<Rightarrow> nat" where
  "gauge_u32 n = nat (min (2 ^ 32 - 1) (max 0 n))"

definition gate_under_target :: "bias_gate \<Rightarrow> gate_obs \<Rightarrow> bool" where
  "gate_under_target g e \<longleftrightarrow> gauge_u32 (go_active_flows e) < bg_target g"

definition gate_predictive :: "bias_gate \<Rightarrow> gate_obs \<Rightarrow> bool" where
  "gate_predictive g e \<longleftrightarrow> bg_predictive g \<and> any_flow_near_done (go_progress e) predictive_admit_threshold"

text \<open>The tests before the loop: \<open>True\<close> is an early return.\<close>

definition gate_enter :: "bias_gate \<Rightarrow> gate_obs \<Rightarrow> bool" where
  "gate_enter g e = (if \<not> bg_enabled g then True
     else if is_active (go_flow e) then True
     else if bg_target g = 0 then True
     else if gate_under_target g e then True
     else gate_predictive g e)"

text \<open>The head of the loop: a starved flow is let through and recorded.\<close>

definition maybe_force_admit :: "bias_gate \<Rightarrow> gate_obs \<Rightarrow> metrics \<Rightarrow> metrics option" where
  "maybe_force_admit g e m = (case is_starved (go_now e) (bg_starvation_timeout g) (go_flow e) of
       Some wait \<Rightarrow> Some (record_force_admit (go_flow e) wait m)
     | None \<Rightarrow> None)"

definition gate_head :: "bias_gate \<Rightarrow> gate_obs \<Rightarrow> metrics \<Rightarrow> metrics option" where
  "gate_head g e m = (case maybe_force_admit g e m of
       Some m' \<Rightarrow> Some m'
     | None \<Rightarrow> if gate_predictive g e then Some m else None)"

datatype gate_result = GatePassed metrics | GateWaiting metrics

text \<open>One pair of observations per iteration: at the head, and after the wait.\<close>

fun gate_loop :: "bias_gate \<Rightarrow> (gate_obs \<times> gate_obs) list \<Rightarrow> metrics \<Rightarrow> gate_result" where
  "gate_loop g [] m = GateWaiting m"
| "gate_loop g ((h, w) # obs) m = (case gate_head g h m of
       Some m' \<Rightarrow> GatePassed m'
     | None \<Rightarrow> if gate_under_target g w then GatePassed m else gate_loop g obs m)"

definition gate_check :: "bias_gate \<Rightarrow> gate_obs \<Rightarrow> (gate_obs \<times> gate_obs) list \<Rightarrow> metrics \<Rightarrow> gate_result" where
  "gate_check g e obs m = (if gate_enter g e then GatePassed m else gate_loop g obs m)"

definition gate_holds :: "bias_gate \<Rightarrow> gate_obs \<times> gate_obs \<Rightarrow> bool" where
  "gate_holds g o2 \<longleftrightarrow> is_starved (go_now (fst o2)) (bg_starvation_timeout g) (go_flow (fst o2)) = None
     \<and> \<not> gate_predictive g (fst o2) \<and> \<not> gate_under_target g (snd o2)"

lemma gate_head_None:
  "gate_head g e m = None \<longleftrightarrow>
     is_starved (go_now e) (bg_starvation_timeout g) (go_flow e) = None \<and> \<not> gate_predictive g e"
  by (simp add: gate_head_def maybe_force_admit_def split: option.splits)

lemma gate_holds_head: "gate_holds g (h, w) \<longleftrightarrow> gate_head g h m = None \<and> \<not> gate_under_target g w"
  by (simp add: gate_holds_def gate_head_None)

lemma gate_loop_Cons:
  "gate_loop g (o2 # obs) m = (if gate_holds g o2 then gate_loop g obs m
     else case gate_head g (fst o2) m of Some m' \<Rightarrow> GatePassed m' | None \<Rightarrow> GatePassed m)"
  by (cases o2) (simp add: gate_holds_head[where m = m] split: option.split)

lemma gate_loop_waiting:
  "gate_loop g obs m = GateWaiting m' \<longleftrightarrow> (\<forall>o2 \<in> set obs. gate_holds g o2) \<and> m' = m"
  by (induction obs) (auto simp: gate_loop_Cons simp del: gate_loop.simps(2) split: option.splits)

lemma gate_check_waiting_iff_core:
  "gate_check g e obs m = GateWaiting m' \<longleftrightarrow>
     bg_enabled g \<and> \<not> is_active (go_flow e) \<and> 0 < bg_target g
     \<and> \<not> gate_under_target g e \<and> \<not> gate_predictive g e
     \<and> (\<forall>o2 \<in> set obs. gate_holds g o2) \<and> m' = m"
  by (auto simp: gate_check_def gate_enter_def gate_loop_waiting)

text \<open>
  The gate holds a request exactly while the source's conditions say so: after any
  sequence of observations it is still waiting if and only if at entry the gate was
  enabled with a positive target, the flow was not active, the target was reached and no
  flow was near done, and every later iteration found the flow not starved, no flow near
  done and the target still reached.  While it waits it has not touched the metrics.
\<close>

theorem gate_check_waiting_iff:
  "gate_check g e obs m = GateWaiting m' \<longleftrightarrow>
     bg_enabled g \<and> \<not> is_active (go_flow e) \<and> 0 < bg_target g
     \<and> \<not> gate_under_target g e \<and> \<not> gate_predictive g e
     \<and> (\<forall>o2 \<in> set obs. gate_holds g o2) \<and> m' = m"
  by (rule gate_check_waiting_iff_core)

text \<open>
  C33. A flow that has a queued request is held for a bounded time only: if the loop head
  is evaluated at a time later than the queueing time plus the starvation timeout, the
  gate has let the flow through.
\<close>

theorem gate_starvation_bound:
  assumes "(h, w) \<in> set obs" and "fl_enqueued_at (go_flow h) = Some q"
    and "q + bg_starvation_timeout g < go_now h"
  shows "\<exists>m'. gate_check g e obs m = GatePassed m'"
proof -
  have "\<not> gate_holds g (h, w)"
    using assms(2,3) is_starved_iff[of "go_now h" "bg_starvation_timeout g" "go_flow h"]
    by (auto simp: gate_holds_def)
  then have "gate_check g e obs m \<noteq> GateWaiting m'" for m'
    using assms(1) by (auto simp: gate_check_waiting_iff_core)
  then show ?thesis by (cases "gate_check g e obs m") auto
qed

definition obs_at :: "instant \<Rightarrow> instant option \<Rightarrow> int \<Rightarrow> gate_obs" where
  "obs_at t q n = \<lparr> go_now = t, go_flow = (flow_new ''a'' (Fin 1) 50 0)\<lparr>fl_enqueued_at := q\<rparr>,
     go_active_flows = n, go_progress = progress_new \<rparr>"

theorem gate_starvation_bound_witness:
  "\<exists>m'. gate_check (bias_gate_new completion_bias_default 4 100) (obs_at 0 (Some 0) 4)
     [(obs_at 50 (Some 0) 4, obs_at 75 (Some 0) 4), (obs_at 101 (Some 0) 4, obs_at 110 (Some 0) 4)] metrics_new
   = GatePassed m'"
  by (rule gate_starvation_bound[of "obs_at 101 (Some 0) 4" "obs_at 110 (Some 0) 4" _ 0])
    (simp_all add: obs_at_def bias_gate_new_def)

text \<open>
  Starvation protection does not cover the gate itself: a request whose flow has
  nothing queued has no queueing time while it waits here (the admission code sets it
  only after the gate), so with predictive admission off it is held as long as the
  target stays reached, however late it is, and no force-admit is recorded.
\<close>

theorem gate_never_starves_new_flow:
  assumes "bg_enabled g" and "0 < bg_target g" and "\<not> bg_predictive g"
    and "\<not> is_active (go_flow e)" and "\<not> gate_under_target g e"
    and "\<forall>(h, w) \<in> set obs. fl_enqueued_at (go_flow h) = None \<and> \<not> gate_under_target g w"
  shows "gate_check g e obs m = GateWaiting m"
proof -
  have "gate_holds g o2" if "o2 \<in> set obs" for o2
    using assms(3,6) that by (cases o2) (auto simp: gate_holds_def is_starved_def gate_predictive_def)
  then show ?thesis using assms by (simp add: gate_check_waiting_iff_core gate_predictive_def)
qed

theorem gate_never_starves_new_flow_witness:
  "gate_check (bias_gate_new completion_bias_default 4 100) (obs_at 0 None 4)
     [(obs_at 1000000 None 4, obs_at 2000000 None 4)] metrics_new = GateWaiting metrics_new"
  by (rule gate_never_starves_new_flow)
    (simp_all add: obs_at_def bias_gate_new_def completion_bias_default_def is_active_def
      gate_under_target_def gauge_u32_def)

end
