(* ===== verification/Selection.thy ===== *)
theory Selection
  imports Progress
begin

text \<open>
  Choice of the next flow by fairness (src/scheduler/priority.rs).  A selection is a
  left-to-right scan that replaces the current best by a better candidate (theory KvBias
  uses the same scan).  The locale \<open>preference\<close> states what a scan needs of its comparison and
  proves that the result is optimal; it is interpreted on the fairness order restricted
  to candidates whose base score is a cursor index, where the comparisons with
  \<open>f64::EPSILON\<close> are exact.
\<close>

record candidate =
  c_flow :: flow_id
  c_priority :: nat
  c_enq :: instant
  c_base :: f64
  c_kv :: f64

section \<open>The scan\<close>

definition scan_step :: "('a \<Rightarrow> 'a \<Rightarrow> bool) \<Rightarrow> 'a option \<Rightarrow> 'a \<Rightarrow> 'a option" where
  "scan_step better best c = (case best of None \<Rightarrow> Some c
     | Some b \<Rightarrow> if better c b then Some c else Some b)"

definition scan_best :: "('a \<Rightarrow> 'a \<Rightarrow> bool) \<Rightarrow> 'a list \<Rightarrow> 'a option" where
  "scan_best better xs = foldl (scan_step better) None xs"

lemma scan_best_Nil [simp]: "scan_best better [] = None"
  by (simp add: scan_best_def)

lemma scan_best_single [simp]: "scan_best better [x] = Some x"
  by (simp add: scan_best_def scan_step_def)

lemma scan_best_snoc: "scan_best better (xs @ [x]) = scan_step better (scan_best better xs) x"
  by (simp add: scan_best_def)

lemma scan_best_member: "xs \<noteq> [] \<Longrightarrow> \<exists>x \<in> set xs. scan_best better xs = Some x"
proof (induction xs rule: rev_induct)
  case (snoc x xs)
  show ?case
  proof (cases "xs = []")
    case False
    with snoc obtain y where "y \<in> set xs" "scan_best better xs = Some y" by blast
    then show ?thesis by (cases "better x y") (simp_all add: scan_best_snoc scan_step_def)
  qed simp
qed simp

lemma scan_best_in_set: "scan_best better xs = Some x \<Longrightarrow> x \<in> set xs"
  using scan_best_member[of xs better] by (cases "xs = []") auto

lemma scan_best_cong:
  assumes "\<And>x y. x \<in> set xs \<Longrightarrow> y \<in> set xs \<Longrightarrow> better x y = better' x y"
  shows "scan_best better xs = scan_best better' xs"
  using assms
proof (induction xs rule: rev_induct)
  case (snoc x xs)
  then show ?case
    by (auto simp: scan_best_snoc scan_step_def dest: scan_best_in_set split: option.splits)
qed simp

lemma scan_best_map:
  "scan_best better (map g xs) = map_option g (scan_best (\<lambda>x y. better (g x) (g y)) xs)"
  by (induction xs rule: rev_induct) (auto simp: scan_best_snoc scan_step_def split: option.splits)

text \<open>A candidate that beats every other one wins, wherever it stands.\<close>

lemma scan_best_dominant:
  assumes "x \<in> set xs"
    and "\<And>y. y \<in> set xs \<Longrightarrow> y \<noteq> x \<Longrightarrow> better x y \<and> \<not> better y x"
  shows "scan_best better xs = Some x"
  using assms
proof (induction xs rule: rev_induct)
  case (snoc z xs)
  show ?case
  proof (cases "x \<in> set xs")
    case True
    then have "scan_best better xs = Some x" using snoc by simp
    then show ?thesis using snoc.prems(2)[of z] by (cases "z = x") (auto simp: scan_best_snoc scan_step_def)
  next
    case False
    then have "z = x" using snoc.prems(1) by simp
    moreover have "y \<in> set xs \<Longrightarrow> better x y" for y using snoc.prems(2)[of y] False by auto
    ultimately show ?thesis
      by (auto simp: scan_best_snoc scan_step_def dest: scan_best_in_set split: option.splits)
  qed
qed simp

locale preference =
  fixes better :: "'a \<Rightarrow> 'a \<Rightarrow> bool" and ok :: "'a \<Rightarrow> bool"
  assumes better_irrefl: "ok x \<Longrightarrow> \<not> better x x"
    and better_trans: "ok x \<Longrightarrow> ok y \<Longrightarrow> ok z \<Longrightarrow> better x y \<Longrightarrow> better y z \<Longrightarrow> better x z"
    and not_better_trans: "ok x \<Longrightarrow> ok y \<Longrightarrow> ok z \<Longrightarrow> \<not> better x y \<Longrightarrow> \<not> better y z \<Longrightarrow> \<not> better x z"
begin

lemma scan_optimal:
  assumes "\<forall>y \<in> set xs. ok y" and "scan_best better xs = Some x" and "y \<in> set xs"
  shows "\<not> better y x"
  using assms
proof (induction xs arbitrary: x y rule: rev_induct)
  case (snoc z xs)
  show ?case
  proof (cases "scan_best better xs")
    case None
    then have "xs = []" using scan_best_member[of xs better] by (cases "xs = []") auto
    with snoc.prems show ?thesis by (auto dest: better_irrefl)
  next
    case (Some b)
    then have b: "ok b" "b \<in> set xs" "ok z" "ok y"
      using snoc.prems scan_best_in_set by fastforce+
    have opt: "w \<in> set xs \<Longrightarrow> \<not> better w b" for w using snoc.IH[OF _ Some] snoc.prems(1) by simp
    show ?thesis
    proof (cases "better z b")
      case True
      then have "x = z" using snoc.prems(2) Some by (simp add: scan_best_snoc scan_step_def)
      have "\<not> better y z" if "y \<in> set xs"
        using opt[OF that] True b better_trans[of y z b] by blast
      then show ?thesis using \<open>x = z\<close> snoc.prems(3) b better_irrefl by auto
    next
      case False
      then have "x = b" using snoc.prems(2) Some by (simp add: scan_best_snoc scan_step_def)
      then show ?thesis using False opt snoc.prems(3) by auto
    qed
  qed
qed simp

lemma scan_spec:
  assumes "\<forall>y \<in> set xs. ok y" and "xs \<noteq> []"
  shows "\<exists>x \<in> set xs. scan_best better xs = Some x \<and> (\<forall>y \<in> set xs. \<not> better y x)"
  using scan_best_member[OF assms(2), of better] scan_optimal[OF assms(1)] by blast

end

section \<open>The fairness order\<close>

definition near :: "f64 \<Rightarrow> f64 \<Rightarrow> bool" where
  "near a b \<longleftrightarrow> f_lt (f_abs (f_sub a b)) f64_epsilon"

definition prefer_best :: "candidate \<Rightarrow> candidate \<Rightarrow> bool" where
  "prefer_best cand best \<longleftrightarrow>
     (if c_priority best < c_priority cand then True
      else if c_priority cand = c_priority best then
        (if f_lt (c_base cand) (c_base best) then True
         else if near (c_base cand) (c_base best) then c_enq cand < c_enq best
         else False)
      else False)"

definition select_best :: "candidate list \<Rightarrow> flow_id option" where
  "select_best candidates = map_option c_flow (scan_best prefer_best candidates)"

datatype ordering = Less | Equal | Greater

definition cmp_nat :: "nat \<Rightarrow> nat \<Rightarrow> ordering" where
  "cmp_nat a b = (if a < b then Less else if a = b then Equal else Greater)"

fun ord_reverse :: "ordering \<Rightarrow> ordering" where
  "ord_reverse Less = Greater" | "ord_reverse Equal = Equal" | "ord_reverse Greater = Less"

definition then_with :: "ordering \<Rightarrow> ordering \<Rightarrow> ordering" where
  "then_with a b = (if a = Equal then b else a)"

definition cmp_fair :: "candidate \<Rightarrow> candidate \<Rightarrow> ordering" where
  "cmp_fair a b = then_with (then_with (ord_reverse (cmp_nat (c_priority a) (c_priority b)))
       (if near (c_base a) (c_base b) then Equal
        else if f_lt (c_base a) (c_base b) then Less else Greater))
     (cmp_nat (c_enq a) (c_enq b))"

text \<open>Base scores are cursor positions, so far below 2^53.\<close>

definition cursor_base :: "candidate \<Rightarrow> bool" where
  "cursor_base c \<longleftrightarrow> (\<exists>n < 2 ^ 50. c_base c = Fin (of_nat n))"

lemma near_nat:
  assumes "m < 2 ^ 50" and "n < 2 ^ 50"
  shows "near (Fin (of_nat m)) (Fin (of_nat n)) \<longleftrightarrow> m = n"
proof -
  have "\<bar>int m - int n\<bar> \<le> 2 ^ 53" using assms by simp
  from rnd_int_exact[OF this] have "f_sub (Fin (of_nat m)) (Fin (of_nat n)) = Fin (of_int (int m - int n))"
    by (simp add: f_sub_def)
  moreover have "\<bar>of_int (int m - int n) :: rat\<bar> < 1 / 2 ^ 52 \<longleftrightarrow> m = n"
  proof (cases "m = n")
    case False
    then have "1 \<le> \<bar>int m - int n\<bar>" by simp
    then have "(of_int 1 :: rat) \<le> of_int \<bar>int m - int n\<bar>" by (simp only: of_int_le_iff)
    then show ?thesis using False by simp
  qed simp
  ultimately show ?thesis by (simp add: near_def f64_epsilon_def)
qed

lemma cursor_base_near:
  "cursor_base a \<Longrightarrow> cursor_base b \<Longrightarrow> near (c_base a) (c_base b) \<longleftrightarrow> c_base a = c_base b"
  by (auto simp: cursor_base_def near_nat)

lemma cursor_base_lt:
  assumes "cursor_base a" and "cursor_base b"
  shows "f_lt (c_base a) (c_base b) \<or> c_base a = c_base b \<or> f_lt (c_base b) (c_base a)"
  using assms by (auto simp: cursor_base_def)

text \<open>On such candidates the scan of \<open>select_best\<close> and \<open>cmp_fair\<close> order alike.\<close>

lemma prefer_best_cmp_fair:
  "cursor_base a \<Longrightarrow> cursor_base b \<Longrightarrow> prefer_best a b \<longleftrightarrow> cmp_fair a b = Less"
  using cursor_base_lt[of a b]
  by (auto simp: prefer_best_def cmp_fair_def cmp_nat_def then_with_def cursor_base_near
      dest: f_lt_trans split: if_splits)

definition fair_key :: "candidate \<Rightarrow> candidate \<Rightarrow> bool" where
  "fair_key a b \<longleftrightarrow> c_priority b < c_priority a \<or> c_priority a = c_priority b \<and>
     (f_lt (c_base a) (c_base b) \<or> c_base a = c_base b \<and> c_enq a < c_enq b)"

lemma prefer_best_key: "cursor_base a \<Longrightarrow> cursor_base b \<Longrightarrow> prefer_best a b \<longleftrightarrow> fair_key a b"
  by (auto simp: prefer_best_def fair_key_def cursor_base_near)

interpretation fair: preference prefer_best cursor_base
proof
  fix x y z assume ok: "cursor_base x" "cursor_base y" "cursor_base z"
  note key = ok[THEN prefer_best_key]
  show "prefer_best x y \<Longrightarrow> prefer_best y z \<Longrightarrow> prefer_best x z"
    using ok by (auto simp: prefer_best_key fair_key_def dest: f_lt_trans)
  show "\<not> prefer_best x y \<Longrightarrow> \<not> prefer_best y z \<Longrightarrow> \<not> prefer_best x z"
    using ok cursor_base_lt[of x y] cursor_base_lt[of y z]
    by (auto simp: prefer_best_key fair_key_def dest: f_lt_trans)
qed (auto simp: prefer_best_key fair_key_def)

lemma select_best_optimal_core:
  assumes "cs \<noteq> []" and "\<forall>c \<in> set cs. cursor_base c"
  shows "\<exists>b \<in> set cs. select_best cs = Some (c_flow b) \<and> (\<forall>c \<in> set cs.
     c_priority c \<le> c_priority b \<and> (c_priority c = c_priority b \<longrightarrow> f_le (c_base b) (c_base c) \<and>
       (c_base c = c_base b \<longrightarrow> c_enq b \<le> c_enq c)))"
proof -
  obtain b where b: "b \<in> set cs" "scan_best prefer_best cs = Some b" "\<forall>c \<in> set cs. \<not> prefer_best c b"
    using fair.scan_spec[OF assms(2,1)] by blast
  have "c_priority c \<le> c_priority b \<and> (c_priority c = c_priority b \<longrightarrow> f_le (c_base b) (c_base c) \<and>
       (c_base c = c_base b \<longrightarrow> c_enq b \<le> c_enq c))" if "c \<in> set cs" for c
  proof -
    have ok: "cursor_base c" "cursor_base b" using that b(1) assms(2) by simp_all
    then have "\<not> fair_key c b" using b(3) that prefer_best_key by blast
    then show ?thesis using cursor_base_lt[OF ok] ok
      by (auto simp: fair_key_def f_le_iff cursor_base_def f_eq_def)
  qed
  then show ?thesis using b by (auto simp: select_best_def)
qed

text \<open>
  Selection without KV bias is a maximum: among candidates whose base score is their
  cursor index, \<open>select_best\<close> returns one with the highest priority; among those of
  that priority, one that stands earliest in the round-robin cursor; and among equal
  positions, one that was queued first.
\<close>

theorem select_best_optimal:
  assumes "cs \<noteq> []" and "\<forall>c \<in> set cs. cursor_base c"
  shows "\<exists>b \<in> set cs. select_best cs = Some (c_flow b) \<and> (\<forall>c \<in> set cs.
     c_priority c \<le> c_priority b \<and> (c_priority c = c_priority b \<longrightarrow> f_le (c_base b) (c_base c) \<and>
       (c_base c = c_base b \<longrightarrow> c_enq b \<le> c_enq c)))"
  using assms by (rule select_best_optimal_core)

definition cand :: "flow_id \<Rightarrow> nat \<Rightarrow> nat \<Rightarrow> candidate" where
  "cand f p n = \<lparr> c_flow = f, c_priority = p, c_enq = 0, c_base = Fin (of_nat n), c_kv = Fin 0 \<rparr>"

lemma cand_simps [simp]:
  "c_flow (cand f p n) = f" "c_priority (cand f p n) = p" "c_base (cand f p n) = Fin (of_nat n)"
  "c_enq (cand f p n) = 0" "c_kv (cand f p n) = Fin 0" "n < 2 ^ 50 \<Longrightarrow> cursor_base (cand f p n)"
  by (auto simp: cand_def cursor_base_def)

theorem select_best_optimal_witness:
  "select_best [cand ''a'' 50 0, cand ''b'' 100 1, cand ''c'' 100 2] = Some ''b''"
  using select_best_optimal[of "[cand ''a'' 50 0, cand ''b'' 100 1, cand ''c'' 100 2]"] by simp

end
