(* ===== verification/KvBias.thy ===== *)
theory KvBias
  imports Selection
begin

text \<open>
  The KV-cache-aware selection bias (src/scheduler/kv_bias.rs), in the source's binary64
  arithmetic.  The backend monitor enters through the last reported KV usage.  Lemmas:
  the weight is a ramp in the unit interval; every selection is one of the candidates;
  without pressure or without difference in footprint the bias changes nothing; at full
  pressure the largest footprint wins.
\<close>

section \<open>Definitions\<close>

definition kv_pressure_of :: "f64 option \<Rightarrow> f64" where
  "kv_pressure_of usage = (case usage of Some u \<Rightarrow> f_clamp u (Fin 0) (Fin 1) | None \<Rightarrow> Fin 0)"

definition bias_lo :: "kv_bias_cfg \<Rightarrow> f64" where
  "bias_lo cfg = f_max (kb_pressure_below cfg) (Fin 0)"

definition bias_hi :: "kv_bias_cfg \<Rightarrow> f64" where
  "bias_hi cfg = f_max (kb_bias_full_at cfg) (bias_lo cfg)"

definition bias_weight :: "kv_bias_cfg \<Rightarrow> f64 \<Rightarrow> f64" where
  "bias_weight cfg pressure = (let lo = bias_lo cfg; hi = bias_hi cfg in
     if f_le pressure lo then Fin 0
     else if f_le hi pressure then Fin 1
     else f_div (f_sub pressure lo) (f_sub hi lo))"

definition footprint :: "flow_progress \<Rightarrow> flow_id \<Rightarrow> f64" where
  "footprint prog f = f_of_int (delivered_for prog f)"

definition kv_better :: "candidate \<times> f64 \<Rightarrow> candidate \<times> f64 \<Rightarrow> bool" where
  "kv_better c b = (if f_lt f64_epsilon (f_abs (f_sub (snd c) (snd b))) then f_lt (snd b) (snd c)
     else cmp_fair (fst c) (fst b) = Less)"

definition kv_scored :: "f64 \<Rightarrow> f64 \<Rightarrow> candidate \<Rightarrow> candidate \<times> f64" where
  "kv_scored weight max_footprint c = (c, f_mul weight (f_div (c_kv c) max_footprint))"

definition max_footprint :: "candidate list \<Rightarrow> f64" where
  "max_footprint cs = foldl f_max (Fin 0) (map c_kv cs)"

definition kv_select :: "kv_bias_cfg \<Rightarrow> candidate list \<Rightarrow> f64 \<Rightarrow> flow_id option" where
  "kv_select cfg cs pressure =
     (let weight = (if kb_enabled cfg then bias_weight cfg pressure else Fin 0) in
      if f_le weight (Fin 0) \<or> cs = [] then select_best cs
      else if f_le (max_footprint cs) (Fin 0) then select_best cs
      else map_option (\<lambda>x. c_flow (fst x))
             (scan_best kv_better (map (kv_scored weight (max_footprint cs)) cs)))"

lemma kv_select_member: "cs \<noteq> [] \<Longrightarrow> \<exists>c \<in> set cs. kv_select cfg cs p = Some (c_flow c)"
proof -
  assume ne: "cs \<noteq> []"
  have "map (kv_scored w m) cs \<noteq> []" for w m using ne by simp
  from scan_best_member[OF this, where better = kv_better]
  have "\<exists>c \<in> set cs. map_option (\<lambda>x. c_flow (fst x)) (scan_best kv_better (map (kv_scored w m) cs))
      = Some (c_flow c)" for w m
    by (fastforce simp: kv_scored_def)
  then show ?thesis using scan_best_member[OF ne, where better = prefer_best]
    by (auto simp: kv_select_def select_best_def Let_def)
qed

section \<open>The weight\<close>

text \<open>Configured values and pressures are doubles other than NaN.\<close>

definition cfg_doubles :: "kv_bias_cfg \<Rightarrow> bool" where
  "cfg_doubles cfg \<longleftrightarrow> (\<forall>x \<in> {kb_pressure_below cfg, kb_bias_full_at cfg}. x \<noteq> NaN \<and> is_double x)"

lemma f_max_cases: "x \<noteq> NaN \<Longrightarrow> y \<noteq> NaN \<Longrightarrow> f_max x y \<in> {x, y} \<and> f_le x (f_max x y) \<and> f_le y (f_max x y)"
  using f_not_lt[of x y] by (cases "f_lt x y") (auto simp: f_max_def f_le_iff f_eq_def)

lemma bias_lo_hi:
  assumes "cfg_doubles cfg"
  shows "is_double (bias_lo cfg)" "is_double (bias_hi cfg)" "f_le (Fin 0) (bias_lo cfg)"
    "f_le (bias_lo cfg) (bias_hi cfg)" "bias_lo cfg \<noteq> NaN" "bias_hi cfg \<noteq> NaN"
proof -
  have c: "kb_pressure_below cfg \<noteq> NaN" "kb_bias_full_at cfg \<noteq> NaN"
    "is_double (kb_pressure_below cfg)" "is_double (kb_bias_full_at cfg)" "is_double (Fin 0)"
    using assms is_double_int[of 0] by (auto simp: cfg_doubles_def)
  have lo: "bias_lo cfg \<in> {kb_pressure_below cfg, Fin 0}" "f_le (Fin 0) (bias_lo cfg)"
    using f_max_cases[of "kb_pressure_below cfg" "Fin 0"] c by (auto simp: bias_lo_def)
  then have n: "bias_lo cfg \<noteq> NaN" using c by auto
  have hi: "bias_hi cfg \<in> {kb_bias_full_at cfg, bias_lo cfg}" "f_le (bias_lo cfg) (bias_hi cfg)"
    using f_max_cases[OF c(2) n] by (auto simp: bias_hi_def)
  show "is_double (bias_lo cfg)" "is_double (bias_hi cfg)" "f_le (Fin 0) (bias_lo cfg)"
    "f_le (bias_lo cfg) (bias_hi cfg)" "bias_lo cfg \<noteq> NaN" "bias_hi cfg \<noteq> NaN"
    using lo hi c n by auto
qed

lemma ramp_mono:
  assumes d: "is_double (Fin l)" "is_double (Fin p)" "is_double (Fin h)"
    and o: "0 \<le> l" "l < p" "p \<le> q" "q < h" "h \<le> 2"
  shows "\<exists>w v. f_div (f_sub (Fin p) (Fin l)) (f_sub (Fin h) (Fin l)) = Fin w
     \<and> f_div (f_sub (Fin q) (Fin l)) (f_sub (Fin h) (Fin l)) = Fin v \<and> 0 \<le> w \<and> w \<le> v \<and> v \<le> 1"
proof -
  have sub: "f_sub (Fin x) (Fin l) = rnd (x - l)" for x by (simp add: f_sub_def)
  have le2: "f_le (rnd (h - l)) (rnd (of_int 2))" using o by (intro rnd_mono) simp
  have two: "rnd (of_int 2) = Fin 2" by (subst rnd_int_exact) simp_all
  obtain c where c: "rnd (h - l) = Fin c" "0 < c"
    using f_sub_pos[OF d(1,3)] o le2 unfolding two sub by (cases "rnd (h - l)") auto
  have "f_le (rnd (q - l)) (rnd (h - l))" "f_le (rnd (p - l)) (rnd (q - l))" "f_le (Fin 0) (rnd (p - l))"
    using o by (auto intro!: rnd_mono rnd_nonneg)
  then obtain a b where ab: "rnd (p - l) = Fin a" "rnd (q - l) = Fin b" "0 \<le> a" "a \<le> b" "b \<le> c"
    unfolding c(1) by (cases "rnd (p - l)"; cases "rnd (q - l)") auto
  have "f_le (Fin 0) (rnd (a / c))" "f_le (rnd (a / c)) (rnd (b / c))" "f_le (rnd (b / c)) (Fin 1)"
    using ab c rnd_unit(2)[of "b / c"] by (auto intro!: rnd_nonneg rnd_mono simp: divide_right_mono)
  moreover have "f_div (Fin a) (Fin c) = rnd (a / c)" "f_div (Fin b) (Fin c) = rnd (b / c)"
    using c by (simp_all add: f_div_def)
  ultimately show ?thesis unfolding sub ab c by (cases "rnd (a / c)"; cases "rnd (b / c)") auto
qed

lemma bias_weight_ramp_core:
  assumes "cfg_doubles cfg" and "f_le (bias_hi cfg) (Fin 2)"
    and "is_double (Fin p)" and "is_double (Fin q)" and "0 \<le> p" and "p \<le> q" and "q \<le> 1"
  shows "\<exists>w v. bias_weight cfg (Fin p) = Fin w \<and> bias_weight cfg (Fin q) = Fin v
    \<and> 0 \<le> w \<and> w \<le> v \<and> v \<le> 1
    \<and> (f_le (Fin p) (bias_lo cfg) \<longrightarrow> w = 0)
    \<and> (f_lt (bias_lo cfg) (Fin q) \<and> f_le (bias_hi cfg) (Fin q) \<longrightarrow> v = 1)"
proof -
  note b = bias_lo_hi[OF assms(1)]
  obtain h where h: "bias_hi cfg = Fin h" "h \<le> 2"
    using b assms(2) by (cases "bias_hi cfg"; cases "bias_lo cfg") auto
  obtain l where l: "bias_lo cfg = Fin l" "0 \<le> l" "l \<le> h"
    using b h by (cases "bias_lo cfg") auto
  have d: "is_double (Fin l)" "is_double (Fin h)" using b l h by auto
  have "\<exists>w v. bias_weight cfg (Fin p) = Fin w \<and> bias_weight cfg (Fin q) = Fin v
    \<and> 0 \<le> w \<and> w \<le> v \<and> v \<le> 1"
  proof (cases "l < p \<and> q < h")
    case True
    then show ?thesis using ramp_mono[of l p h q] d assms l h
      by (simp add: bias_weight_def Let_def)
  next
    case False
    have unit: "\<exists>w. bias_weight cfg (Fin x) = Fin w \<and> 0 \<le> w \<and> w \<le> 1" if "is_double (Fin x)" for x
      using ramp_mono[of l x h x] d that l h by (auto simp: bias_weight_def Let_def)
    show ?thesis
    proof (cases "p \<le> l")
      case True
      then show ?thesis using unit[OF assms(4)] l by (simp add: bias_weight_def)
    next
      case False
      then have "bias_weight cfg (Fin q) = Fin 1"
        using \<open>\<not> (l < p \<and> q < h)\<close> l h assms by (auto simp: bias_weight_def)
      then show ?thesis using unit[OF assms(3)] by auto
    qed
  qed
  then show ?thesis by (auto simp: bias_weight_def l h)
qed

text \<open>
  The bias strength is a monotone ramp in the unit interval: for configured doubles
  with the upper end at most 2 and pressures that are doubles in [0, 1], the weight is a
  number between 0 and 1 that does not decrease with pressure; it is 0 at or below the
  lower end and 1 at or above the upper end (when that lies above the lower end).
\<close>

theorem bias_weight_ramp:
  assumes "cfg_doubles cfg" and "f_le (bias_hi cfg) (Fin 2)"
    and "is_double (Fin p)" and "is_double (Fin q)" and "0 \<le> p" and "p \<le> q" and "q \<le> 1"
  shows "\<exists>w v. bias_weight cfg (Fin p) = Fin w \<and> bias_weight cfg (Fin q) = Fin v
    \<and> 0 \<le> w \<and> w \<le> v \<and> v \<le> 1
    \<and> (f_le (Fin p) (bias_lo cfg) \<longrightarrow> w = 0)
    \<and> (f_lt (bias_lo cfg) (Fin q) \<and> f_le (bias_hi cfg) (Fin q) \<longrightarrow> v = 1)"
  using assms by (rule bias_weight_ramp_core)

definition kb_plain :: kv_bias_cfg where
  "kb_plain = \<lparr> kb_enabled = True, kb_bias_full_at = Fin 1, kb_pressure_below = Fin 0 \<rparr>"

lemma kb_plain_lo_hi: "bias_lo kb_plain = Fin 0" "bias_hi kb_plain = Fin 1" "cfg_doubles kb_plain"
  using is_double_int[of 0] is_double_int[of 1]
  by (simp_all add: kb_plain_def bias_lo_def bias_hi_def f_max_def cfg_doubles_def)

theorem bias_weight_ramp_witness:
  "bias_weight kb_plain (Fin 0) = Fin 0 \<and> bias_weight kb_plain (Fin 1) = Fin 1"
  using bias_weight_ramp[of kb_plain 0 1] kb_plain_lo_hi is_double_int[of 0] is_double_int[of 1]
  by auto

section \<open>When the bias changes nothing\<close>

lemma scores_equal:
  assumes "f_div k m = Fin 1" and "0 \<le> w" and "w \<le> 1"
  shows "\<exists>s. f_mul (Fin w) (f_div k m) = Fin s"
proof -
  have "f_le (Fin 0) (rnd w)" "f_le (rnd w) (Fin 1)" using assms rnd_unit by auto
  then show ?thesis using assms(1) by (cases "rnd w") (auto simp: f_mul_def)
qed

lemma foldl_f_max_const:
  "(\<forall>c \<in> set cs. c_kv c = Fin k) \<Longrightarrow> 0 \<le> a \<Longrightarrow> a \<le> k \<Longrightarrow>
     foldl f_max (Fin a) (map c_kv cs) = (if cs = [] then Fin a else Fin k)"
  by (induction cs arbitrary: a) (auto simp: f_max_def)

lemma kv_better_same_score:
  "snd c = Fin s \<Longrightarrow> snd b = Fin s \<Longrightarrow> kv_better c b \<longleftrightarrow> cmp_fair (fst c) (fst b) = Less"
  by (simp add: kv_better_def f_sub_def f64_epsilon_def)

text \<open>
  The bias only decides between flows of different footprints under pressure: if it
  is disabled, if the pressure does not exceed the lower end of the ramp, or if all
  candidates have the same footprint, the selection is that of \<open>select_best\<close>.
\<close>

theorem kv_select_neutral:
  assumes "\<forall>c \<in> set cs. cursor_base c" and "cfg_doubles cfg" and "f_le (bias_hi cfg) (Fin 2)"
    and "is_double (Fin p)" and "0 \<le> p" and "p \<le> 1"
    and "\<not> kb_enabled cfg \<or> f_le (Fin p) (bias_lo cfg) \<or> (\<exists>k \<ge> 0. \<forall>c \<in> set cs. c_kv c = Fin k)"
  shows "kv_select cfg cs (Fin p) = select_best cs"
proof (cases "\<not> kb_enabled cfg \<or> f_le (Fin p) (bias_lo cfg) \<or> cs = []")
  case True
  then show ?thesis by (auto simp: kv_select_def bias_weight_def)
next
  case False
  then obtain k where k: "0 \<le> k" "\<forall>c \<in> set cs. c_kv c = Fin k" using assms(7) by auto
  have mx: "max_footprint cs = Fin k" using foldl_f_max_const[OF k(2), of 0] k(1) False
    by (simp add: max_footprint_def)
  obtain w where w: "bias_weight cfg (Fin p) = Fin w" "0 \<le> w" "w \<le> 1"
    using bias_weight_ramp_core[OF assms(2-4) assms(4-5) order_refl assms(6)] by auto
  show ?thesis
  proof (cases "k = 0 \<or> w = 0")
    case True
    then show ?thesis using False by (auto simp: kv_select_def mx w)
  next
    case nz: False
    have one: "f_div (Fin k) (Fin k) = Fin 1" using nz by (simp add: f_div_def)
    obtain s where s: "f_mul (Fin w) (f_div (Fin k) (Fin k)) = Fin s"
      using scores_equal[OF one w(2,3)] by blast
    let ?g = "kv_scored (Fin w) (Fin k)"
    have sc: "snd (?g c) = Fin s" "fst (?g c) = c" if "c \<in> set cs" for c
      using that k(2) s by (simp_all add: kv_scored_def)
    have "scan_best (\<lambda>x y. kv_better (?g x) (?g y)) cs = scan_best prefer_best cs"
      using assms(1) sc kv_better_same_score prefer_best_cmp_fair by (intro scan_best_cong) metis
    moreover have "map_option (\<lambda>x. c_flow (fst x)) (scan_best kv_better (map ?g cs))
        = map_option c_flow (scan_best (\<lambda>x y. kv_better (?g x) (?g y)) cs)"
      by (simp add: scan_best_map option.map_comp comp_def) (simp add: kv_scored_def)
    ultimately show ?thesis using False nz k(1) w by (simp add: kv_select_def mx select_best_def)
  qed
qed

theorem kv_select_neutral_witness:
  "kv_select kb_plain [cand ''a'' 50 0, cand ''b'' 100 1] (Fin 1) = Some ''b''"
proof -
  have "kv_select kb_plain [cand ''a'' 50 0, cand ''b'' 100 1] (Fin 1)
      = select_best [cand ''a'' 50 0, cand ''b'' 100 1]"
    using kb_plain_lo_hi is_double_int[of 1] by (intro kv_select_neutral) auto
  then show ?thesis
    by (simp add: select_best_def scan_best_def scan_step_def prefer_best_def)
qed

section \<open>Full pressure\<close>

lemma foldl_f_max_bound:
  assumes "\<forall>c \<in> set cs. \<exists>n::nat. c_kv c = Fin (of_nat n) \<and> n \<le> N"
    and "a \<le> N" and "a = N \<or> (\<exists>c \<in> set cs. c_kv c = Fin (of_nat N))"
  shows "foldl f_max (Fin (of_nat a)) (map c_kv cs) = Fin (of_nat N)"
  using assms
proof (induction cs arbitrary: a)
  case (Cons c cs)
  then obtain n :: nat where n: "c_kv c = Fin (of_nat n)" "n \<le> N" by auto
  have "f_max (Fin (of_nat a)) (Fin (of_nat n)) = Fin (of_nat (max a n))"
    by (auto simp: f_max_def max_def)
  moreover have "max a n \<le> N" "max a n = N \<or> (\<exists>c \<in> set cs. c_kv c = Fin (of_nat N))"
    using Cons.prems n by auto
  ultimately show ?case using Cons.IH[of "max a n"] Cons.prems n by simp
qed auto

lemma score_gap:
  fixes n N :: nat
  assumes "n < N" and "N \<le> 2 ^ 50"
  shows "\<exists>t. f_mul (Fin 1) (f_div (Fin (of_nat n)) (Fin (of_nat N))) = Fin t
     \<and> f_lt f64_epsilon (f_abs (f_sub (Fin 1) (Fin t))) \<and> f_lt f64_epsilon (f_abs (f_sub (Fin t) (Fin 1))) \<and> t < 1"
proof -
  let ?D = "of_int (2 ^ 50 - 1) / 2 ^ 50 :: rat"
  have N: "(0::rat) < of_nat N" "(of_nat N :: rat) \<le> of_nat (2 ^ 50)" "of_nat (n + 1) \<le> (of_nat N :: rat)"
    using assms by (simp, simp only: of_nat_le_iff, simp only: of_nat_le_iff Suc_eq_plus1[symmetric] Suc_le_eq)
  have x: "of_nat n / of_nat N \<le> ?D"
  proof -
    have "of_nat n * 2 ^ 50 \<le> (of_nat N - 1 :: rat) * 2 ^ 50" using N(3) by (intro mult_right_mono) auto
    also have "\<dots> \<le> of_nat N * (2 ^ 50 - 1)" using N(2) by (simp add: algebra_simps)
    finally show ?thesis using N(1) by (simp add: field_simps)
  qed
  have D: "rnd ?D = Fin ?D" by (rule rnd_dyadic_pos) simp_all
  have below: "\<exists>t. rnd y = Fin t \<and> 0 \<le> t \<and> t \<le> ?D" if "0 \<le> y" "y \<le> ?D" for y
    using rnd_mono[OF that(2)] rnd_nonneg[OF that(1)] unfolding D by (cases "rnd y") auto
  obtain u where u: "rnd (of_nat n / of_nat N) = Fin u" "0 \<le> u" "u \<le> ?D" using below[OF _ x] by auto
  obtain t where t: "rnd u = Fin t" "0 \<le> t" "t \<le> ?D" using below[OF u(2,3)] by auto
  have eq: "f_mul (Fin 1) (f_div (Fin (of_nat n)) (Fin (of_nat N))) = Fin t"
    using N(1) u t by (simp add: f_div_def f_mul_def)
  have gap: "of_int 1 / 2 ^ 50 \<le> 1 - t" using t(3) by simp
  have G: "rnd (of_int 1 / 2 ^ 50) = Fin (of_int 1 / 2 ^ 50)" by (rule rnd_dyadic_pos) simp_all
  have "f_le (Fin (of_int 1 / 2 ^ 50)) (rnd (1 - t))" using rnd_mono[OF gap] unfolding G .
  moreover have "f_le (rnd (1 - t)) (Fin 1)" using gap t by (intro rnd_unit) simp_all
  ultimately obtain g where g: "rnd (1 - t) = Fin g" "1 / 2 ^ 50 \<le> g" by (cases "rnd (1 - t)") auto
  moreover have "rnd (t - 1) = Fin (- g)" using rnd_minus[of "1 - t"] g(1) by simp
  ultimately have "f_sub (Fin 1) (Fin t) = Fin g" "f_sub (Fin t) (Fin 1) = Fin (- g)" "(1::rat) / 2 ^ 52 < \<bar>g\<bar>"
    by (simp_all add: f_sub_def)
  then show ?thesis using eq t(3) by (auto simp: f64_epsilon_def)
qed

text \<open>
  At full pressure the largest footprint wins: when the weight has reached 1, the
  candidate with the strictly largest delivered-token count (up to 2^50) is selected,
  whatever its priority and its position in the cursor.
\<close>

theorem kv_select_full_pressure:
  assumes "kb_enabled cfg" and "bias_weight cfg p = Fin 1"
    and "b \<in> set cs" and "c_kv b = Fin (of_nat N)" and "N \<le> 2 ^ 50" and "0 < N"
    and "\<And>c. c \<in> set cs \<Longrightarrow> c \<noteq> b \<Longrightarrow> \<exists>n::nat. c_kv c = Fin (of_nat n) \<and> n < N"
  shows "kv_select cfg cs p = Some (c_flow b)"
proof -
  have "\<exists>n::nat. c_kv c = Fin (of_nat n) \<and> n \<le> N" if "c \<in> set cs" for c
    using assms(4) assms(7)[of c] that by (cases "c = b") (auto intro: less_imp_le)
  then have mx: "max_footprint cs = Fin (of_nat N)"
    using foldl_f_max_bound[of cs N 0] assms(3,4) by (auto simp: max_footprint_def)
  let ?g = "kv_scored (Fin 1) (Fin (of_nat N))"
  have gb: "snd (?g b) = Fin 1" using assms(4,6) by (simp add: kv_scored_def f_div_def f_mul_def)
  have "kv_better (?g b) (?g c) \<and> \<not> kv_better (?g c) (?g b)" if c: "c \<in> set cs" "c \<noteq> b" for c
  proof -
    obtain n :: nat where n: "c_kv c = Fin (of_nat n)" "n < N" using assms(7)[OF c] by blast
    obtain t where "snd (?g c) = Fin t" "f_lt f64_epsilon (f_abs (f_sub (Fin 1) (Fin t)))"
      "f_lt f64_epsilon (f_abs (f_sub (Fin t) (Fin 1)))" "t < 1"
      using score_gap[OF n(2) assms(5)] n(1) by (auto simp: kv_scored_def)
    then show ?thesis using gb by (simp add: kv_better_def)
  qed
  then have "scan_best (\<lambda>x y. kv_better (?g x) (?g y)) cs = Some b"
    using assms(3) by (intro scan_best_dominant) auto
  moreover have "cs \<noteq> []" using assms(3) by auto
  ultimately show ?thesis using assms(1,2,6)
    by (simp add: kv_select_def mx scan_best_map) (simp add: kv_scored_def)
qed

theorem kv_select_full_pressure_witness:
  "kv_select kb_plain [cand ''a'' 100 0, (cand ''b'' 10 1)\<lparr>c_kv := Fin 7\<rparr>] (Fin 1) = Some ''b''"
proof -
  have "bias_weight kb_plain (Fin 1) = Fin 1" using kb_plain_lo_hi by (simp add: bias_weight_def)
  then show ?thesis
    using kv_select_full_pressure[of kb_plain "Fin 1" "(cand ''b'' 10 1)\<lparr>c_kv := Fin 7\<rparr>"
        "[cand ''a'' 100 0, (cand ''b'' 10 1)\<lparr>c_kv := Fin 7\<rparr>]" 7]
    by (simp add: kb_plain_def)
qed

end
