(* ===== verification/Drr.thy ===== *)
theory Drr
  imports Gates KvBias Registry Backpressure
begin

text \<open>
  The DRR scheduler's state and operations (src/scheduler/drr.rs): \<open>try_select\<close> with its
  phases, enqueueing, the admission guard, tickets and accounting.  Each definition is
  one critical section of the source; theory DrrStep interleaves them.  \<open>None\<close> where a
  result is expected is a panic.  Lemmas: the queue-structure invariant, what a grant
  does to queue, cursor, credit and permits, who is chosen, and that the rounds of the
  inner admission loop end.
\<close>

section \<open>State\<close>

record pending =
  pd_id :: nat
  pd_enq :: instant
  pd_work :: f64

record drr_state =
  dr_waiting :: "(flow_id, pending list) hmap"
  dr_cursor :: "flow_id list"
  dr_available :: u32
  dr_max :: u32
  dr_next_id :: nat
  dr_deficit :: "(flow_id, i64) hmap"

definition drr_new :: "u32 \<Rightarrow> drr_state" where
  "drr_new max_active_flows = \<lparr> dr_waiting = [], dr_cursor = [], dr_available = max_active_flows,
     dr_max = max_active_flows, dr_next_id = 0, dr_deficit = [] \<rparr>"

text \<open>What the critical sections share: scheduler state, registry, metrics, the reporting
  queue, the progress tracker and the last KV usage of the monitor.\<close>

record sched =
  sd_drr :: drr_state
  sd_reg :: registry
  sd_met :: metrics
  sd_queue :: "flow_id list"
  sd_progress :: flow_progress
  sd_usage :: "f64 option"

record drr_cfg =
  dc_mode :: backpressure_mode
  dc_max_queue_depth :: nat
  dc_max_wait :: duration
  dc_retry_after_base :: duration
  dc_starvation_timeout :: duration
  dc_gate :: bias_gate
  dc_kv_bias :: kv_bias_cfg
  dc_kv_pressure :: kv_pressure_cfg
  dc_max_active_flows :: nat

definition queue_of :: "drr_state \<Rightarrow> flow_id \<Rightarrow> pending list" where
  "queue_of d f = (case hget (dr_waiting d) f of Some q \<Rightarrow> q | None \<Rightarrow> [])"

definition in_use :: "drr_state \<Rightarrow> nat" where
  "in_use d = unat (dr_max d - dr_available d)"

definition credit_of :: "registry \<Rightarrow> flow_id \<Rightarrow> i64" where
  "credit_of r f = (case reg_lookup r f of Some fl \<Rightarrow> fl_credit fl | None \<Rightarrow> 0)"

section \<open>Selection\<close>

definition pop_front :: "flow_id \<Rightarrow> drr_state \<Rightarrow> (pending \<times> drr_state) option" where
  "pop_front f d = (case queue_of d f of [] \<Rightarrow> None
     | p # ps \<Rightarrow> Some (p, d\<lparr>dr_waiting := hput f ps (dr_waiting d)\<rparr>))"

text \<open>Drop an emptied queue and rotate the served flow to the back of the cursor.\<close>

definition settle :: "flow_id \<Rightarrow> drr_state \<Rightarrow> drr_state" where
  "settle f d = (let d1 = (if queue_of d f = [] then d\<lparr>dr_waiting := hdel f (dr_waiting d)\<rparr> else d);
                     c = removeAll f (dr_cursor d1)
     in d1\<lparr>dr_cursor := (if queue_of d1 f \<noteq> [] then c @ [f] else c)\<rparr>)"

definition set_credit :: "flow_id \<Rightarrow> i64 \<Rightarrow> sched \<Rightarrow> sched" where
  "set_credit f c s = s\<lparr>sd_reg := reg_update f (\<lambda>fl. fl\<lparr>fl_credit := c\<rparr>) (sd_reg s),
     sd_met := set_flow_credit (metric_label f) c (sd_met s)\<rparr>"

definition clear_enqueued :: "flow_id \<Rightarrow> sched \<Rightarrow> sched" where
  "clear_enqueued f s = s\<lparr>sd_reg := reg_update f (\<lambda>fl. fl\<lparr>fl_enqueued_at := None\<rparr>) (sd_reg s)\<rparr>"

text \<open>The common tail of both selections: pop, debit, settle, clear the clock, take a permit.\<close>

definition take_head :: "flow_id \<Rightarrow> sched \<Rightarrow> (pending \<times> sched) option" where
  "take_head f s = (case pop_front f (sd_drr s) of None \<Rightarrow> None
     | Some (p, d) \<Rightarrow>
         let s1 = set_credit f (wrap_i64 (credit_of (sd_reg s) f - as_i64 (pd_work p))) (s\<lparr>sd_drr := d\<rparr>);
             d2 = settle f d
         in Some (p, (clear_enqueued f s1)\<lparr>sd_drr := d2\<lparr>dr_available := dr_available d2 - 1\<rparr>\<rparr>))"

fun find_starved :: "instant \<Rightarrow> nat \<Rightarrow> duration \<Rightarrow> flow_id list \<Rightarrow> registry
    \<Rightarrow> (flow_id \<times> duration) option \<times> registry" where
  "find_starved now unix timeout [] r = (None, r)"
| "find_starved now unix timeout (f # fs) r = (let (fl, r1) = get_or_create unix f r in
     case is_starved now timeout fl of Some wait \<Rightarrow> (Some (f, wait), r1)
     | None \<Rightarrow> find_starved now unix timeout fs r1)"

text \<open>Phase 2: every waiting flow of positive integer weight accrues its weight.\<close>

definition accrue_one :: "nat \<Rightarrow> nat \<times> flow_id \<Rightarrow> (nat \<times> flow_id) list \<times> bool \<times> sched
    \<Rightarrow> (nat \<times> flow_id) list \<times> bool \<times> sched" where
  "accrue_one unix e acc = (let (idx, f) = e; (eligible, accumulated, s) = acc in
     case queue_of (sd_drr s) f of [] \<Rightarrow> acc
     | p # _ \<Rightarrow>
        let (fl, r1) = get_or_create unix f (sd_reg s); s1 = s\<lparr>sd_reg := r1\<rparr>; w = weight_i64 fl in
        if w \<le> 0 then (eligible, accumulated, s1)
        else let d0 = (case hget (dr_deficit (sd_drr s)) f of Some x \<Rightarrow> x | None \<Rightarrow> 0);
                 d1 = wrap_i64 (d0 + w);
                 s2 = s1\<lparr>sd_drr := (sd_drr s1)\<lparr>dr_deficit := hput f d1 (dr_deficit (sd_drr s1))\<rparr>,
                         sd_met := set_flow_credit (metric_label f) (wrap_i64 (fl_credit fl + d1)) (sd_met s1)\<rparr>
             in (if as_i64 (pd_work p) \<le> d1 then eligible @ [(idx, f)] else eligible, True, s2))"

definition accrue :: "nat \<Rightarrow> sched \<Rightarrow> (nat \<times> flow_id) list \<times> bool \<times> sched" where
  "accrue unix s = fold (accrue_one unix) (enumerate 0 (dr_cursor (sd_drr s))) ([], False, s)"

definition candidate_of :: "sched \<Rightarrow> nat \<times> flow_id \<Rightarrow> candidate" where
  "candidate_of s e = \<lparr> c_flow = snd e,
     c_priority = (case reg_lookup (sd_reg s) (snd e) of Some fl \<Rightarrow> fl_priority fl | None \<Rightarrow> 0),
     c_enq = pd_enq (hd (queue_of (sd_drr s) (snd e))),
     c_base = f_of_nat (fst e),
     c_kv = footprint (sd_progress s) (snd e) \<rparr>"

text \<open>Building the candidates refreshes the flows once more.\<close>

definition touch_all :: "nat \<Rightarrow> flow_id list \<Rightarrow> registry \<Rightarrow> registry" where
  "touch_all unix fs r = fold (\<lambda>f r. snd (get_or_create unix f r)) fs r"

text \<open>No flow eligible: rotate the cursor and clean up empty queues.\<close>

definition rotate :: "'a list \<Rightarrow> 'a list" where
  "rotate xs = (case xs of [] \<Rightarrow> [] | x # ys \<Rightarrow> ys @ [x])"

definition purge_flow :: "flow_id \<Rightarrow> drr_state \<Rightarrow> drr_state" where
  "purge_flow f d = d\<lparr>dr_waiting := hdel f (dr_waiting d), dr_deficit := hdel f (dr_deficit d),
     dr_cursor := removeAll f (dr_cursor d)\<rparr>"

definition rotate_and_clean :: "drr_state \<Rightarrow> drr_state" where
  "rotate_and_clean d = fold purge_flow (map fst (filter (\<lambda>(f, q). q = []) (dr_waiting d)))
     (d\<lparr>dr_cursor := rotate (dr_cursor d)\<rparr>)"

type_synonym selection = "(flow_id \<times> pending \<times> f64) option"

definition select_eligible :: "drr_cfg \<Rightarrow> nat \<Rightarrow> (nat \<times> flow_id) list \<Rightarrow> sched \<Rightarrow> (selection \<times> bool \<times> sched) option" where
  "select_eligible cfg unix eligible s =
     (let s1 = s\<lparr>sd_reg := touch_all unix (map snd eligible) (sd_reg s)\<rparr>;
          cands = map (candidate_of s1) eligible
      in case kv_select (dc_kv_bias cfg) cands (kv_pressure_of (sd_usage s1)) of
           None \<Rightarrow> None
         | Some f \<Rightarrow>
            if f \<notin> snd ` set eligible then None
            else let s2 = s1\<lparr>sd_drr := (sd_drr s1)\<lparr>dr_deficit := hdel f (dr_deficit (sd_drr s1))\<rparr>,
                              sd_reg := snd (get_or_create unix f (sd_reg s1))\<rparr>
                 in (case take_head f s2 of None \<Rightarrow> None
                     | Some (p, s3) \<Rightarrow> Some (Some (f, p, pd_work p), True, s3)))"

definition try_select :: "drr_cfg \<Rightarrow> instant \<Rightarrow> nat \<Rightarrow> nat \<Rightarrow> sched \<Rightarrow> (selection \<times> bool \<times> sched) option" where
  "try_select cfg now unix cap s =
     (if cap \<le> in_use (sd_drr s) then Some (None, False, s)
      else if dr_cursor (sd_drr s) = [] then Some (None, False, s)
      else
        (let (starved, r) = find_starved now unix (dc_starvation_timeout cfg)
               (filter (\<lambda>f. queue_of (sd_drr s) f \<noteq> []) (dr_cursor (sd_drr s))) (sd_reg s);
             s0 = s\<lparr>sd_reg := r\<rparr>
         in case starved of
              Some (f, wait) \<Rightarrow>
                (let fl = (case reg_lookup r f of Some fl \<Rightarrow> fl | None \<Rightarrow> flow_new f (rg_default_weight r) (rg_default_priority r) unix);
                     s1 = s0\<lparr>sd_met := record_force_admit fl wait (sd_met s0)\<rparr>
                 in case take_head f s1 of None \<Rightarrow> None
                    | Some (p, s2) \<Rightarrow> Some (Some (f, p, pd_work p), True, s2))
            | None \<Rightarrow>
                (let (eligible, accumulated, s1) = accrue unix s0 in
                 if eligible \<noteq> [] then select_eligible cfg unix eligible s1
                 else Some (None, accumulated, s1\<lparr>sd_drr := rotate_and_clean (sd_drr s1)\<rparr>))))"

section \<open>Enqueueing, the guard and tickets\<close>

definition guard_new :: "flow_id \<Rightarrow> sched \<Rightarrow> sched" where
  "guard_new f s =
     (let r = reg_update f (\<lambda>fl. fl\<lparr>fl_depth := fl_depth fl + 1\<rparr>) (sd_reg s);
          v = (case reg_lookup r f of Some fl \<Rightarrow> unat (fl_depth fl) | None \<Rightarrow> 0)
      in s\<lparr>sd_reg := r, sd_met := set_queue_depth (metric_label f) v (sd_met s), sd_queue := sd_queue s @ [f]\<rparr>)"

definition enqueue :: "flow_id \<Rightarrow> f64 \<Rightarrow> instant \<Rightarrow> sched \<Rightarrow> nat \<times> sched" where
  "enqueue f work enter s =
     (let d = sd_drr s; my_id = dr_next_id d;
          d1 = d\<lparr>dr_next_id := my_id + 1,
                 dr_waiting := hput f (queue_of d f @ [\<lparr> pd_id = my_id, pd_enq = enter, pd_work = work \<rparr>]) (dr_waiting d),
                 dr_cursor := (if f \<in> set (dr_cursor d) then dr_cursor d else dr_cursor d @ [f])\<rparr>
      in (my_id, s\<lparr>sd_drr := d1,
                  sd_reg := reg_update f (\<lambda>fl. fl\<lparr>fl_enqueued_at := Some enter\<rparr>) (sd_reg s)\<rparr>))"

text \<open>\<open>fetch_sub(1)\<close> wraps; the gauge shows the old value minus one, saturating.\<close>

definition leave_queue :: "flow_id \<Rightarrow> sched \<Rightarrow> sched" where
  "leave_queue f s =
     (let old = (case reg_lookup (sd_reg s) f of Some fl \<Rightarrow> unat (fl_depth fl) | None \<Rightarrow> 0)
      in s\<lparr>sd_reg := reg_update f (\<lambda>fl. fl\<lparr>fl_depth := fl_depth fl - 1\<rparr>) (sd_reg s),
           sd_met := set_queue_depth (metric_label f) (old - 1) (sd_met s),
           sd_queue := remove1 f (sd_queue s)\<rparr>)"

definition guard_consume :: "flow_id \<Rightarrow> sched \<Rightarrow> sched" where
  "guard_consume f s = leave_queue f s"

definition remove_pending :: "flow_id \<Rightarrow> nat option \<Rightarrow> drr_state \<Rightarrow> drr_state \<times> bool" where
  "remove_pending f pid d = (case hget (dr_waiting d) f of None \<Rightarrow> (d, False)
     | Some q \<Rightarrow>
        let q' = (case pid of Some i \<Rightarrow> filter (\<lambda>p. pd_id p \<noteq> i) q | None \<Rightarrow> q);
            d1 = d\<lparr>dr_waiting := hput f q' (dr_waiting d)\<rparr>
        in if q' = [] then (purge_flow f d1, True) else (d1, False))"

definition guard_drop :: "flow_id \<Rightarrow> nat option \<Rightarrow> sched \<Rightarrow> sched" where
  "guard_drop f pid s =
     (let s1 = leave_queue f s; (d, emptied) = remove_pending f pid (sd_drr s1);
          m = (if emptied then set_flow_credit (metric_label f) (credit_of (sd_reg s1) f) (sd_met s1) else sd_met s1)
      in clear_enqueued f (s1\<lparr>sd_drr := d, sd_met := m\<rparr>))"

definition release_permit :: "sched \<Rightarrow> sched" where
  "release_permit s = s\<lparr>sd_drr := (sd_drr s)\<lparr>dr_available := dr_available (sd_drr s) + 1\<rparr>\<rparr>"

text \<open>After a successful receive: the request is admitted.\<close>

definition admitted :: "flow_id \<Rightarrow> duration \<Rightarrow> sched \<Rightarrow> sched" where
  "admitted f wait s = (let s1 = guard_consume f s in
     s1\<lparr>sd_met := (sd_met s1)\<lparr>m_queue_wait := m_queue_wait (sd_met s1) @ [wait],
                            m_active_flows := m_active_flows (sd_met s1) + 1\<rparr>,
        sd_reg := reg_update f inc_active (sd_reg s1)\<rparr>)"

text \<open>The drop handler that \<open>make_ticket\<close> installs.\<close>

definition ticket_drop :: "flow_id \<Rightarrow> sched \<Rightarrow> sched" where
  "ticket_drop f s = release_permit (s\<lparr>sd_met := (sd_met s)\<lparr>m_active_flows := m_active_flows (sd_met s) - 1\<rparr>,
     sd_reg := reg_update f dec_active (sd_reg s)\<rparr>)"

datatype accounting_report = Completed int int | Cancelled int

definition restore_cost :: "accounting_report \<Rightarrow> int" where
  "restore_cost rep = (case rep of Completed _ c \<Rightarrow> c | Cancelled c \<Rightarrow> c)"

text \<open>
  \<open>report_accounting\<close> loads the balance and stores the new one without a lock, in two accesses to the flow's atomic; other
  writers of the balance may come in between.
\<close>

definition accounting_load :: "nat \<Rightarrow> flow_id \<Rightarrow> sched \<Rightarrow> i64 \<times> sched" where
  "accounting_load unix f s = (let s1 = s\<lparr>sd_reg := snd (get_or_create unix f (sd_reg s))\<rparr>
     in (credit_of (sd_reg s1) f, s1))"

definition accounting_store :: "flow_id \<Rightarrow> i64 \<Rightarrow> accounting_report \<Rightarrow> sched \<Rightarrow> sched" where
  "accounting_store f current rep s = set_credit f (wrap_i64 (current + restore_cost rep)) s"

definition report_accounting :: "nat \<Rightarrow> flow_id \<Rightarrow> accounting_report \<Rightarrow> sched \<Rightarrow> sched" where
  "report_accounting unix f rep s = (let (current, s1) = accounting_load unix f s in accounting_store f current rep s1)"

lemma report_accounting_eq:
  "report_accounting unix f rep s =
     (let s1 = s\<lparr>sd_reg := snd (get_or_create unix f (sd_reg s))\<rparr>
      in set_credit f (wrap_i64 (credit_of (sd_reg s1) f + restore_cost rep)) s1)"
  by (simp add: report_accounting_def accounting_load_def accounting_store_def Let_def)

definition drr_queue_depth :: "sched \<Rightarrow> u32" where
  "drr_queue_depth s = sum_depths (sd_reg s)"

definition drr_queue_snapshot :: "sched \<Rightarrow> queue_snapshot" where
  "drr_queue_snapshot s = reg_queue_snapshot (nat (min (2 ^ 64 - 1) (max 0 (m_active_flows (sd_met s)))))
     (unat (drr_queue_depth s)) (sd_queue s) (sd_reg s)"

section \<open>The admission loop\<close>

text \<open>
  One iteration of the inner loop of \<open>admission_loop\<close> up to the point where a ticket is
  made; \<open>last_cap\<close> only controls the gauge.  The loop computes the live cap from the monitor's last
  reading, and \<open>try_select\<close> reads the monitor once more for the KV bias: \<open>reading\<close> is what it finds.
\<close>

datatype round_result = Break | Again | Grant flow_id pending

definition live_cap :: "drr_cfg \<Rightarrow> sched \<Rightarrow> nat" where
  "live_cap cfg s = effective_max (dc_kv_pressure cfg) (dc_max_active_flows cfg) (kv_pressure_of (sd_usage s))"

definition admission_round :: "drr_cfg \<Rightarrow> instant \<Rightarrow> nat \<Rightarrow> f64 option \<Rightarrow> nat \<Rightarrow> sched \<Rightarrow> (round_result \<times> nat \<times> sched) option" where
  "admission_round cfg now unix reading last_cap s =
     (let cap = live_cap cfg s;
          s1 = (if cap \<noteq> last_cap then s\<lparr>sd_met := (sd_met s)\<lparr>m_effective_max := cap\<rparr>\<rparr> else s)
      in if cap \<le> in_use (sd_drr s1) \<or> dr_cursor (sd_drr s1) = [] then Some (Break, cap, s1)
         else case try_select cfg now unix cap (s1\<lparr>sd_usage := reading\<rparr>) of
             None \<Rightarrow> None
           | Some (None, accumulated, s2) \<Rightarrow> Some (if accumulated then Again else Break, cap, s2)
           | Some (Some (f, p, w), _, s2) \<Rightarrow> Some (Grant f p, cap, s2))"

text \<open>Sending the ticket; if the receiver is gone, the permit comes back at once.\<close>

definition deliver_ticket :: "nat \<Rightarrow> bool \<Rightarrow> flow_id \<Rightarrow> sched \<Rightarrow> sched" where
  "deliver_ticket unix received f s = (let s1 = s\<lparr>sd_reg := snd (get_or_create unix f (sd_reg s))\<rparr>
     in if received then s1 else release_permit s1)"

text \<open>
  The inner loop, from waking up to sleeping again: the tickets made, in order, and the state at the end; \<open>None\<close> if
  the fuel is spent or a round panics.  What the loop meets in each iteration - the clocks, the monitor's reading, what
  other tasks have done since the last one, whether the receiver of a ticket is still there - is its environment,
  indexed by the fuel left.
\<close>

record loop_env =
  le_now :: "nat \<Rightarrow> instant"
  le_unix :: "nat \<Rightarrow> nat"
  le_reading :: "nat \<Rightarrow> f64 option"
  le_others :: "nat \<Rightarrow> sched \<Rightarrow> sched"
  le_received :: "nat \<Rightarrow> bool"

fun admission_loop :: "nat \<Rightarrow> drr_cfg \<Rightarrow> loop_env \<Rightarrow> nat \<Rightarrow> sched \<Rightarrow> ((flow_id \<times> pending) list \<times> sched) option" where
  "admission_loop 0 cfg env last_cap s = None"
| "admission_loop (Suc n) cfg env last_cap s =
     (case admission_round cfg (le_now env n) (le_unix env n) (le_reading env n) last_cap (le_others env n s) of
        None \<Rightarrow> None
      | Some (Break, cap, s') \<Rightarrow> Some ([], s')
      | Some (Again, cap, s') \<Rightarrow> admission_loop n cfg env cap s'
      | Some (Grant f p, cap, s') \<Rightarrow>
          (case admission_loop n cfg env cap (deliver_ticket (le_unix env n) (le_received env n) f s') of
             None \<Rightarrow> None
           | Some (tickets, s2) \<Rightarrow> Some ((f, p) # tickets, s2)))"

text \<open>
  The start of \<open>admit\<close>: the flow is created or refreshed, fail-fast mode compares the
  depth with the limit, and every request that goes on holds a guard.
\<close>

definition admit_enter :: "drr_cfg \<Rightarrow> nat \<Rightarrow> flow_id \<Rightarrow> sched \<Rightarrow> duration option option \<times> sched" where
  "admit_enter cfg unix f s =
     (let s1 = s\<lparr>sd_reg := snd (get_or_create unix f (sd_reg s))\<rparr>; depth = unat (drr_queue_depth s1) in
      if dc_mode cfg = FailFast \<and> dc_max_queue_depth cfg < depth
      then (Some (fail_fast_retry_after depth (dc_max_queue_depth cfg) (dc_retry_after_base cfg)), s1)
      else (None, guard_new f s1))"

text \<open>Hybrid mode: the rejection after \<open>max_wait\<close>, computed before the guard is dropped.\<close>

definition hybrid_timeout :: "drr_cfg \<Rightarrow> flow_id \<Rightarrow> nat \<Rightarrow> sched \<Rightarrow> duration option \<times> sched" where
  "hybrid_timeout cfg f my_id s =
     (fail_fast_retry_after (unat (drr_queue_depth s)) (dc_max_queue_depth cfg) (dc_retry_after_base cfg),
      guard_drop f (Some my_id) s)"

end
