(* ===== verification/DrrProps.thy ===== *)
theory DrrProps
  imports Drr
begin

text \<open>
  Properties of the critical sections of the DRR scheduler.  \<open>drr_inv\<close> is the invariant
  of the queue structure; \<open>reg_view\<close> is the registry without the access times, which
  \<open>get_or_create\<close> does not change; \<open>grants\<close> is the contract of a selection.
\<close>

section \<open>The registry seen through its accessors\<close>

definition reg_view :: "nat \<Rightarrow> registry \<Rightarrow> flow_id \<Rightarrow> flow" where
  "reg_view u r f = (reg_flow u r f)\<lparr>fl_last_seen := 0\<rparr>"

lemma reg_flow_get_or_create:
  "reg_flow u (snd (get_or_create u f r)) g = (if g = f then (reg_flow u r f)\<lparr>fl_last_seen := u\<rparr> else reg_flow u r g)"
  by (simp add: reg_flow_def split: option.split)

lemma reg_view_get_or_create [simp]: "reg_view u (snd (get_or_create u f r)) = reg_view u r"
  by (rule ext) (simp add: reg_view_def reg_flow_get_or_create)

lemma reg_view_touch_all [simp]: "reg_view u (touch_all u fs r) = reg_view u r"
  by (induction fs arbitrary: r) (simp_all add: touch_all_def)

lemma get_or_create_fst_view:
  "fl_credit (fst (get_or_create u f r)) = fl_credit (reg_view u r f)"
  "weight_i64 (fst (get_or_create u f r)) = weight_i64 (reg_view u r f)"
  "is_starved now t (fst (get_or_create u f r)) = is_starved now t (reg_view u r f)"
  by (simp_all add: get_or_create_fst reg_view_def weight_i64_def is_starved_def)

lemma credit_of_view: "credit_of r f = fl_credit (reg_view u r f)"
  by (simp add: credit_of_def reg_view_def reg_flow_def split: option.split)

definition registered :: "registry \<Rightarrow> flow_id \<Rightarrow> bool" where
  "registered r f \<longleftrightarrow> reg_lookup r f \<noteq> None"

lemma registered_simps [simp]:
  "registered (snd (get_or_create u f r)) g \<longleftrightarrow> g = f \<or> registered r g"
  "registered (reg_update f h r) g \<longleftrightarrow> registered r g"
  by (auto simp: registered_def)

lemma registered_touch_all [simp]: "registered (touch_all u fs r) g \<longleftrightarrow> g \<in> set fs \<or> registered r g"
  by (induction fs arbitrary: r) (auto simp: touch_all_def)

lemma reg_view_update:
  assumes "registered r f"
  shows "reg_view u (reg_update f h r) g = (if g = f then (h (reg_flow u r f))\<lparr>fl_last_seen := 0\<rparr> else reg_view u r g)"
  using assms by (auto simp: reg_view_def reg_flow_def registered_def split: option.split)

section \<open>The queue structure\<close>

definition drr_inv :: "drr_state \<Rightarrow> bool" where
  "drr_inv d \<longleftrightarrow> distinct (dr_cursor d) \<and> hwf (dr_waiting d)
     \<and> (\<forall>f. f \<in> set (dr_cursor d) \<longleftrightarrow> hget (dr_waiting d) f \<noteq> None)
     \<and> (\<forall>f q. hget (dr_waiting d) f = Some q \<longrightarrow> q \<noteq> [])
     \<and> (\<forall>f. sorted_wrt (<) (map pd_id (queue_of d f)))
     \<and> (\<forall>f. \<forall>p \<in> set (queue_of d f). pd_id p < dr_next_id d)"

lemma drr_invD:
  assumes "drr_inv d"
  shows "distinct (dr_cursor d)" "hwf (dr_waiting d)" "f \<in> set (dr_cursor d) \<longleftrightarrow> queue_of d f \<noteq> []"
    "hget (dr_waiting d) f = Some q \<Longrightarrow> q \<noteq> []" "sorted_wrt (<) (map pd_id (queue_of d f))"
    "p \<in> set (queue_of d f) \<Longrightarrow> pd_id p < dr_next_id d"
  using assms by (auto simp: drr_inv_def queue_of_def split: option.splits)

text \<open>The invariant in terms of \<open>queue_of\<close> alone, for updates of one queue.\<close>

lemma drr_invI:
  assumes "distinct (dr_cursor d)" "hwf (dr_waiting d)"
    "\<And>f. f \<in> set (dr_cursor d) \<longleftrightarrow> queue_of d f \<noteq> []"
    "\<And>f. hget (dr_waiting d) f = None \<or> queue_of d f \<noteq> []"
    "\<And>f. sorted_wrt (<) (map pd_id (queue_of d f))"
    "\<And>f p. p \<in> set (queue_of d f) \<Longrightarrow> pd_id p < dr_next_id d"
  shows "drr_inv d"
proof -
  have "q \<noteq> []" if "hget (dr_waiting d) f = Some q" for f q
    using assms(4)[of f] that by (simp add: queue_of_def)
  moreover have "f \<in> set (dr_cursor d) \<longleftrightarrow> hget (dr_waiting d) f \<noteq> None" for f
    using assms(3,4)[of f] by (auto simp: queue_of_def split: option.splits)
  ultimately show ?thesis using assms by (auto simp: drr_inv_def)
qed

lemma drr_inv_new [simp]: "drr_inv (drr_new n)"
  by (simp add: drr_inv_def drr_new_def queue_of_def)

lemma queue_of_upd [simp]:
  "queue_of (d\<lparr>dr_available := a\<rparr>) f = queue_of d f" "queue_of (d\<lparr>dr_deficit := x\<rparr>) f = queue_of d f"
  "queue_of (d\<lparr>dr_cursor := c\<rparr>) f = queue_of d f" "queue_of (d\<lparr>dr_next_id := n\<rparr>) f = queue_of d f"
  "queue_of (d\<lparr>dr_waiting := hput g q (dr_waiting d)\<rparr>) f = (if f = g then q else queue_of d f)"
  "queue_of (d\<lparr>dr_waiting := hdel g (dr_waiting d)\<rparr>) f = (if f = g then [] else queue_of d f)"
  by (simp_all add: queue_of_def)

lemma drr_inv_upd [simp]:
  "drr_inv (d\<lparr>dr_available := a\<rparr>) \<longleftrightarrow> drr_inv d" "drr_inv (d\<lparr>dr_deficit := x\<rparr>) \<longleftrightarrow> drr_inv d"
  by (simp_all add: drr_inv_def queue_of_def)

text \<open>Popping the head and settling: the queue loses its head, the flow goes to the back.\<close>

definition pop_settle :: "flow_id \<Rightarrow> pending list \<Rightarrow> drr_state \<Rightarrow> drr_state" where
  "pop_settle f ps d = settle f (d\<lparr>dr_waiting := hput f ps (dr_waiting d)\<rparr>)"

lemma pop_settle_simps [simp]:
  "queue_of (pop_settle f ps d) g = (if g = f then ps else queue_of d g)"
  "dr_available (pop_settle f ps d) = dr_available d" "dr_max (pop_settle f ps d) = dr_max d"
  "dr_next_id (pop_settle f ps d) = dr_next_id d" "dr_deficit (pop_settle f ps d) = dr_deficit d"
  "dr_cursor (pop_settle f ps d) = removeAll f (dr_cursor d) @ (if ps = [] then [] else [f])"
  by (auto simp: pop_settle_def settle_def Let_def queue_of_def)

lemma pop_settle_waiting:
  "hget (dr_waiting (pop_settle f ps d)) g = (if g = f then if ps = [] then None else Some ps else hget (dr_waiting d) g)"
  "hwf (dr_waiting d) \<Longrightarrow> hwf (dr_waiting (pop_settle f ps d))"
  by (simp_all add: pop_settle_def settle_def Let_def)

lemma pop_settle_inv:
  assumes "drr_inv d" and "queue_of d f = p # ps"
  shows "drr_inv (pop_settle f ps d)"
proof (rule drr_invI)
  note inv = drr_invD[OF assms(1)]
  show "distinct (dr_cursor (pop_settle f ps d))" using inv(1) by (simp add: distinct_removeAll)
  show "hwf (dr_waiting (pop_settle f ps d))" using inv(2) by (simp add: pop_settle_waiting)
  fix g
  show "g \<in> set (dr_cursor (pop_settle f ps d)) \<longleftrightarrow> queue_of (pop_settle f ps d) g \<noteq> []"
    using inv(3) by auto
  show "hget (dr_waiting (pop_settle f ps d)) g = None \<or> queue_of (pop_settle f ps d) g \<noteq> []"
    using inv(4) by (auto simp: pop_settle_waiting queue_of_def split: option.splits)
  show "sorted_wrt (<) (map pd_id (queue_of (pop_settle f ps d) g))"
    using inv(5)[of f] inv(5)[of g] assms(2) by simp
  show "\<And>q. q \<in> set (queue_of (pop_settle f ps d) g) \<Longrightarrow> pd_id q < dr_next_id (pop_settle f ps d)"
    using inv(6)[of _ f] inv(6)[of _ g] assms(2) by (auto split: if_splits)
qed

section \<open>The contract of a selection\<close>

text \<open>
  \<open>grants f p s s'\<close>: the request p at the head of f's queue is taken - the queue loses
  exactly its head, every other queue is unchanged, f leaves its cursor position (to the
  back, if it has more requests), the credit of f is debited by the request's work and no
  other credit changes, the flow's queueing clock is cleared and one permit is taken.
\<close>

definition grants :: "nat \<Rightarrow> flow_id \<Rightarrow> pending \<Rightarrow> sched \<Rightarrow> sched \<Rightarrow> bool" where
  "grants u f p s s' \<longleftrightarrow>
     (\<exists>ps. queue_of (sd_drr s) f = p # ps
       \<and> (\<forall>g. queue_of (sd_drr s') g = (if g = f then ps else queue_of (sd_drr s) g))
       \<and> dr_cursor (sd_drr s') = removeAll f (dr_cursor (sd_drr s)) @ (if ps = [] then [] else [f]))
   \<and> dr_available (sd_drr s') = dr_available (sd_drr s) - 1
   \<and> dr_max (sd_drr s') = dr_max (sd_drr s) \<and> dr_next_id (sd_drr s') = dr_next_id (sd_drr s)
   \<and> (\<forall>g. reg_view u (sd_reg s') g =
        (if g = f then (reg_view u (sd_reg s) f)\<lparr>fl_credit := wrap_i64 (fl_credit (reg_view u (sd_reg s) f) - as_i64 (pd_work p)),
                                                 fl_enqueued_at := None\<rparr>
         else reg_view u (sd_reg s) g))
   \<and> m_active_flows (sd_met s') = m_active_flows (sd_met s)
   \<and> sd_queue s' = sd_queue s \<and> sd_progress s' = sd_progress s \<and> sd_usage s' = sd_usage s"

lemma take_head_spec:
  assumes "drr_inv (sd_drr s)" and "queue_of (sd_drr s) f = p # ps" and "registered (sd_reg s) f"
  shows "\<exists>s'. take_head f s = Some (p, s') \<and> grants u f p s s' \<and> drr_inv (sd_drr s')
    \<and> dr_deficit (sd_drr s') = dr_deficit (sd_drr s)"
proof -
  let ?c = "wrap_i64 (credit_of (sd_reg s) f - as_i64 (pd_work p))"
  let ?d = "pop_settle f ps (sd_drr s)"
  let ?s' = "(clear_enqueued f (set_credit f ?c s))\<lparr>sd_drr := ?d\<lparr>dr_available := dr_available ?d - 1\<rparr>\<rparr>"
  have "take_head f s = Some (p, ?s')"
    using assms(2) by (simp add: take_head_def pop_front_def Let_def set_credit_def clear_enqueued_def
        pop_settle_def)
  moreover have "reg_view u (sd_reg ?s') g = (if g = f then (reg_view u (sd_reg s) f)\<lparr>fl_credit := ?c, fl_enqueued_at := None\<rparr>
         else reg_view u (sd_reg s) g)" for g
    using assms(3)
    by (auto simp: clear_enqueued_def set_credit_def reg_view_def reg_flow_def registered_def split: option.split)
  then have "grants u f p s ?s'"
    using assms(2) by (simp add: grants_def credit_of_view[of _ _ u] clear_enqueued_def set_credit_def)
  moreover have "drr_inv (sd_drr ?s')" using pop_settle_inv[OF assms(1,2)] by simp
  ultimately show ?thesis by (intro exI[of _ ?s']) simp
qed

section \<open>Starved flows\<close>

lemma find_starved_spec:
  "reg_view u (snd (find_starved now u t fs r)) = reg_view u r
   \<and> fst (find_starved now u t fs r) = map_option (\<lambda>f. (f, the (is_starved now t (reg_view u r f))))
        (List.find (\<lambda>f. is_starved now t (reg_view u r f) \<noteq> None) fs)
   \<and> (\<forall>f. registered r f \<longrightarrow> registered (snd (find_starved now u t fs r)) f)
   \<and> (\<forall>f w. fst (find_starved now u t fs r) = Some (f, w) \<longrightarrow> registered (snd (find_starved now u t fs r)) f)"
proof (induction fs arbitrary: r)
  case (Cons f fs)
  let ?r1 = "snd (get_or_create u f r)"
  show ?case using Cons.IH[of ?r1] get_or_create_fst_view(3)[of now t u f r]
    by (cases "is_starved now t (reg_view u r f)") (simp_all add: split_beta)
qed simp

section \<open>Accrual\<close>

definition deficit_of :: "drr_state \<Rightarrow> flow_id \<Rightarrow> i64" where
  "deficit_of d f = (case hget (dr_deficit d) f of Some x \<Rightarrow> x | None \<Rightarrow> 0)"

text \<open>A flow takes part in a round if it has a request and a positive integer weight.\<close>

definition accrues :: "nat \<Rightarrow> sched \<Rightarrow> flow_id \<Rightarrow> bool" where
  "accrues u s f \<longleftrightarrow> queue_of (sd_drr s) f \<noteq> [] \<and> 0 < weight_i64 (reg_view u (sd_reg s) f)"

definition next_deficit :: "nat \<Rightarrow> sched \<Rightarrow> flow_id \<Rightarrow> i64" where
  "next_deficit u s f = wrap_i64 (deficit_of (sd_drr s) f + weight_i64 (reg_view u (sd_reg s) f))"

definition eligible_in :: "nat \<Rightarrow> sched \<Rightarrow> flow_id \<Rightarrow> bool" where
  "eligible_in u s f \<longleftrightarrow> accrues u s f \<and> as_i64 (pd_work (hd (queue_of (sd_drr s) f))) \<le> next_deficit u s f"

text \<open>What accrual leaves alone.\<close>

definition same_queues :: "sched \<Rightarrow> sched \<Rightarrow> bool" where
  "same_queues s s' \<longleftrightarrow> dr_waiting (sd_drr s') = dr_waiting (sd_drr s) \<and> dr_cursor (sd_drr s') = dr_cursor (sd_drr s)
     \<and> dr_available (sd_drr s') = dr_available (sd_drr s) \<and> dr_max (sd_drr s') = dr_max (sd_drr s)
     \<and> dr_next_id (sd_drr s') = dr_next_id (sd_drr s) \<and> m_active_flows (sd_met s') = m_active_flows (sd_met s)
     \<and> sd_queue s' = sd_queue s \<and> sd_progress s' = sd_progress s \<and> sd_usage s' = sd_usage s"

lemma same_queues_refl [simp]: "same_queues s s"
  by (simp add: same_queues_def)

lemma same_queues_trans: "same_queues a b \<Longrightarrow> same_queues b c \<Longrightarrow> same_queues a c"
  by (simp add: same_queues_def)

lemma same_queues_queue_of: "same_queues s s' \<Longrightarrow> queue_of (sd_drr s') = queue_of (sd_drr s)"
  by (rule ext) (simp add: same_queues_def queue_of_def)

lemma same_queues_inv: "same_queues s s' \<Longrightarrow> drr_inv (sd_drr s') = drr_inv (sd_drr s)"
  by (simp add: same_queues_def drr_inv_def queue_of_def)

lemma same_queues_reg [simp]: "same_queues s (s\<lparr>sd_reg := r\<rparr>)"
  by (simp add: same_queues_def)

lemma accrue_one_spec:
  fixes acc :: "(nat \<times> flow_id) list \<times> bool \<times> sched"
  assumes "acc = (el, ac, s)" and "accrue_one u (idx, f) acc = (el', ac', s')"
  shows "same_queues s s' \<and> reg_view u (sd_reg s') = reg_view u (sd_reg s)
    \<and> (\<forall>g. registered (sd_reg s) g \<longrightarrow> registered (sd_reg s') g)
    \<and> (accrues u s f \<longrightarrow> registered (sd_reg s') f)
    \<and> ac' = (ac \<or> accrues u s f)
    \<and> el' = (if eligible_in u s f then el @ [(idx, f)] else el)
    \<and> (\<forall>g. deficit_of (sd_drr s') g = (if g = f \<and> accrues u s f then next_deficit u s f else deficit_of (sd_drr s) g))"
proof (cases "accrues u s f")
  case False
  then show ?thesis using assms get_or_create_fst_view(2)[of u f "sd_reg s"]
    by (auto simp: accrue_one_def accrues_def eligible_in_def split_beta Let_def same_queues_def
        split: list.splits if_splits)
next
  case True
  then obtain p ps where q: "queue_of (sd_drr s) f = p # ps" and w: "0 < weight_i64 (reg_view u (sd_reg s) f)"
    by (cases "queue_of (sd_drr s) f") (auto simp: accrues_def)
  define nd where "nd = next_deficit u s f"
  define cr where "cr = wrap_i64 (fl_credit (reg_view u (sd_reg s) f) + nd)"
  have nd: "wrap_i64 ((case hget (dr_deficit (sd_drr s)) f of Some x \<Rightarrow> x | None \<Rightarrow> 0)
      + weight_i64 (reg_view u (sd_reg s) f)) = nd"
    by (simp add: nd_def next_deficit_def deficit_of_def)
  have el: "eligible_in u s f \<longleftrightarrow> as_i64 (pd_work p) \<le> nd"
    using True q by (simp add: eligible_in_def nd_def)
  have "s' = s\<lparr>sd_reg := snd (get_or_create u f (sd_reg s)),
      sd_drr := (sd_drr s)\<lparr>dr_deficit := hput f nd (dr_deficit (sd_drr s))\<rparr>,
      sd_met := set_flow_credit (metric_label f) cr (sd_met s)\<rparr>"
    and "ac'" and "el' = (if as_i64 (pd_work p) \<le> nd then el @ [(idx, f)] else el)"
    using assms q w by (simp_all add: accrue_one_def split_beta get_or_create_fst_view nd cr_def split: if_splits)
  then show ?thesis using True el nd_def by (simp add: same_queues_def deficit_of_def)
qed

lemma accrual_cong:
  assumes "queue_of (sd_drr s1) = queue_of (sd_drr s)" and "reg_view u (sd_reg s1) = reg_view u (sd_reg s)"
    and "deficit_of (sd_drr s1) g = deficit_of (sd_drr s) g"
  shows "accrues u s1 g = accrues u s g" "next_deficit u s1 g = next_deficit u s g"
    "eligible_in u s1 g = eligible_in u s g"
  using assms by (simp_all add: accrues_def next_deficit_def eligible_in_def)

lemma accrue_fold:
  assumes "distinct (map snd es)" and "fold (accrue_one u) es (el, ac, s) = (el', ac', s')"
  shows "same_queues s s' \<and> reg_view u (sd_reg s') = reg_view u (sd_reg s)
    \<and> (\<forall>g. registered (sd_reg s) g \<longrightarrow> registered (sd_reg s') g)
    \<and> (\<forall>f \<in> snd ` set es. accrues u s f \<longrightarrow> registered (sd_reg s') f)
    \<and> ac' = (ac \<or> (\<exists>f \<in> snd ` set es. accrues u s f))
    \<and> el' = el @ filter (\<lambda>e. eligible_in u s (snd e)) es
    \<and> (\<forall>g. deficit_of (sd_drr s') g = (if g \<in> snd ` set es \<and> accrues u s g then next_deficit u s g else deficit_of (sd_drr s) g))"
  using assms
proof (induction es arbitrary: el ac s)
  case (Cons e es)
  obtain idx f where e: "e = (idx, f)" by (cases e)
  obtain el1 ac1 s1 where one: "accrue_one u (idx, f) (el, ac, s) = (el1, ac1, s1)" by (metis prod_cases3)
  note st = accrue_one_spec[OF refl one]
  have q: "queue_of (sd_drr s1) = queue_of (sd_drr s)" using st same_queues_queue_of by blast
  have f: "f \<notin> snd ` set es" using Cons.prems(1) e by simp
  have other: "accrues u s1 g = accrues u s g" "next_deficit u s1 g = next_deficit u s g"
    "eligible_in u s1 g = eligible_in u s g" "deficit_of (sd_drr s1) g = deficit_of (sd_drr s) g"
    if g: "g \<in> snd ` set es" for g
  proof -
    have "g \<noteq> f" using g f by auto
    then have d: "deficit_of (sd_drr s1) g = deficit_of (sd_drr s) g" using st by simp
    have v: "reg_view u (sd_reg s1) = reg_view u (sd_reg s)" using st by blast
    show "accrues u s1 g = accrues u s g" "next_deficit u s1 g = next_deficit u s g"
      "eligible_in u s1 g = eligible_in u s g" "deficit_of (sd_drr s1) g = deficit_of (sd_drr s) g"
      using accrual_cong[OF q v d] d by blast+
  qed
  have "filter (\<lambda>e. eligible_in u s1 (snd e)) es = filter (\<lambda>e. eligible_in u s (snd e)) es"
    using other(3) by (intro filter_cong) auto
  moreover note Cons.IH[of el1 ac1 s1] Cons.prems e one
  ultimately show ?case using st other f
    by (auto intro: same_queues_trans)
qed simp

lemma accrue_spec:
  assumes "drr_inv (sd_drr s)" and "accrue u s = (el, ac, s')"
  shows "same_queues s s'" "reg_view u (sd_reg s') = reg_view u (sd_reg s)" "drr_inv (sd_drr s')"
    "\<And>f. accrues u s f \<Longrightarrow> registered (sd_reg s') f"
    "ac \<longleftrightarrow> (\<exists>f. accrues u s f)"
    "el = filter (\<lambda>e. eligible_in u s (snd e)) (enumerate 0 (dr_cursor (sd_drr s)))"
    "\<And>g. deficit_of (sd_drr s') g = (if accrues u s g then next_deficit u s g else deficit_of (sd_drr s) g)"
proof -
  let ?es = "enumerate 0 (dr_cursor (sd_drr s))"
  note inv = drr_invD[OF assms(1)]
  have es: "snd ` set ?es = set (dr_cursor (sd_drr s))" by (metis map_snd_enumerate set_map)
  have cur: "accrues u s g \<Longrightarrow> g \<in> snd ` set ?es" for g unfolding es using inv(3) by (simp add: accrues_def)
  note fo = accrue_fold[OF _ assms(2)[unfolded accrue_def]]
  have ex: "(\<exists>f \<in> snd ` set ?es. accrues u s f) \<longleftrightarrow> (\<exists>f. accrues u s f)" using cur by blast
  show "ac \<longleftrightarrow> (\<exists>f. accrues u s f)" using fo inv(1) ex by simp
  show "same_queues s s'" "reg_view u (sd_reg s') = reg_view u (sd_reg s)"
    "\<And>f. accrues u s f \<Longrightarrow> registered (sd_reg s') f"
    "\<And>g. deficit_of (sd_drr s') g = (if accrues u s g then next_deficit u s g else deficit_of (sd_drr s) g)"
    using fo inv(1) cur by auto
  then show "drr_inv (sd_drr s')" using same_queues_inv assms(1) by blast
  show "el = filter (\<lambda>e. eligible_in u s (snd e)) ?es" using fo inv(1) by simp
qed

section \<open>One selection\<close>

definition starved_in :: "drr_cfg \<Rightarrow> instant \<Rightarrow> nat \<Rightarrow> sched \<Rightarrow> flow_id \<Rightarrow> bool" where
  "starved_in cfg now u s f \<longleftrightarrow> is_starved now (dc_starvation_timeout cfg) (reg_view u (sd_reg s) f) \<noteq> None"

definition first_starved :: "drr_cfg \<Rightarrow> instant \<Rightarrow> nat \<Rightarrow> sched \<Rightarrow> flow_id option" where
  "first_starved cfg now u s = List.find (starved_in cfg now u s) (dr_cursor (sd_drr s))"

text \<open>What \<open>grants\<close> says of the state before an access to the registry.\<close>

lemma grants_cong:
  assumes "queue_of (sd_drr s1) = queue_of (sd_drr s)" "dr_cursor (sd_drr s1) = dr_cursor (sd_drr s)"
    "dr_available (sd_drr s1) = dr_available (sd_drr s)" "dr_max (sd_drr s1) = dr_max (sd_drr s)"
    "dr_next_id (sd_drr s1) = dr_next_id (sd_drr s)" "reg_view u (sd_reg s1) = reg_view u (sd_reg s)"
    "m_active_flows (sd_met s1) = m_active_flows (sd_met s)" "sd_queue s1 = sd_queue s"
    "sd_progress s1 = sd_progress s" "sd_usage s1 = sd_usage s"
  shows "grants u f p s1 s' = grants u f p s s'"
  using assms by (simp add: grants_def)

lemma filter_cursor:
  "drr_inv d \<Longrightarrow> filter (\<lambda>f. queue_of d f \<noteq> []) (dr_cursor d) = dr_cursor d"
  by (simp add: drr_invD(3) filter_id_conv)

lemma try_select_starved_core:
  assumes "drr_inv (sd_drr s)" and "in_use (sd_drr s) < cap" and "first_starved cfg now u s = Some f"
  shows "\<exists>p s'. try_select cfg now u cap s = Some (Some (f, p, pd_work p), True, s')
    \<and> grants u f p s s' \<and> drr_inv (sd_drr s') \<and> m_force_admits (sd_met s') = m_force_admits (sd_met s) + 1
    \<and> dr_deficit (sd_drr s') = dr_deficit (sd_drr s)"
proof -
  note inv = drr_invD[OF assms(1)]
  have f: "f \<in> set (dr_cursor (sd_drr s))" "starved_in cfg now u s f"
    using assms(3) find_Some_iff_first by (fastforce simp: first_starved_def)+
  then obtain p ps where q: "queue_of (sd_drr s) f = p # ps"
    using inv(3)[of f] by (cases "queue_of (sd_drr s) f") auto
  define fs where "fs = find_starved now u (dc_starvation_timeout cfg) (dr_cursor (sd_drr s)) (sd_reg s)"
  obtain w where fst_fs: "fst fs = Some (f, w)" and view: "reg_view u (snd fs) = reg_view u (sd_reg s)"
    and reg: "registered (snd fs) f"
    using find_starved_spec[of u now "dc_starvation_timeout cfg" "dr_cursor (sd_drr s)" "sd_reg s"] assms(3)
    unfolding fs_def[symmetric] first_starved_def starved_in_def by auto
  obtain fl where fl: "reg_lookup (snd fs) f = Some fl" using reg by (auto simp: registered_def)
  let ?s1 = "s\<lparr>sd_reg := snd fs, sd_met := record_force_admit fl w (sd_met s)\<rparr>"
  obtain s' where s': "take_head f ?s1 = Some (p, s')" "grants u f p ?s1 s'" "drr_inv (sd_drr s')"
    "dr_deficit (sd_drr s') = dr_deficit (sd_drr s)"
    using take_head_spec[of ?s1 f p ps u] assms(1) q reg by auto
  have g: "grants u f p s s'"
    using s'(2) by (subst (asm) grants_cong[of _ s]) (simp_all add: view record_force_admit_def)
  have "m_force_admits (sd_met s') = m_force_admits (sd_met ?s1)"
    using s'(1) q by (auto simp: take_head_def pop_front_def Let_def set_credit_def clear_enqueued_def)
  moreover have "dr_cursor (sd_drr s) \<noteq> []" using f by auto
  moreover have "fs = (Some (f, w), snd fs)" using fst_fs by (cases fs) simp
  then have "find_starved now u (dc_starvation_timeout cfg) (dr_cursor (sd_drr s)) (sd_reg s) = (Some (f, w), snd fs)"
    by (simp only: fs_def)
  ultimately show ?thesis using s' g assms(2)
    by (intro exI[of _ p] exI[of _ s'])
      (simp add: try_select_def filter_cursor[OF assms(1)] fl record_force_admit_def not_le)
qed

text \<open>
  C17. Starvation protection: if some waiting flow has been queued for longer than the
  timeout, the first such flow in cursor order is granted its oldest request, whatever its
  deficit and priority; the queue structure stays well formed and the force-admit is
  counted.
\<close>

theorem try_select_starved:
  assumes "drr_inv (sd_drr s)" and "in_use (sd_drr s) < cap" and "first_starved cfg now u s = Some f"
  shows "\<exists>p s'. try_select cfg now u cap s = Some (Some (f, p, pd_work p), True, s')
    \<and> grants u f p s s' \<and> drr_inv (sd_drr s') \<and> m_force_admits (sd_met s') = m_force_admits (sd_met s) + 1"
  using try_select_starved_core[OF assms] by blast

text \<open>The candidates of a round and the flow the bias picks among them.\<close>

definition round_candidates :: "nat \<Rightarrow> sched \<Rightarrow> candidate list" where
  "round_candidates u s = map (\<lambda>e. \<lparr> c_flow = snd e, c_priority = fl_priority (reg_view u (sd_reg s) (snd e)),
       c_enq = pd_enq (hd (queue_of (sd_drr s) (snd e))), c_base = f_of_nat (fst e),
       c_kv = footprint (sd_progress s) (snd e) \<rparr>)
     (filter (\<lambda>e. eligible_in u s (snd e)) (enumerate 0 (dr_cursor (sd_drr s))))"

lemma candidate_of_view:
  "registered (sd_reg s) (snd e) \<Longrightarrow> candidate_of s e = \<lparr> c_flow = snd e, c_priority = fl_priority (reg_view u (sd_reg s) (snd e)),
     c_enq = pd_enq (hd (queue_of (sd_drr s) (snd e))), c_base = f_of_nat (fst e),
     c_kv = footprint (sd_progress s) (snd e) \<rparr>"
  by (auto simp: candidate_of_def registered_def reg_view_def reg_flow_def)

lemma eligible_registered:
  assumes "drr_inv (sd_drr s)" and "accrue u s = (el, ac, s1)" and "e \<in> set el"
  shows "registered (sd_reg s1) (snd e)" "eligible_in u s (snd e)" "snd e \<in> set (dr_cursor (sd_drr s))"
proof -
  have "e \<in> set (filter (\<lambda>e. eligible_in u s (snd e)) (enumerate 0 (dr_cursor (sd_drr s))))"
    using assms(3) accrue_spec(6)[OF assms(1,2)] by simp
  then show "eligible_in u s (snd e)" "snd e \<in> set (dr_cursor (sd_drr s))"
    by (auto simp: in_set_enumerate_eq) (metis nth_mem)
  then show "registered (sd_reg s1) (snd e)"
    using accrue_spec(4)[OF assms(1,2)] by (auto simp: eligible_in_def)
qed

lemma accrued_candidates:
  assumes "drr_inv (sd_drr s)" and "accrue u s = (el, ac, s1)"
  shows "map (candidate_of (s1\<lparr>sd_reg := touch_all u (map snd el) (sd_reg s1)\<rparr>)) el = round_candidates u s"
proof -
  note spec = accrue_spec[OF assms]
  have q: "queue_of (sd_drr s1) = queue_of (sd_drr s)" using spec(1) by (rule same_queues_queue_of)
  have "registered (touch_all u (map snd el) (sd_reg s1)) (snd e)" if "e \<in> set el" for e using that by simp
  moreover have "sd_progress s1 = sd_progress s" using spec(1) by (simp add: same_queues_def)
  ultimately show ?thesis unfolding round_candidates_def spec(6)[symmetric]
    by (intro map_cong) (simp_all add: candidate_of_view[where u = u] spec(2) q)
qed

lemma select_eligible_spec:
  assumes inv: "drr_inv (sd_drr s)" and ac: "accrue u s = (el, ac, s1)" and ne: "el \<noteq> []"
  shows "\<exists>f p s'. select_eligible cfg u el s1 = Some (Some (f, p, pd_work p), True, s')
    \<and> kv_select (dc_kv_bias cfg) (round_candidates u s) (kv_pressure_of (sd_usage s)) = Some f
    \<and> eligible_in u s f \<and> grants u f p s s' \<and> drr_inv (sd_drr s')
    \<and> (\<forall>g. deficit_of (sd_drr s') g = (if g = f then 0 else if accrues u s g then next_deficit u s g
          else deficit_of (sd_drr s) g))"
proof -
  note spec = accrue_spec[OF inv ac]
  let ?s2 = "s1\<lparr>sd_reg := touch_all u (map snd el) (sd_reg s1)\<rparr>"
  have q: "queue_of (sd_drr s1) = queue_of (sd_drr s)" using spec(1) by (rule same_queues_queue_of)
  have el: "el = filter (\<lambda>e. eligible_in u s (snd e)) (enumerate 0 (dr_cursor (sd_drr s)))" by (rule spec(6))
  note cands = accrued_candidates[OF inv ac]
  have "round_candidates u s \<noteq> []" using ne cands by (metis map_is_Nil_conv)
  from kv_select_member[OF this] obtain c where c: "c \<in> set (round_candidates u s)"
    "kv_select (dc_kv_bias cfg) (round_candidates u s) (kv_pressure_of (sd_usage s)) = Some (c_flow c)" by blast
  then obtain e where e: "e \<in> set el" "c = candidate_of ?s2 e" using cands by (metis (no_types) imageE set_map)
  define f where "f = snd e"
  have cf: "c_flow c = f" by (simp add: e(2) candidate_of_def f_def)
  note reg = eligible_registered[OF inv ac e(1), folded f_def]
  obtain p ps where p: "queue_of (sd_drr s) f = p # ps"
    using reg(2) by (cases "queue_of (sd_drr s) f") (auto simp: eligible_in_def accrues_def)
  let ?s3 = "?s2\<lparr>sd_drr := (sd_drr s1)\<lparr>dr_deficit := hdel f (dr_deficit (sd_drr s1))\<rparr>,
                sd_reg := snd (get_or_create u f (sd_reg ?s2))\<rparr>"
  have "drr_inv (sd_drr ?s3)" "queue_of (sd_drr ?s3) f = p # ps" "registered (sd_reg ?s3) f"
    using spec(3) p q by simp_all
  from take_head_spec[OF this, of u] obtain s' where s': "take_head f ?s3 = Some (p, s')"
    "grants u f p ?s3 s'" "drr_inv (sd_drr s')" "dr_deficit (sd_drr s') = dr_deficit (sd_drr ?s3)" by blast
  have "grants u f p s s'"
    using s'(2) spec(1,2) by (subst (asm) grants_cong[of _ s]) (auto simp: same_queues_def q)
  moreover have "deficit_of (sd_drr s') g = (if g = f then 0 else if accrues u s g then next_deficit u s g
          else deficit_of (sd_drr s) g)" for g
    using spec(7)[of g] s'(4) by (simp add: deficit_of_def)
  moreover have "sd_usage s1 = sd_usage s" using spec(1) by (simp add: same_queues_def)
  then have "select_eligible cfg u el s1 = Some (Some (f, p, pd_work p), True, s')"
    using c(2) e(1) cf s'(1) by (simp add: select_eligible_def cands f_def Let_def image_iff) blast
  ultimately show ?thesis using c(2) cf reg(2) s'(3) by blast
qed

lemma view_cong:
  assumes "reg_view u r = reg_view u (sd_reg s)"
  shows "accrues u (s\<lparr>sd_reg := r\<rparr>) = accrues u s" "next_deficit u (s\<lparr>sd_reg := r\<rparr>) = next_deficit u s"
    "eligible_in u (s\<lparr>sd_reg := r\<rparr>) = eligible_in u s" "round_candidates u (s\<lparr>sd_reg := r\<rparr>) = round_candidates u s"
    "grants u f p (s\<lparr>sd_reg := r\<rparr>) s' = grants u f p s s'"
proof -
  show "accrues u (s\<lparr>sd_reg := r\<rparr>) = accrues u s" "next_deficit u (s\<lparr>sd_reg := r\<rparr>) = next_deficit u s"
    "eligible_in u (s\<lparr>sd_reg := r\<rparr>) = eligible_in u s"
    using assms by (auto simp: fun_eq_iff accrues_def next_deficit_def eligible_in_def)
  then show "round_candidates u (s\<lparr>sd_reg := r\<rparr>) = round_candidates u s"
    using assms by (simp add: round_candidates_def)
  show "grants u f p (s\<lparr>sd_reg := r\<rparr>) s' = grants u f p s s'"
    using assms by (simp add: grants_def)
qed

lemma find_starved_None:
  assumes "drr_inv (sd_drr s)" and "first_starved cfg now u s = None"
  obtains r where "find_starved now u (dc_starvation_timeout cfg)
      (filter (\<lambda>f. queue_of (sd_drr s) f \<noteq> []) (dr_cursor (sd_drr s))) (sd_reg s) = (None, r)"
    "reg_view u r = reg_view u (sd_reg s)"
proof -
  let ?fs = "find_starved now u (dc_starvation_timeout cfg) (dr_cursor (sd_drr s)) (sd_reg s)"
  have "fst ?fs = None" "reg_view u (snd ?fs) = reg_view u (sd_reg s)"
    using find_starved_spec[of u now "dc_starvation_timeout cfg" "dr_cursor (sd_drr s)" "sd_reg s"] assms(2)
    by (simp_all add: first_starved_def starved_in_def[abs_def])
  then show ?thesis using that[of "snd ?fs"] filter_cursor[OF assms(1)] by (metis prod.collapse)
qed

lemma try_select_eligible_core:
  assumes "drr_inv (sd_drr s)" and "in_use (sd_drr s) < cap" and "first_starved cfg now u s = None"
    and "eligible_in u s g"
  shows "\<exists>f p s'. try_select cfg now u cap s = Some (Some (f, p, pd_work p), True, s')
    \<and> kv_select (dc_kv_bias cfg) (round_candidates u s) (kv_pressure_of (sd_usage s)) = Some f
    \<and> eligible_in u s f \<and> grants u f p s s' \<and> drr_inv (sd_drr s')
    \<and> (\<forall>g. deficit_of (sd_drr s') g = (if g = f then 0 else if accrues u s g then next_deficit u s g
          else deficit_of (sd_drr s) g))"
proof -
  obtain r where r: "find_starved now u (dc_starvation_timeout cfg)
      (filter (\<lambda>f. queue_of (sd_drr s) f \<noteq> []) (dr_cursor (sd_drr s))) (sd_reg s) = (None, r)"
    "reg_view u r = reg_view u (sd_reg s)" using find_starved_None[OF assms(1,3)] .
  let ?s0 = "s\<lparr>sd_reg := r\<rparr>"
  obtain el ac s1 where ac: "accrue u ?s0 = (el, ac, s1)" by (metis prod_cases3)
  have inv0: "drr_inv (sd_drr ?s0)" using assms(1) by simp
  have gc: "g \<in> set (dr_cursor (sd_drr s))"
    using assms(1,4) by (simp add: drr_invD(3) eligible_in_def accrues_def)
  then obtain i where "(i, g) \<in> set (enumerate 0 (dr_cursor (sd_drr s)))"
    by (metis (no_types) imageE map_snd_enumerate prod.collapse set_map)
  then have ne: "el \<noteq> []"
    using accrue_spec(6)[OF inv0 ac] assms(4) view_cong(3)[OF r(2)]
    by (auto simp: filter_empty_conv intro!: bexI[of _ "(i, g)"])
  have "dr_cursor (sd_drr s) \<noteq> []" using gc by auto
  then have "try_select cfg now u cap s = select_eligible cfg u el s1"
    using assms(2) r(1) ac ne by (simp add: try_select_def)
  moreover have "deficit_of (sd_drr ?s0) = deficit_of (sd_drr s)" "sd_usage ?s0 = sd_usage s" by simp_all
  note select_eligible_spec[OF inv0 ac ne, of cfg, unfolded view_cong[OF r(2)] this]
  ultimately show ?thesis by (simp only:)
qed

text \<open>
  C18. A regular selection: if no waiting flow is starved and some flow has enough deficit
  after this round's accrual, the request granted is the oldest request of the flow that
  the KV-biased selection picks among exactly those flows; its deficit is cleared, every
  other waiting flow of positive weight keeps what it has accrued, and the queue structure
  stays well formed.
\<close>

theorem try_select_eligible:
  assumes "drr_inv (sd_drr s)" and "in_use (sd_drr s) < cap" and "first_starved cfg now u s = None"
    and "eligible_in u s g"
  shows "\<exists>f p s'. try_select cfg now u cap s = Some (Some (f, p, pd_work p), True, s')
    \<and> kv_select (dc_kv_bias cfg) (round_candidates u s) (kv_pressure_of (sd_usage s)) = Some f
    \<and> eligible_in u s f \<and> grants u f p s s' \<and> drr_inv (sd_drr s')
    \<and> (\<forall>g. deficit_of (sd_drr s') g = (if g = f then 0 else if accrues u s g then next_deficit u s g
          else deficit_of (sd_drr s) g))"
  using assms by (rule try_select_eligible_core)

lemma rotate_and_clean_inv:
  "drr_inv d \<Longrightarrow> rotate_and_clean d = d\<lparr>dr_cursor := rotate (dr_cursor d)\<rparr>"
proof -
  assume inv: "drr_inv d"
  have "filter (\<lambda>(f, q). q = []) (dr_waiting d) = []"
    using drr_invD(2,4)[OF inv] by (fastforce simp: filter_empty_conv hwf_in_set)
  then show ?thesis by (simp add: rotate_and_clean_def)
qed

lemma rotate_simps [simp]: "set (rotate xs) = set xs" "distinct (rotate xs) = distinct xs" "rotate xs = [] \<longleftrightarrow> xs = []"
  by (cases xs; auto simp: rotate_def)+

lemma drr_inv_rotate: "drr_inv d \<Longrightarrow> drr_inv (d\<lparr>dr_cursor := rotate (dr_cursor d)\<rparr>)"
  by (simp add: drr_inv_def queue_of_def)

lemma try_select_idle_core:
  assumes "drr_inv (sd_drr s)" and "in_use (sd_drr s) < cap" and "first_starved cfg now u s = None"
    and "\<And>g. \<not> eligible_in u s g" and "dr_cursor (sd_drr s) \<noteq> []"
  shows "\<exists>s'. try_select cfg now u cap s = Some (None, \<exists>g. accrues u s g, s')
    \<and> queue_of (sd_drr s') = queue_of (sd_drr s) \<and> drr_inv (sd_drr s')
    \<and> reg_view u (sd_reg s') = reg_view u (sd_reg s)
    \<and> dr_available (sd_drr s') = dr_available (sd_drr s) \<and> dr_max (sd_drr s') = dr_max (sd_drr s)
    \<and> dr_next_id (sd_drr s') = dr_next_id (sd_drr s)
    \<and> dr_cursor (sd_drr s') = rotate (dr_cursor (sd_drr s))
    \<and> (\<forall>g. deficit_of (sd_drr s') g = (if accrues u s g then next_deficit u s g else deficit_of (sd_drr s) g))
    \<and> m_active_flows (sd_met s') = m_active_flows (sd_met s) \<and> sd_queue s' = sd_queue s
    \<and> sd_progress s' = sd_progress s \<and> sd_usage s' = sd_usage s"
proof -
  obtain r where r: "find_starved now u (dc_starvation_timeout cfg)
      (filter (\<lambda>f. queue_of (sd_drr s) f \<noteq> []) (dr_cursor (sd_drr s))) (sd_reg s) = (None, r)"
    "reg_view u r = reg_view u (sd_reg s)" using find_starved_None[OF assms(1,3)] .
  let ?s0 = "s\<lparr>sd_reg := r\<rparr>"
  obtain el ac s1 where ac: "accrue u ?s0 = (el, ac, s1)" by (metis prod_cases3)
  have inv0: "drr_inv (sd_drr ?s0)" using assms(1) by simp
  note spec = accrue_spec[OF inv0 ac]
  have el: "el = []" using spec(6) assms(4) view_cong(3)[OF r(2)] by simp
  let ?s' = "s1\<lparr>sd_drr := (sd_drr s1)\<lparr>dr_cursor := rotate (dr_cursor (sd_drr s1))\<rparr>\<rparr>"
  have "try_select cfg now u cap s = Some (None, ac, ?s')"
    using assms(2,5) r(1) ac el rotate_and_clean_inv[OF spec(3)] by (simp add: try_select_def)
  moreover have "queue_of (sd_drr ?s') = queue_of (sd_drr s)"
    using same_queues_queue_of[OF spec(1)] by (simp add: fun_eq_iff)
  moreover have "deficit_of (sd_drr ?s') g = (if accrues u s g then next_deficit u s g else deficit_of (sd_drr s) g)" for g
    using spec(7)[of g] view_cong[OF r(2)] by (simp add: deficit_of_def)
  moreover have "drr_inv (sd_drr ?s')" using drr_inv_rotate[OF spec(3)] by simp
  moreover have "ac \<longleftrightarrow> (\<exists>g. accrues u s g)" using spec(5) view_cong[OF r(2)] by simp
  ultimately show ?thesis using spec(1,2) r(2)
    by (intro exI[of _ ?s']) (simp add: same_queues_def)
qed

text \<open>
  A round without a selection: if no flow is starved and none has enough deficit, no
  request, credit or permit changes; every waiting flow of positive weight has gained
  exactly its weight, and the cursor is rotated by one. The round reports progress exactly
  when some flow gained.
\<close>

theorem try_select_idle:
  assumes "drr_inv (sd_drr s)" and "in_use (sd_drr s) < cap" and "first_starved cfg now u s = None"
    and "\<And>g. \<not> eligible_in u s g" and "dr_cursor (sd_drr s) \<noteq> []"
  shows "\<exists>s'. try_select cfg now u cap s = Some (None, \<exists>g. accrues u s g, s')
    \<and> queue_of (sd_drr s') = queue_of (sd_drr s) \<and> drr_inv (sd_drr s')
    \<and> reg_view u (sd_reg s') = reg_view u (sd_reg s)
    \<and> dr_available (sd_drr s') = dr_available (sd_drr s) \<and> dr_max (sd_drr s') = dr_max (sd_drr s)
    \<and> dr_next_id (sd_drr s') = dr_next_id (sd_drr s)
    \<and> dr_cursor (sd_drr s') = rotate (dr_cursor (sd_drr s))
    \<and> (\<forall>g. deficit_of (sd_drr s') g = (if accrues u s g then next_deficit u s g else deficit_of (sd_drr s) g))
    \<and> m_active_flows (sd_met s') = m_active_flows (sd_met s) \<and> sd_queue s' = sd_queue s
    \<and> sd_progress s' = sd_progress s \<and> sd_usage s' = sd_usage s"
  using assms by (rule try_select_idle_core)

section \<open>A concrete state\<close>

definition ex_sched :: "instant option \<Rightarrow> rat \<Rightarrow> sched" where
  "ex_sched enq work = \<lparr>
     sd_drr = \<lparr> dr_waiting = [(''a'', [\<lparr> pd_id = 0, pd_enq = 0, pd_work = Fin work \<rparr>])], dr_cursor = [''a''],
       dr_available = 2, dr_max = 2, dr_next_id = 1, dr_deficit = [] \<rparr>,
     sd_reg = (registry_new (Fin 1) 50)\<lparr>rg_flows := [(''a'', (flow_new ''a'' (Fin 1) 50 0)\<lparr>fl_enqueued_at := enq\<rparr>)]\<rparr>,
     sd_met = metrics_new, sd_queue = [''a''], sd_progress = progress_new, sd_usage = None \<rparr>"

definition ex_cfg :: drr_cfg where
  "ex_cfg = \<lparr> dc_mode = Blocking, dc_max_queue_depth = 100, dc_max_wait = secs 1, dc_retry_after_base = secs 1,
     dc_starvation_timeout = 10, dc_gate = bias_gate_new completion_bias_default 2 10,
     dc_kv_bias = kb_plain, dc_kv_pressure = kv_pressure_default, dc_max_active_flows = 2 \<rparr>"

lemma ex_queue: "queue_of (sd_drr (ex_sched enq w)) f = (if f = ''a'' then [\<lparr> pd_id = 0, pd_enq = 0, pd_work = Fin w \<rparr>] else [])"
  by (simp add: ex_sched_def queue_of_def)

lemma ex_inv: "drr_inv (sd_drr (ex_sched enq w))"
  by (auto simp: drr_inv_def ex_queue) (auto simp: ex_sched_def hwf_def hkeys_def split: if_splits)

lemma ex_view: "reg_view u (sd_reg (ex_sched enq w)) ''a'' = (flow_new ''a'' (Fin 1) 50 0)\<lparr>fl_enqueued_at := enq\<rparr>"
  by (simp add: ex_sched_def reg_view_def reg_flow_def reg_lookup_def flow_new_def)

lemma ex_weight: "weight_i64 (reg_view u (sd_reg (ex_sched enq w)) ''a'') = 1"
  by (simp add: ex_view weight_i64_def trunc_def sat_i64_def i64_min_def i64_max_def)

lemma ex_eligible: "0 \<le> n \<Longrightarrow> n \<le> 2 ^ 60 \<Longrightarrow> eligible_in u (ex_sched enq (of_int n)) g \<longleftrightarrow> g = ''a'' \<and> n \<le> 1"
  by (auto simp: eligible_in_def accrues_def ex_queue ex_weight next_deficit_def deficit_of_def
      sat_i64_def i64_min_def i64_max_def in_i64_def) (auto simp: ex_sched_def wrap_i64_def)

lemma ex_accrues: "accrues u (ex_sched enq w) g \<longleftrightarrow> g = ''a''"
  by (auto simp: accrues_def ex_queue ex_weight)

lemma ex_simps:
  "in_use (sd_drr (ex_sched enq w)) = 0" "dr_cursor (sd_drr (ex_sched enq w)) = [''a'']"
  "first_starved ex_cfg now u (ex_sched enq w) =
     (if is_starved now 10 (reg_view u (sd_reg (ex_sched enq w)) ''a'') \<noteq> None then Some ''a'' else None)"
  by (simp_all add: in_use_def ex_sched_def first_starved_def starved_in_def ex_cfg_def)

theorem try_select_starved_witness:
  "\<exists>p s'. try_select ex_cfg 11 0 2 (ex_sched (Some 0) 5) = Some (Some (''a'', p, pd_work p), True, s')"
proof -
  have "first_starved ex_cfg 11 0 (ex_sched (Some 0) 5) = Some ''a''"
    unfolding ex_simps ex_view by (simp add: is_starved_def duration_since_def)
  then show ?thesis using try_select_starved[OF ex_inv[of "Some 0" 5], of 2] ex_simps(1)[of "Some 0" 5] by fastforce
qed

theorem try_select_eligible_witness:
  "\<exists>f p s'. try_select ex_cfg 5 0 2 (ex_sched None 1) = Some (Some (f, p, pd_work p), True, s')"
proof -
  have "first_starved ex_cfg 5 0 (ex_sched None 1) = None"
    unfolding ex_simps ex_view by (simp add: is_starved_def)
  moreover have "eligible_in 0 (ex_sched None 1) ''a''" using ex_eligible[of 1 0 None "''a''"] by simp
  ultimately show ?thesis
    using try_select_eligible[OF ex_inv[of None 1], of 2 ex_cfg 5 0 "''a''"] ex_simps(1)[of None 1] by fastforce
qed

theorem try_select_idle_witness:
  "\<exists>s'. try_select ex_cfg 5 0 2 (ex_sched None 5) = Some (None, True, s') \<and> deficit_of (sd_drr s') ''a'' = 1"
proof -
  have "first_starved ex_cfg 5 0 (ex_sched None 5) = None"
    unfolding ex_simps ex_view by (simp add: is_starved_def)
  moreover have "\<not> eligible_in 0 (ex_sched None 5) g" for g using ex_eligible[of 5 0 None g] by simp
  moreover have "next_deficit 0 (ex_sched None 5) ''a'' = 1"
    unfolding next_deficit_def ex_weight by (simp add: ex_sched_def deficit_of_def in_i64_def i64_min_def i64_max_def)
  moreover have "(\<exists>g. accrues 0 (ex_sched None 5) g) = True" by (simp add: ex_accrues)
  ultimately show ?thesis
    using try_select_idle[OF ex_inv[of None 5], of 2 ex_cfg 5 0] ex_simps(1,2)[of None 5] ex_accrues[of 0 None 5 "''a''"]
    by fastforce
qed

section \<open>Totality and priority\<close>

lemma try_select_cases:
  assumes "drr_inv (sd_drr s)"
  shows "\<exists>sel acc s'. try_select cfg now u cap s = Some (sel, acc, s') \<and> drr_inv (sd_drr s')
    \<and> (case sel of None \<Rightarrow> s' = s \<and> \<not> acc \<or> (\<exists>g. accrues u s g) = acc
        \<and> queue_of (sd_drr s') = queue_of (sd_drr s) \<and> dr_available (sd_drr s') = dr_available (sd_drr s)
        \<and> dr_max (sd_drr s') = dr_max (sd_drr s) \<and> reg_view u (sd_reg s') = reg_view u (sd_reg s)
        \<and> dr_next_id (sd_drr s') = dr_next_id (sd_drr s)
        \<and> m_active_flows (sd_met s') = m_active_flows (sd_met s) \<and> sd_queue s' = sd_queue s
      | Some (f, p, w) \<Rightarrow> w = pd_work p \<and> in_use (sd_drr s) < cap \<and> grants u f p s s')"
proof (cases "cap \<le> in_use (sd_drr s) \<or> dr_cursor (sd_drr s) = []")
  case True
  then show ?thesis using assms by (auto simp: try_select_def)
next
  case False
  then have use: "in_use (sd_drr s) < cap" by simp
  show ?thesis
  proof (cases "first_starved cfg now u s")
    case (Some f)
    from try_select_starved_core[OF assms use this] show ?thesis using use by fastforce
  next
    case None
    show ?thesis
    proof (cases "\<exists>g. eligible_in u s g")
      case True
      then obtain g where "eligible_in u s g" by blast
      from try_select_eligible_core[OF assms use None this] show ?thesis using use by fastforce
    next
      case nel: False
      obtain s' where s': "try_select cfg now u cap s = Some (None, \<exists>g. accrues u s g, s')"
        "queue_of (sd_drr s') = queue_of (sd_drr s)" "drr_inv (sd_drr s')"
        "reg_view u (sd_reg s') = reg_view u (sd_reg s)"
        "dr_available (sd_drr s') = dr_available (sd_drr s)" "dr_max (sd_drr s') = dr_max (sd_drr s)"
        "dr_next_id (sd_drr s') = dr_next_id (sd_drr s)"
        "m_active_flows (sd_met s') = m_active_flows (sd_met s)" "sd_queue s' = sd_queue s"
        using try_select_idle_core[OF assms use None] nel False by blast
      show ?thesis
        by (rule exI[of _ None], rule exI[of _ "\<exists>g. accrues u s g"], rule exI[of _ s'])
          (simp add: s' del: split_paired_Ex)
    qed
  qed
qed

lemma try_select_total_core:
  assumes "drr_inv (sd_drr s)"
  shows "\<exists>sel acc s'. try_select cfg now u cap s = Some (sel, acc, s') \<and> drr_inv (sd_drr s')
    \<and> (case sel of
         Some (f, p, w) \<Rightarrow> w = pd_work p \<and> in_use (sd_drr s) < cap \<and> grants u f p s s'
       | None \<Rightarrow> queue_of (sd_drr s') = queue_of (sd_drr s) \<and> dr_available (sd_drr s') = dr_available (sd_drr s)
           \<and> reg_view u (sd_reg s') = reg_view u (sd_reg s))"
proof -
  obtain sel acc s' where c: "try_select cfg now u cap s = Some (sel, acc, s')" "drr_inv (sd_drr s')"
    "case sel of None \<Rightarrow> s' = s \<and> \<not> acc \<or> (\<exists>g. accrues u s g) = acc
        \<and> queue_of (sd_drr s') = queue_of (sd_drr s) \<and> dr_available (sd_drr s') = dr_available (sd_drr s)
        \<and> dr_max (sd_drr s') = dr_max (sd_drr s) \<and> reg_view u (sd_reg s') = reg_view u (sd_reg s)
        \<and> dr_next_id (sd_drr s') = dr_next_id (sd_drr s)
        \<and> m_active_flows (sd_met s') = m_active_flows (sd_met s) \<and> sd_queue s' = sd_queue s
      | Some (f, p, w) \<Rightarrow> w = pd_work p \<and> in_use (sd_drr s) < cap \<and> grants u f p s s'"
    using try_select_cases[OF assms] by blast
  then show ?thesis by (intro exI[of _ sel] exI[of _ acc] exI[of _ s']) (auto split: option.splits)
qed

text \<open>
  C19. The selection never panics and never breaks the queues: from every well-formed state
  and for every cap, \<open>try_select\<close> returns; the state stays well formed; a grant is made
  only below the cap and has exactly the effect \<open>grants\<close> describes; without a grant no
  queue, permit or credit has changed.
\<close>

theorem try_select_total:
  assumes "drr_inv (sd_drr s)"
  shows "\<exists>sel acc s'. try_select cfg now u cap s = Some (sel, acc, s') \<and> drr_inv (sd_drr s')
    \<and> (case sel of
         Some (f, p, w) \<Rightarrow> w = pd_work p \<and> in_use (sd_drr s) < cap \<and> grants u f p s s'
       | None \<Rightarrow> queue_of (sd_drr s') = queue_of (sd_drr s) \<and> dr_available (sd_drr s') = dr_available (sd_drr s)
           \<and> reg_view u (sd_reg s') = reg_view u (sd_reg s))"
  using assms by (rule try_select_total_core)

theorem try_select_total_witness:
  "\<exists>sel acc s'. try_select ex_cfg 5 0 2 (ex_sched None 5) = Some (sel, acc, s') \<and> drr_inv (sd_drr s')"
  using try_select_total[OF ex_inv] by blast

lemma round_candidates_cursor_base:
  assumes "length (dr_cursor (sd_drr s)) \<le> 2 ^ 50"
  shows "\<forall>c \<in> set (round_candidates u s). cursor_base c"
proof
  fix c assume "c \<in> set (round_candidates u s)"
  then obtain i g where ig: "(i, g) \<in> set (enumerate 0 (dr_cursor (sd_drr s)))" "c_base c = f_of_nat i"
    by (auto simp: round_candidates_def)
  then have "i < length (dr_cursor (sd_drr s))" by (simp add: in_set_enumerate_eq)
  then have "i < 2 ^ 50" using assms by linarith
  then have "f_of_nat i = Fin (of_nat i)" using f_of_nat_exact[of i] by simp
  then show "cursor_base c" using ig(2) \<open>i < 2 ^ 50\<close> by (auto simp: cursor_base_def)
qed



section \<open>The rounds end\<close>

text \<open>
  What a round does before it selects: it refreshes the gauge of the live cap, which its decisions do not read, and
  the monitor may have published a new reading.
\<close>

definition capped :: "drr_cfg \<Rightarrow> nat \<Rightarrow> sched \<Rightarrow> sched" where
  "capped cfg lc s = (if live_cap cfg s \<noteq> lc then s\<lparr>sd_met := (sd_met s)\<lparr>m_effective_max := live_cap cfg s\<rparr>\<rparr> else s)"

definition reread :: "drr_cfg \<Rightarrow> nat \<Rightarrow> f64 option \<Rightarrow> sched \<Rightarrow> sched" where
  "reread cfg lc rd s = (capped cfg lc s)\<lparr>sd_usage := rd\<rparr>"

lemma capped_frame [simp]:
  "sd_drr (capped cfg lc s) = sd_drr s" "sd_reg (capped cfg lc s) = sd_reg s" "sd_queue (capped cfg lc s) = sd_queue s"
  "sd_progress (capped cfg lc s) = sd_progress s" "sd_usage (capped cfg lc s) = sd_usage s"
  "m_active_flows (sd_met (capped cfg lc s)) = m_active_flows (sd_met s)"
  by (simp_all add: capped_def)

lemma reread_frame [simp]:
  "sd_drr (reread cfg lc rd s) = sd_drr s" "sd_reg (reread cfg lc rd s) = sd_reg s" "sd_queue (reread cfg lc rd s) = sd_queue s"
  "sd_progress (reread cfg lc rd s) = sd_progress s" "sd_usage (reread cfg lc rd s) = rd"
  "m_active_flows (sd_met (reread cfg lc rd s)) = m_active_flows (sd_met s)"
  by (simp_all add: reread_def)

lemma reread_views [simp]:
  "accrues u (reread cfg lc rd s) = accrues u s" "next_deficit u (reread cfg lc rd s) = next_deficit u s"
  "eligible_in u (reread cfg lc rd s) = eligible_in u s" "starved_in cf now u (reread cfg lc rd s) = starved_in cf now u s"
  by (simp_all add: fun_eq_iff accrues_def next_deficit_def eligible_in_def starved_in_def)

lemma first_starved_reread [simp]: "first_starved cf now u (reread cfg lc rd s) = first_starved cf now u s"
  by (simp add: first_starved_def)

lemma grants_reread: "grants u f p (reread cfg lc rd s) s' \<longleftrightarrow> grants u f p (s\<lparr>sd_usage := rd\<rparr>) s'"
  by (rule grants_cong) simp_all

lemma admission_round_capped:
  "admission_round cfg now u rd lc s = (if live_cap cfg s \<le> in_use (sd_drr s) \<or> dr_cursor (sd_drr s) = []
     then Some (Break, live_cap cfg s, capped cfg lc s)
     else case try_select cfg now u (live_cap cfg s) (reread cfg lc rd s) of
         None \<Rightarrow> None
       | Some (None, accumulated, s2) \<Rightarrow> Some (if accumulated then Again else Break, live_cap cfg s, s2)
       | Some (Some (f, p, w), _, s2) \<Rightarrow> Some (Grant f p, live_cap cfg s, s2))"
  by (simp add: admission_round_def capped_def reread_def Let_def)

text \<open>What a round leads to; \<open>round_deficits\<close> bounds what it does to the deficits.\<close>

definition round_deficits :: "nat \<Rightarrow> sched \<Rightarrow> sched \<Rightarrow> bool" where
  "round_deficits u s s' \<longleftrightarrow> (\<forall>g. deficit_of (sd_drr s') g \<in> {0, deficit_of (sd_drr s) g}
     \<or> accrues u s g \<and> deficit_of (sd_drr s') g = next_deficit u s g)"

lemma admission_round_cases:
  assumes "drr_inv (sd_drr s)"
  obtains (break) cap s' where "admission_round cfg now u rd lc s = Some (Break, cap, s')" "drr_inv (sd_drr s')"
      "queue_of (sd_drr s') = queue_of (sd_drr s)" "set (dr_cursor (sd_drr s')) = set (dr_cursor (sd_drr s))"
  | (again) cap s' where "admission_round cfg now u rd lc s = Some (Again, cap, s')" "drr_inv (sd_drr s')"
      "\<exists>g. accrues u s g" "\<And>g. \<not> eligible_in u s g" "queue_of (sd_drr s') = queue_of (sd_drr s)"
      "dr_cursor (sd_drr s') = rotate (dr_cursor (sd_drr s))" "reg_view u (sd_reg s') = reg_view u (sd_reg s)"
      "\<And>g. deficit_of (sd_drr s') g = (if accrues u s g then next_deficit u s g else deficit_of (sd_drr s) g)"
  | (grant) cap s' f p where "admission_round cfg now u rd lc s = Some (Grant f p, cap, s')" "drr_inv (sd_drr s')"
      "grants u f p (s\<lparr>sd_usage := rd\<rparr>) s'" "round_deficits u s s'"
proof (cases "live_cap cfg s \<le> in_use (sd_drr s) \<or> dr_cursor (sd_drr s) = []")
  case True
  then show ?thesis using assms by (intro break[of "live_cap cfg s" "capped cfg lc s"]) (simp_all add: admission_round_capped)
next
  case False
  let ?s = "reread cfg lc rd s"
  note rnd = admission_round_capped[of cfg now u rd lc s, unfolded if_not_P[OF False]]
  have inv: "drr_inv (sd_drr ?s)" and use: "in_use (sd_drr ?s) < live_cap cfg s" and cur: "dr_cursor (sd_drr ?s) \<noteq> []"
    using False assms by simp_all
  show ?thesis
  proof (cases "first_starved cfg now u ?s")
    case (Some f)
    then obtain p s' where "try_select cfg now u (live_cap cfg s) ?s = Some (Some (f, p, pd_work p), True, s')" "grants u f p ?s s'"
      "drr_inv (sd_drr s')" "dr_deficit (sd_drr s') = dr_deficit (sd_drr s)"
      using try_select_starved_core[OF inv use Some] by auto
    then show ?thesis using rnd grant by (simp add: grants_reread round_deficits_def deficit_of_def)
  next
    case None
    show ?thesis
    proof (cases "\<exists>g. eligible_in u s g")
      case True
      then obtain g where "eligible_in u ?s g" by auto
      from try_select_eligible_core[OF inv use None this] obtain f p s'
        where "try_select cfg now u (live_cap cfg s) ?s = Some (Some (f, p, pd_work p), True, s')" "grants u f p ?s s'"
          "drr_inv (sd_drr s')" "\<And>g. deficit_of (sd_drr s') g = (if g = f then 0 else if accrues u s g then next_deficit u s g
            else deficit_of (sd_drr s) g)" by auto
      then show ?thesis using rnd grant by (simp add: grants_reread round_deficits_def)
    next
      case nel: False
      obtain s' where t: "try_select cfg now u (live_cap cfg s) ?s = Some (None, \<exists>g. accrues u s g, s')"
        "queue_of (sd_drr s') = queue_of (sd_drr s)" "drr_inv (sd_drr s')" "reg_view u (sd_reg s') = reg_view u (sd_reg s)"
        "dr_cursor (sd_drr s') = rotate (dr_cursor (sd_drr s))"
        "\<forall>g. deficit_of (sd_drr s') g = (if accrues u s g then next_deficit u s g else deficit_of (sd_drr s) g)"
        using try_select_idle_core[OF inv use None _ cur] nel by auto
      show ?thesis
      proof (cases "\<exists>g. accrues u s g")
        case True
        then show ?thesis using again[of "live_cap cfg s" s'] t rnd nel by simp
      next
        case False
        have "set (rotate xs) = set xs" for xs :: "flow_id list" by (cases xs) (auto simp: rotate_def)
        then show ?thesis using False break[of "live_cap cfg s" s'] t rnd by simp
      qed
    qed
  qed
qed

lemma reg_view_clock: "reg_view u r = reg_view v r"
  by (rule ext) (auto simp: reg_view_def reg_flow_def flow_new_def split: option.split)

lemma clock_indep: "accrues u s g = accrues v s g" "next_deficit u s g = next_deficit v s g"
  "eligible_in u s g = eligible_in v s g"
  by (simp_all add: accrues_def next_deficit_def eligible_in_def reg_view_clock[of u _ v])

section \<open>Starvation protection and siblings\<close>

text \<open>
  A grant silences starvation protection for the requests the flow still has queued:
  after a grant from a queue of two or more requests, the flow waits on, but its queueing
  clock is cleared, so no timeout makes it starved until its next request is queued.
\<close>

theorem grant_clears_sibling_clock:
  assumes "try_select cfg now u cap s = Some (Some (f, p, w), acc, s')" and "drr_inv (sd_drr s)"
    and "2 \<le> length (queue_of (sd_drr s) f)"
  shows "queue_of (sd_drr s') f \<noteq> [] \<and> f \<in> set (dr_cursor (sd_drr s'))
    \<and> (\<forall>later timeout. is_starved later timeout (reg_view u (sd_reg s') f) = None)"
proof -
  have g: "grants u f p s s'" "drr_inv (sd_drr s')"
    using try_select_total_core[OF assms(2), of cfg now u cap] assms(1) by auto
  then obtain ps where "queue_of (sd_drr s) f = p # ps" "queue_of (sd_drr s') f = ps"
    by (auto simp: grants_def)
  then have "queue_of (sd_drr s') f \<noteq> []" using assms(3) by auto
  moreover have "fl_enqueued_at (reg_view u (sd_reg s') f) = None" using g(1) by (simp add: grants_def)
  ultimately show ?thesis using drr_invD(3)[OF g(2)] by (simp add: is_starved_def)
qed

definition ex_two :: sched where
  "ex_two = (ex_sched (Some 0) 1)\<lparr>sd_drr := (sd_drr (ex_sched (Some 0) 1))\<lparr>
     dr_waiting := [(''a'', [\<lparr> pd_id = 0, pd_enq = 0, pd_work = Fin 1 \<rparr>, \<lparr> pd_id = 1, pd_enq = 0, pd_work = Fin 1 \<rparr>])],
     dr_next_id := 2\<rparr>\<rparr>"

lemma ex_two_queue: "queue_of (sd_drr ex_two) f = (if f = ''a''
    then [\<lparr> pd_id = 0, pd_enq = 0, pd_work = Fin 1 \<rparr>, \<lparr> pd_id = 1, pd_enq = 0, pd_work = Fin 1 \<rparr>] else [])"
  by (simp add: ex_two_def queue_of_def)

lemma ex_two_inv: "drr_inv (sd_drr ex_two)"
  by (auto simp: drr_inv_def ex_two_queue) (auto simp: ex_two_def ex_sched_def hwf_def hkeys_def split: if_splits)

theorem grant_clears_sibling_clock_witness:
  "\<exists>p s'. try_select ex_cfg 11 0 2 ex_two = Some (Some (''a'', p, pd_work p), True, s')
     \<and> is_starved 1000000 10 (reg_view 0 (sd_reg s') ''a'') = None"
proof -
  have v: "reg_view 0 (sd_reg ex_two) ''a'' = (flow_new ''a'' (Fin 1) 50 0)\<lparr>fl_enqueued_at := Some 0\<rparr>"
    using ex_view[of 0 "Some 0" 1] by (simp add: ex_two_def)
  have "dr_cursor (sd_drr ex_two) = [''a'']" by (simp add: ex_two_def ex_sched_def)
  moreover have "starved_in ex_cfg 11 0 ex_two ''a''"
    by (simp add: starved_in_def v is_starved_def duration_since_def ex_cfg_def)
  ultimately have "first_starved ex_cfg 11 0 ex_two = Some ''a''" by (simp add: first_starved_def)
  moreover have "in_use (sd_drr ex_two) < 2" by (simp add: ex_two_def ex_sched_def in_use_def)
  ultimately obtain p s' where s': "try_select ex_cfg 11 0 2 ex_two = Some (Some (''a'', p, pd_work p), True, s')"
    using try_select_starved_core[OF ex_two_inv] by blast
  have "2 \<le> length (queue_of (sd_drr ex_two) ''a'')" by (simp add: ex_two_queue)
  from grant_clears_sibling_clock[OF s' ex_two_inv this] s' show ?thesis by blast
qed

end
