(* ===== verification/AdmissionLoop.thy ===== *)
theory AdmissionLoop
  imports DrrProps
begin

text \<open>
  The inner loop of \<open>admission_loop\<close> (src/scheduler/drr.rs) from waking up to sleeping again: rounds that
  grant, rounds that only accrue, and between them whatever the other tasks do.  Lemmas: what a round and the
  operations of the other tasks do to the number of queued requests and to the deficits, and a bound
  on the rounds.
\<close>

section \<open>Measures\<close>

definition total_queued :: "drr_state \<Rightarrow> nat" where
  "total_queued d = sum_list (map (\<lambda>f. length (queue_of d f)) (dr_cursor d))"

text \<open>Costs are at most C, weights at most W and deficits between 0 and D.\<close>

definition loop_bounds :: "int \<Rightarrow> int \<Rightarrow> int \<Rightarrow> sched \<Rightarrow> bool" where
  "loop_bounds C W D s \<longleftrightarrow> drr_inv (sd_drr s) \<and> (\<forall>f. \<forall>p \<in> set (queue_of (sd_drr s) f). as_i64 (pd_work p) \<le> C)
     \<and> (\<forall>f. queue_of (sd_drr s) f \<noteq> [] \<longrightarrow> weight_i64 (reg_view 0 (sd_reg s) f) \<le> W)
     \<and> (\<forall>f. 0 \<le> deficit_of (sd_drr s) f \<and> deficit_of (sd_drr s) f \<le> D)"

text \<open>
  What other tasks do between two rounds: at most \<open>a\<close> requests arrive or flows change their weight; if none does,
  requests may leave, but the flows that go on waiting keep their deficits.
\<close>

definition disturbs :: "nat \<Rightarrow> sched \<Rightarrow> sched \<Rightarrow> bool" where
  "disturbs a s s' \<longleftrightarrow> total_queued (sd_drr s') \<le> total_queued (sd_drr s) + a
     \<and> (a = 0 \<longrightarrow> (\<forall>f. accrues 0 s' f \<longrightarrow> deficit_of (sd_drr s') f = deficit_of (sd_drr s) f \<and> accrues 0 s f))"

lemma loop_boundsD:
  assumes "loop_bounds C W D s"
  shows "drr_inv (sd_drr s)" "p \<in> set (queue_of (sd_drr s) f) \<Longrightarrow> as_i64 (pd_work p) \<le> C"
    "queue_of (sd_drr s) f \<noteq> [] \<Longrightarrow> weight_i64 (reg_view 0 (sd_reg s) f) \<le> W"
    "0 \<le> deficit_of (sd_drr s) f" "deficit_of (sd_drr s) f \<le> D"
  using assms by (auto simp: loop_bounds_def)

lemma total_queued_cong:
  assumes "distinct (dr_cursor d)" "distinct (dr_cursor d')" "set (dr_cursor d') = set (dr_cursor d)" "queue_of d' = queue_of d"
  shows "total_queued d' = total_queued d"
  using assms by (simp add: total_queued_def flip: sum.distinct_set_conv_list)

lemma total_queued_sum:
  "drr_inv d \<Longrightarrow> total_queued d = (\<Sum>f \<in> set (dr_cursor d). length (queue_of d f))"
  by (simp add: total_queued_def drr_invD(1) flip: sum.distinct_set_conv_list)

text \<open>Changing the queue of one flow changes the total by the difference.\<close>

lemma total_queued_one:
  assumes "drr_inv d" and "drr_inv d'" and "\<And>g. g \<noteq> f \<Longrightarrow> queue_of d' g = queue_of d g"
  shows "total_queued d' + length (queue_of d f) = total_queued d + length (queue_of d' f)"
proof -
  let ?A = "insert f (set (dr_cursor d) \<union> set (dr_cursor d'))"
  have total: "total_queued e = (\<Sum>g \<in> ?A. length (queue_of e g))" if "drr_inv e" "set (dr_cursor e) \<subseteq> ?A" for e
    unfolding total_queued_sum[OF that(1)] by (rule sum.mono_neutral_left) (use that drr_invD(3)[OF that(1)] in auto)
  have "(\<Sum>g \<in> ?A - {f}. length (queue_of d' g)) = (\<Sum>g \<in> ?A - {f}. length (queue_of d g))"
    by (rule sum.cong) (use assms(3) in auto)
  moreover have "set (dr_cursor d) \<subseteq> ?A" "set (dr_cursor d') \<subseteq> ?A" "finite ?A" "f \<in> ?A" by auto
  ultimately show ?thesis
    using total[OF assms(1)] total[OF assms(2)] sum.remove[of ?A f "\<lambda>g. length (queue_of d g)"]
      sum.remove[of ?A f "\<lambda>g. length (queue_of d' g)"] by linarith
qed

section \<open>The other tasks\<close>

lemma disturbs_same_drr: "sd_drr s' = (sd_drr s)\<lparr>dr_available := a\<rparr> \<Longrightarrow> weight_i64 \<circ> reg_view 0 (sd_reg s') = weight_i64 \<circ> reg_view 0 (sd_reg s)
  \<Longrightarrow> disturbs n s s'"
  by (simp add: disturbs_def total_queued_def accrues_def deficit_of_def fun_eq_iff)

lemma disturbs_enqueue:
  assumes "drr_inv (sd_drr s)" and "enqueue f work t s = (i, s')" and "drr_inv (sd_drr s')"
  shows "disturbs 1 s s'"
proof -
  have q: "queue_of (sd_drr s') g = (if g = f then queue_of (sd_drr s) f @ [\<lparr> pd_id = dr_next_id (sd_drr s), pd_enq = t, pd_work = work \<rparr>]
      else queue_of (sd_drr s) g)" for g
    using assms(2) by (auto simp: enqueue_def Let_def queue_of_def)
  from total_queued_one[OF assms(1,3), of f] show ?thesis by (simp add: disturbs_def q)
qed

lemma disturbs_guard_drop:
  assumes "drr_inv (sd_drr s)" and "drr_inv (sd_drr (guard_drop f pid s))"
  shows "disturbs 0 s (guard_drop f pid s)"
proof -
  let ?d = "sd_drr s" and ?d' = "fst (remove_pending f pid (sd_drr s))"
  have d': "sd_drr (guard_drop f pid s) = ?d'"
    by (simp add: guard_drop_def leave_queue_def clear_enqueued_def Let_def split_beta)
  have q: "queue_of ?d' g = (if g = f then (case pid of None \<Rightarrow> queue_of ?d f | Some i \<Rightarrow> filter (\<lambda>p. pd_id p \<noteq> i) (queue_of ?d f))
      else queue_of ?d g)" for g
    by (auto simp: remove_pending_def purge_flow_def queue_of_def Let_def split: option.split)
  have l: "length (queue_of ?d' f) \<le> length (queue_of ?d f)" by (simp add: q split: option.split)
  have w: "weight_i64 (reg_view 0 (sd_reg (guard_drop f pid s)) g) = weight_i64 (reg_view 0 (sd_reg s) g)" for g
    by (simp add: guard_drop_def leave_queue_def clear_enqueued_def Let_def split_beta weight_i64_def reg_view_def reg_flow_def
        split: option.split)
  have "deficit_of ?d' g = deficit_of ?d g" if "queue_of ?d' g \<noteq> []" for g
    using that by (auto simp: remove_pending_def purge_flow_def queue_of_def deficit_of_def Let_def split: option.splits if_splits)
  moreover have "queue_of ?d g \<noteq> []" if "queue_of ?d' g \<noteq> []" for g using that by (auto simp: q split: if_splits option.splits)
  moreover have "total_queued ?d' \<le> total_queued ?d"
    using total_queued_one[OF assms(1) assms(2)[unfolded d'], of f] l by (simp add: q)
  ultimately show ?thesis by (simp add: disturbs_def d' accrues_def w)
qed

section \<open>A round\<close>

text \<open>Every flow that accrues has at least the deficit \<open>m\<close>.\<close>

definition least_deficit :: "int \<Rightarrow> sched \<Rightarrow> bool" where
  "least_deficit m s \<longleftrightarrow> (\<forall>f. accrues 0 s f \<longrightarrow> m \<le> deficit_of (sd_drr s) f)"

lemma next_deficit_bounds:
  assumes "loop_bounds C W D s" and "D + W \<le> i64_max" and "accrues 0 s f"
  shows "next_deficit 0 s f = deficit_of (sd_drr s) f + weight_i64 (reg_view 0 (sd_reg s) f)"
    "deficit_of (sd_drr s) f < next_deficit 0 s f" "next_deficit 0 s f \<le> D + W"
proof -
  have w: "0 < weight_i64 (reg_view 0 (sd_reg s) f)" "weight_i64 (reg_view 0 (sd_reg s) f) \<le> W"
    using assms(3) loop_boundsD(3)[OF assms(1), of f] by (simp_all add: accrues_def)
  then show e: "next_deficit 0 s f = deficit_of (sd_drr s) f + weight_i64 (reg_view 0 (sd_reg s) f)"
    unfolding next_deficit_def using loop_boundsD(4,5)[OF assms(1), of f] assms(2)
    by (intro wrap_i64_id) (simp add: in_i64_def i64_min_def)
  show "deficit_of (sd_drr s) f < next_deficit 0 s f" "next_deficit 0 s f \<le> D + W"
    using w e loop_boundsD(5)[OF assms(1), of f] by simp_all
qed

lemma again_round:
  assumes b: "loop_bounds C W D s" "D + W \<le> i64_max" and m: "least_deficit m s"
    and i: "drr_inv (sd_drr s')" and acc: "\<exists>g. accrues 0 s g" and nel: "\<And>g. \<not> eligible_in 0 s g"
    and q: "queue_of (sd_drr s') = queue_of (sd_drr s)" and c: "dr_cursor (sd_drr s') = rotate (dr_cursor (sd_drr s))"
    and v: "reg_view 0 (sd_reg s') = reg_view 0 (sd_reg s)"
    and d: "\<And>g. deficit_of (sd_drr s') g = (if accrues 0 s g then next_deficit 0 s g else deficit_of (sd_drr s) g)"
  shows "loop_bounds C W (D + W) s'" "least_deficit (m + 1) s'" "m + 1 < C" "total_queued (sd_drr s') = total_queued (sd_drr s)"
proof -
  note nd = next_deficit_bounds[OF b]
  have a: "accrues 0 s' = accrues 0 s" by (simp add: fun_eq_iff accrues_def q v)
  obtain g where g: "accrues 0 s g" using acc by blast
  then have "hd (queue_of (sd_drr s) g) \<in> set (queue_of (sd_drr s) g)" by (simp add: accrues_def)
  then have "as_i64 (pd_work (hd (queue_of (sd_drr s) g))) \<le> C" by (rule loop_boundsD(2)[OF b(1)])
  moreover have "next_deficit 0 s g < as_i64 (pd_work (hd (queue_of (sd_drr s) g)))" using nel[of g] g by (simp add: eligible_in_def)
  moreover have "m \<le> deficit_of (sd_drr s) g" using m g by (simp add: least_deficit_def)
  ultimately show "m + 1 < C" using nd(2)[OF g] by simp
  have "0 \<le> W" using g loop_boundsD(3)[OF b(1), of g] by (simp add: accrues_def)
  then have "0 \<le> deficit_of (sd_drr s') f \<and> deficit_of (sd_drr s') f \<le> D + W" for f
    using nd(2,3)[of f] loop_boundsD(4,5)[OF b(1), of f] by (auto simp: d)
  then show "loop_bounds C W (D + W) s'" using b(1) i by (simp add: loop_bounds_def q v)
  show "least_deficit (m + 1) s'" using m nd(2) by (force simp: least_deficit_def a d)
  have "set (rotate xs) = set xs" for xs :: "flow_id list" by (cases xs) (auto simp: rotate_def)
  then show "total_queued (sd_drr s') = total_queued (sd_drr s)"
    using drr_invD(1)[OF i] drr_invD(1)[OF loop_boundsD(1)[OF b(1)]] by (intro total_queued_cong) (simp_all add: c q)
qed

lemma grant_round:
  assumes b: "loop_bounds C W D s" "D + W \<le> i64_max" "0 \<le> W" and i: "drr_inv (sd_drr s')"
    and g: "grants 0 f p (s\<lparr>sd_usage := rd\<rparr>) s'" and d: "round_deficits 0 s s'"
  shows "loop_bounds C W (D + W) (deliver_ticket u received f s')"
    and "Suc (total_queued (sd_drr (deliver_ticket u received f s'))) = total_queued (sd_drr s)"
proof -
  obtain ps where q: "queue_of (sd_drr s) f = p # ps" "queue_of (sd_drr s') h = (if h = f then ps else queue_of (sd_drr s) h)" for h
    using g by (auto simp: grants_def)
  have w: "weight_i64 (reg_view 0 (sd_reg s') h) = weight_i64 (reg_view 0 (sd_reg s) h)" for h
    using g by (simp add: grants_def weight_i64_def)
  have bd: "0 \<le> deficit_of (sd_drr s') h \<and> deficit_of (sd_drr s') h \<le> D + W" for h
    using d[unfolded round_deficits_def, rule_format, of h] next_deficit_bounds(2,3)[OF b(1,2), of h]
      loop_boundsD(4,5)[OF b(1), of h] b(3) by auto
  have s': "loop_bounds C W (D + W) s'"
    using loop_boundsD(2)[OF b(1)] loop_boundsD(2)[OF b(1), of _ f, unfolded q(1)] loop_boundsD(3)[OF b(1)] i bd
    by (auto simp: loop_bounds_def q w split: if_splits)
  have same: "queue_of (sd_drr (deliver_ticket u received f s')) = queue_of (sd_drr s')"
    "dr_cursor (sd_drr (deliver_ticket u received f s')) = dr_cursor (sd_drr s')"
    "deficit_of (sd_drr (deliver_ticket u received f s')) = deficit_of (sd_drr s')"
    "reg_view 0 (sd_reg (deliver_ticket u received f s')) = reg_view 0 (sd_reg s')"
    "drr_inv (sd_drr (deliver_ticket u received f s')) = drr_inv (sd_drr s')"
    by (simp_all add: fun_eq_iff deliver_ticket_def release_permit_def deficit_of_def reg_view_clock[of 0 _ u] Let_def)
  show "loop_bounds C W (D + W) (deliver_ticket u received f s')" using s' by (simp add: loop_bounds_def same)
  have "total_queued (sd_drr s') + length (queue_of (sd_drr s) f) = total_queued (sd_drr s) + length (queue_of (sd_drr s') f)"
    by (rule total_queued_one[OF loop_boundsD(1)[OF b(1)] i]) (simp add: q)
  then show "Suc (total_queued (sd_drr (deliver_ticket u received f s'))) = total_queued (sd_drr s)"
    by (simp add: q total_queued_def same)
qed

section \<open>The loop ends\<close>

text \<open>
  The rounds that are left at most, for K the largest cost: \<open>q\<close> requests are queued, \<open>a\<close> disturbances are
  still to come and every flow that accrues has a deficit of at least \<open>m\<close>.
\<close>

definition rounds_left :: "nat \<Rightarrow> nat \<Rightarrow> nat \<Rightarrow> nat \<Rightarrow> nat" where
  "rounds_left K q a m = q * (K + 1) + a * (2 * K + 1) + (K - m) + 1"

text \<open>The other tasks disturb the n-th gap at most \<open>adds n\<close> times, within the bounds.\<close>

definition fair_others :: "int \<Rightarrow> int \<Rightarrow> loop_env \<Rightarrow> (nat \<Rightarrow> nat) \<Rightarrow> bool" where
  "fair_others C W env adds \<longleftrightarrow> (\<forall>n D s. loop_bounds C W D s \<longrightarrow>
     loop_bounds C W D (le_others env n s) \<and> disturbs (adds n) s (le_others env n s))"

lemma rounds_left_disturbed:
  assumes "q1 \<le> q + a" and "a = 0 \<Longrightarrow> m1 = m" and "rounds_left K q (a + r) m \<le> n"
  shows "rounds_left K q1 r m1 \<le> n"
proof (cases "a = 0")
  case True
  have "q1 * (K + 1) \<le> q * (K + 1)" using assms(1) True by (intro mult_right_mono) simp_all
  then show ?thesis using assms(2,3) True by (simp add: rounds_left_def)
next
  case False
  then obtain b where "a = Suc b" by (cases a) simp_all
  moreover have "q1 * (K + 1) \<le> (q + a) * (K + 1)" using assms(1) by (intro mult_right_mono) simp_all
  ultimately show ?thesis using assms(3) by (simp add: rounds_left_def add_mult_distrib)
qed

lemma rounds_left_grant: "rounds_left K (Suc q) a m \<le> Suc n \<Longrightarrow> rounds_left K q a 0 \<le> n"
  by (simp add: rounds_left_def)

lemma rounds_left_again: "rounds_left K q a m \<le> Suc n \<Longrightarrow> m < K \<Longrightarrow> rounds_left K q a (Suc m) \<le> n"
  by (simp add: rounds_left_def)

lemma admission_loop_bounded:
  assumes "loop_bounds C W D s" and "least_deficit (int m) s" and "0 \<le> W" and "D + int n * W \<le> i64_max"
    and "fair_others C W env adds" and "rounds_left (nat C) (total_queued (sd_drr s)) (sum adds {..<n}) m \<le> n"
  shows "\<exists>ts s'. admission_loop n cfg env lc s = Some (ts, s') \<and> drr_inv (sd_drr s')
    \<and> length ts + total_queued (sd_drr s') \<le> total_queued (sd_drr s) + sum adds {..<n}"
  using assms
proof (induction n arbitrary: D s m lc)
  case (Suc n)
  let ?u = "le_unix env n" and ?o = "le_others env n s"
  define m1 where "m1 = (if adds n = 0 then m else 0)"
  have ob: "loop_bounds C W D ?o" and od: "disturbs (adds n) s ?o" using Suc.prems(1,5) by (simp_all add: fair_others_def)
  have q1: "total_queued (sd_drr ?o) \<le> total_queued (sd_drr s) + adds n" using od by (simp add: disturbs_def)
  have ld: "least_deficit (int m1) ?o"
    using Suc.prems(2) od loop_boundsD(4)[OF ob] by (auto simp: least_deficit_def disturbs_def m1_def)
  have left: "rounds_left (nat C) (total_queued (sd_drr ?o)) (sum adds {..<n}) m1 \<le> Suc n"
    using Suc.prems(6) by (intro rounds_left_disturbed[OF q1, of m1 m]) (simp_all add: m1_def add.commute)
  have D: "D + W + int n * W \<le> i64_max" using Suc.prems(4) by (simp add: algebra_simps)
  moreover have "0 \<le> int n * W" using Suc.prems(3) by simp
  ultimately have DW: "D + W \<le> i64_max" by linarith
  show ?case
  proof (cases rule: admission_round_cases[of "?o" cfg "le_now env n" ?u "le_reading env n" lc, OF loop_boundsD(1)[OF ob]])
    case (1 cap s')
    have "total_queued (sd_drr s') = total_queued (sd_drr ?o)"
      using 1 drr_invD(1)[OF 1(2)] drr_invD(1)[OF loop_boundsD(1)[OF ob]] by (intro total_queued_cong)
    then show ?thesis using 1(1,2) q1 by simp
  next
    case (2 cap s')
    note R = again_round[OF ob DW ld 2(2) 2(3-8)[unfolded clock_indep[of ?u _ _ 0] reg_view_clock[of ?u _ 0]]]
    have "m1 < nat C" using R(3) by linarith
    from rounds_left_again[OF left this]
    have "rounds_left (nat C) (total_queued (sd_drr s')) (sum adds {..<n}) (Suc m1) \<le> n" by (simp add: R(4))
    moreover have "least_deficit (int (Suc m1)) s'" using R(2) by (simp add: add.commute)
    ultimately obtain ts s2 where "admission_loop n cfg env cap s' = Some (ts, s2)" "drr_inv (sd_drr s2)"
      "length ts + total_queued (sd_drr s2) \<le> total_queued (sd_drr s') + sum adds {..<n}"
      using Suc.IH[OF R(1) _ Suc.prems(3) D Suc.prems(5)] by blast
    then show ?thesis using 2(1) q1 R(4) by simp
  next
    case (3 cap s' f p)
    let ?s = "deliver_ticket ?u (le_received env n) f s'"
    have g: "grants 0 f p (?o\<lparr>sd_usage := le_reading env n\<rparr>) s'"
      using 3(3) by (simp add: grants_def reg_view_clock[of ?u _ 0])
    have d: "round_deficits 0 ?o s'" using 3(4) by (simp add: round_deficits_def clock_indep[of ?u _ _ 0])
    note G = grant_round[OF ob DW Suc.prems(3) 3(2) g d, of ?u "le_received env n"]
    have "rounds_left (nat C) (total_queued (sd_drr ?s)) (sum adds {..<n}) 0 \<le> n"
      by (rule rounds_left_grant[of _ _ _ m1]) (use left G(2) in simp)
    moreover have "least_deficit (int 0) ?s" using loop_boundsD(4)[OF G(1)] by (simp add: least_deficit_def)
    ultimately obtain ts s2 where "admission_loop n cfg env cap ?s = Some (ts, s2)" "drr_inv (sd_drr s2)"
      "length ts + total_queued (sd_drr s2) \<le> total_queued (sd_drr ?s) + sum adds {..<n}"
      using Suc.IH[OF G(1) _ Suc.prems(3) D Suc.prems(5)] by blast
    then show ?thesis using 3(1) q1 G(2) by simp
  qed
qed (simp add: rounds_left_def)

text \<open>
  C21. The inner admission loop ends, grants included: if every queued request costs at most C and every flow weighs at most W, then with q
  requests queued at the start and at most a further arrivals or changes of weight while it runs - other tasks may at any time also
  cancel, finish, report and publish - it goes back to sleep after at most
  q (C + 1) + a (2 C + 1) + C + 1 rounds, without a panic and having made at most q + a tickets, as long as no deficit
  can reach 2^63 in so many rounds.  The bound grows with the cost of a request, which the client chooses.
\<close>

theorem admission_loop_ends:
  assumes "loop_bounds C W D s" and "0 \<le> W" and "fair_others C W env adds"
    and "n = rounds_left (nat C) (total_queued (sd_drr s)) a 0" and "sum adds {..<n} \<le> a" and "D + int n * W \<le> i64_max"
  shows "\<exists>ts s'. admission_loop n cfg env lc s = Some (ts, s') \<and> drr_inv (sd_drr s')
    \<and> length ts + total_queued (sd_drr s') \<le> total_queued (sd_drr s) + a"
proof -
  have "least_deficit (int 0) s" using loop_boundsD(4)[OF assms(1)] by (simp add: least_deficit_def)
  moreover have "rounds_left (nat C) (total_queued (sd_drr s)) (sum adds {..<n}) 0 \<le> rounds_left (nat C) (total_queued (sd_drr s)) a 0"
    using mult_right_mono[OF assms(5), of "2 * nat C + 1"] by (simp add: rounds_left_def)
  then have "rounds_left (nat C) (total_queued (sd_drr s)) (sum adds {..<n}) 0 \<le> n" by (simp add: assms(4))
  ultimately show ?thesis using admission_loop_bounded[OF assms(1) _ assms(2,6,3), of 0 cfg lc] assms(5) by fastforce
qed

text \<open>One request of cost 5, no other task: the loop ends within 12 rounds.\<close>

definition ex_loop_env :: loop_env where
  "ex_loop_env = \<lparr> le_now = (\<lambda>_. 5), le_unix = (\<lambda>_. 0), le_reading = (\<lambda>_. None), le_others = (\<lambda>_ s. s), le_received = (\<lambda>_. True) \<rparr>"

theorem admission_loop_ends_witness:
  "\<exists>ts s'. admission_loop 12 ex_cfg ex_loop_env 0 (ex_sched None 5) = Some (ts, s') \<and> length ts + total_queued (sd_drr s') \<le> 1"
proof -
  have q: "total_queued (sd_drr (ex_sched None 5)) = 1" by (simp add: total_queued_def ex_queue) (simp add: ex_sched_def)
  have "deficit_of (sd_drr (ex_sched None 5)) f = 0" for f by (simp add: ex_sched_def deficit_of_def)
  then have "loop_bounds 5 1 0 (ex_sched None 5)"
    using ex_inv[of None 5] by (auto simp: loop_bounds_def ex_queue ex_weight trunc_def sat_i64_def i64_min_def i64_max_def)
  moreover have "fair_others 5 1 ex_loop_env (\<lambda>_. 0)" by (simp add: fair_others_def ex_loop_env_def disturbs_def)
  ultimately show ?thesis
    using admission_loop_ends[of 5 1 0 "ex_sched None 5" ex_loop_env "\<lambda>_. 0" 12 0 ex_cfg 0] q
    by (auto simp: rounds_left_def i64_max_def)
qed

end
