(* ===== verification/DrrStep.thy ===== *)
theory DrrStep
  imports DrrProps "HOL-Library.Multiset"
begin

text \<open>
  The DRR scheduler as a system of interleaved atomic steps: requests enter, queue, are
  granted, receive their ticket, are cancelled at any point, and finish; the reaper, the
  monitor and the accounting run in between, and whatever the rest of the gateway does beside them.  Between two steps the state records where
  every request and every permit is.  The invariants are proved by rule induction: permits
  are conserved, no queued request is lost, the reported depths are exact, and the
  activity counters are exact as long as no delivered ticket is dropped unreceived.
\<close>

section \<open>The system\<close>

record sys =
  sy_s :: sched
  sy_gate :: "flow_id list"
  sy_wait :: "(nat \<times> flow_id) list"
  sy_hand :: "(flow_id \<times> pending) option"
  sy_sent :: "(nat \<times> flow_id) list"
  sy_held :: "flow_id list"
  sy_lost :: "flow_id list"

text \<open>
  \<open>sy_gate\<close>: requests with a guard that are not queued yet; \<open>sy_wait\<close>: requests waiting on
  their channel, by pending id; \<open>sy_hand\<close>: the request the loop has selected but not
  answered; \<open>sy_sent\<close>: tickets in a channel; \<open>sy_held\<close>: tickets of running requests;
  \<open>sy_lost\<close>: history of tickets that were dropped in their channel.  Fewer than 2^32
  requests wait at a time, so that the 32-bit depth counters do not wrap.
\<close>

definition sys_new :: "u32 \<Rightarrow> f64 \<Rightarrow> nat \<Rightarrow> sys" where
  "sys_new n weight priority = \<lparr> sy_s = \<lparr> sd_drr = drr_new n, sd_reg = registry_new weight priority,
       sd_met = metrics_new, sd_queue = [], sd_progress = progress_new, sd_usage = None \<rparr>,
     sy_gate = [], sy_wait = [], sy_hand = None, sy_sent = [], sy_held = [], sy_lost = [] \<rparr>"

definition depth_of :: "registry \<Rightarrow> flow_id \<Rightarrow> u32" where
  "depth_of r f = fl_depth (reg_view 0 r f)"

definition active_of :: "registry \<Rightarrow> flow_id \<Rightarrow> u32" where
  "active_of r f = fl_active (reg_view 0 r f)"

text \<open>The registry keeps its flows and its well-formedness.\<close>

definition reg_ext :: "registry \<Rightarrow> registry \<Rightarrow> bool" where
  "reg_ext r r' \<longleftrightarrow> (\<forall>f. registered r f \<longrightarrow> registered r' f) \<and> (reg_inv r \<longrightarrow> reg_inv r')"

text \<open>
  What the rest of the gateway does to the shared state in between: it may create flows, write
  priorities, weights and credits, assign slots, and change metrics, estimates and usage, but not what the
  scheduler itself accounts for.
\<close>

definition aside :: "sched \<Rightarrow> sched \<Rightarrow> bool" where
  "aside s s' \<longleftrightarrow> sd_drr s' = sd_drr s \<and> sd_queue s' = sd_queue s \<and> m_active_flows (sd_met s') = m_active_flows (sd_met s)
     \<and> depth_of (sd_reg s') = depth_of (sd_reg s) \<and> active_of (sd_reg s') = active_of (sd_reg s) \<and> reg_ext (sd_reg s) (sd_reg s')"

text \<open>The flows that the reaper is about to remove have come to no use since it collected them.\<close>

definition still_idle :: "flow_id list \<Rightarrow> registry \<Rightarrow> bool" where
  "still_idle fs r \<longleftrightarrow> (\<forall>f \<in> set fs. depth_of r f = 0 \<and> active_of r f = 0)"

text \<open>
  The steps.  A reaper run removes what it collected at some earlier time; a report stores a balance that
  was loaded at some earlier time and may be stale.  Two kinds of runs are left out, because in them one flow has
  two records at a time (theory Races): those in which the reaper removes a flow that a request has come to use since it was
  collected, and those in which an admin registration inserts a flow over one created since its lookup.
\<close>

inductive drr_step :: "drr_cfg \<Rightarrow> sys \<Rightarrow> sys \<Rightarrow> bool" for cfg :: drr_cfg where
  enter: "admit_enter cfg u f (sy_s y) = (None, s') \<Longrightarrow> length (sy_gate y) + length (sy_wait y) + 1 < 2 ^ 32 \<Longrightarrow>
     drr_step cfg y (y\<lparr>sy_s := s', sy_gate := sy_gate y @ [f]\<rparr>)"
| reject: "admit_enter cfg u f (sy_s y) = (Some r, s') \<Longrightarrow> drr_step cfg y (y\<lparr>sy_s := s'\<rparr>)"
| queue: "f \<in> set (sy_gate y) \<Longrightarrow> enqueue f work entered (sy_s y) = (i, s') \<Longrightarrow>
     drr_step cfg y (y\<lparr>sy_s := s', sy_gate := remove1 f (sy_gate y), sy_wait := sy_wait y @ [(i, f)]\<rparr>)"
| grant: "sy_hand y = None \<Longrightarrow> admission_round cfg now u rd lc (sy_s y) = Some (Grant f p, cap, s') \<Longrightarrow>
     drr_step cfg y (y\<lparr>sy_s := s', sy_hand := Some (f, p)\<rparr>)"
| idle: "sy_hand y = None \<Longrightarrow> admission_round cfg now u rd lc (sy_s y) = Some (r, cap, s') \<Longrightarrow> r \<in> {Again, Break} \<Longrightarrow>
     drr_step cfg y (y\<lparr>sy_s := s'\<rparr>)"
| send: "sy_hand y = Some (f, p) \<Longrightarrow> (pd_id p, f) \<in> set (sy_wait y) \<Longrightarrow>
     drr_step cfg y (y\<lparr>sy_s := (sy_s y)\<lparr>sd_reg := snd (get_or_create u f (sd_reg (sy_s y)))\<rparr>,
       sy_hand := None, sy_sent := sy_sent y @ [(pd_id p, f)]\<rparr>)"
| send_fails: "sy_hand y = Some (f, p) \<Longrightarrow> (pd_id p, f) \<notin> set (sy_wait y) \<Longrightarrow>
     drr_step cfg y (y\<lparr>sy_s := release_permit ((sy_s y)\<lparr>sd_reg := snd (get_or_create u f (sd_reg (sy_s y)))\<rparr>),
       sy_hand := None\<rparr>)"
| receive: "(i, f) \<in> set (sy_sent y) \<Longrightarrow>
     drr_step cfg y (y\<lparr>sy_s := admitted f waited (sy_s y), sy_wait := remove1 (i, f) (sy_wait y),
       sy_sent := remove1 (i, f) (sy_sent y), sy_held := sy_held y @ [f]\<rparr>)"
| cancel_gate: "f \<in> set (sy_gate y) \<Longrightarrow>
     drr_step cfg y (y\<lparr>sy_s := guard_drop f None (sy_s y), sy_gate := remove1 f (sy_gate y)\<rparr>)"
| cancel_queued: "(i, f) \<in> set (sy_wait y) \<Longrightarrow> (i, f) \<notin> set (sy_sent y) \<Longrightarrow>
     drr_step cfg y (y\<lparr>sy_s := guard_drop f (Some i) (sy_s y), sy_wait := remove1 (i, f) (sy_wait y)\<rparr>)"
| cancel_sent: "(i, f) \<in> set (sy_sent y) \<Longrightarrow>
     drr_step cfg y (y\<lparr>sy_s := guard_drop f (Some i) (ticket_drop f (sy_s y)), sy_wait := remove1 (i, f) (sy_wait y),
       sy_sent := remove1 (i, f) (sy_sent y), sy_lost := sy_lost y @ [f]\<rparr>)"
| finish: "f \<in> set (sy_held y) \<Longrightarrow>
     drr_step cfg y (y\<lparr>sy_s := ticket_drop f (sy_s y), sy_held := remove1 f (sy_held y)\<rparr>)"
| load: "drr_step cfg y (y\<lparr>sy_s := snd (accounting_load u f (sy_s y))\<rparr>)"
| store: "drr_step cfg y (y\<lparr>sy_s := accounting_store f balance rep (sy_s y)\<rparr>)"
| reap: "still_idle fs (sd_reg (sy_s y)) \<Longrightarrow>
     drr_step cfg y (y\<lparr>sy_s := (sy_s y)\<lparr>sd_reg := snd (reap_remove fs (sd_reg (sy_s y)))\<rparr>\<rparr>)"
| observe: "drr_step cfg y (y\<lparr>sy_s := (sy_s y)\<lparr>sd_usage := usage, sd_progress := prog\<rparr>\<rparr>)"
| outside: "aside (sy_s y) s' \<Longrightarrow> drr_step cfg y (y\<lparr>sy_s := s'\<rparr>)"

text \<open>Reachable states from an empty scheduler with the configured number of permits.\<close>

inductive reachable :: "drr_cfg \<Rightarrow> sys \<Rightarrow> bool" for cfg :: drr_cfg where
  start: "unat n = dc_max_active_flows cfg \<Longrightarrow> reachable cfg (sys_new n w pr)"
| step: "reachable cfg y \<Longrightarrow> drr_step cfg y z \<Longrightarrow> reachable cfg z"

inductive_cases drr_stepE: "drr_step cfg y z"

section \<open>Effects of the steps\<close>

lemma reg_ext_refl [simp]: "reg_ext r r"
  by (simp add: reg_ext_def)

lemma reg_ext_trans: "reg_ext a b \<Longrightarrow> reg_ext b c \<Longrightarrow> reg_ext a c"
  by (simp add: reg_ext_def)

lemma reg_ext_get_or_create [simp]: "reg_ext r (snd (get_or_create u f r))"
  by (simp add: reg_ext_def reg_inv_ops)

lemma reg_ext_update [simp]: "reg_ext r (reg_update f h r)"
  by (simp add: reg_ext_def reg_inv_ops)

lemmas reg_ext_steps = reg_ext_trans[OF _ reg_ext_get_or_create] reg_ext_trans[OF _ reg_ext_update]
lemmas reg_ext_first = reg_ext_trans[OF reg_ext_get_or_create]

lemma reg_ext_touch_all [simp]: "reg_ext r (touch_all u fs r)"
proof (induction fs arbitrary: r)
  case (Cons f fs)
  show ?case using reg_ext_first[OF Cons.IH] by (simp add: touch_all_def)
qed (simp add: touch_all_def)

lemma reg_ext_find_starved: "reg_ext r (snd (find_starved now u t fs r))"
proof (induction fs arbitrary: r)
  case (Cons f fs)
  show ?case using reg_ext_first[OF Cons.IH] by (simp add: split_beta split: option.split)
qed simp

lemma reg_ext_accrue_one: "reg_ext (sd_reg (snd (snd acc))) (sd_reg (snd (snd (accrue_one u e acc))))"
  by (cases acc) (auto simp: accrue_one_def split_beta Let_def split: list.split)

lemma reg_ext_accrue: "reg_ext (sd_reg s) (sd_reg (snd (snd (accrue u s))))"
proof -
  have "reg_ext (sd_reg (snd (snd acc))) (sd_reg (snd (snd (fold (accrue_one u) es acc))))" for es acc
  proof (induction es arbitrary: acc)
    case (Cons e es)
    show ?case using reg_ext_trans[OF reg_ext_accrue_one Cons.IH] by simp
  qed simp
  from this[of "([], False, s)"] show ?thesis by (simp add: accrue_def)
qed

lemma reg_ext_take_head:
  assumes "take_head f s = Some (p, s')"
  shows "reg_ext (sd_reg s) (sd_reg s')"
proof -
  have "\<exists>c. sd_reg s' = sd_reg (clear_enqueued f (set_credit f c s))"
    using assms by (auto simp: take_head_def Let_def set_credit_def clear_enqueued_def split: option.splits)
  moreover have "reg_ext (sd_reg s) (sd_reg (clear_enqueued f (set_credit f c s)))" for c
    using reg_ext_steps(2)[OF reg_ext_update] by (simp add: set_credit_def clear_enqueued_def)
  ultimately show ?thesis by auto
qed

lemma reg_ext_select_eligible:
  assumes "select_eligible cfg u el s = Some (sel, acc, s')"
  shows "reg_ext (sd_reg s) (sd_reg s')"
proof -
  let ?r = "touch_all u (map snd el) (sd_reg s)"
  obtain f p where "take_head f (s\<lparr>sd_drr := (sd_drr s)\<lparr>dr_deficit := hdel f (dr_deficit (sd_drr s))\<rparr>,
      sd_reg := snd (get_or_create u f ?r)\<rparr>) = Some (p, s')"
    using assms by (auto simp: select_eligible_def Let_def split: option.splits if_splits)
  from reg_ext_take_head[OF this] show ?thesis
    using reg_ext_trans[OF reg_ext_touch_all reg_ext_trans[OF reg_ext_get_or_create]] by simp
qed

lemma reg_ext_try_select:
  assumes "try_select cfg now u cap s = Some (sel, acc, s')"
  shows "reg_ext (sd_reg s) (sd_reg s')"
proof (cases "cap \<le> in_use (sd_drr s) \<or> dr_cursor (sd_drr s) = []")
  case True
  then have "s' = s" using assms by (auto simp: try_select_def split: if_splits)
  then show ?thesis by simp
next
  case False
  define fs where "fs = find_starved now u (dc_starvation_timeout cfg)
      (filter (\<lambda>f. queue_of (sd_drr s) f \<noteq> []) (dr_cursor (sd_drr s))) (sd_reg s)"
  have fs: "reg_ext (sd_reg s) (snd fs)" unfolding fs_def by (rule reg_ext_find_starved)
  define ac where "ac = accrue u (s\<lparr>sd_reg := snd fs\<rparr>)"
  have ac: "reg_ext (snd fs) (sd_reg (snd (snd ac)))"
    using reg_ext_accrue[of "s\<lparr>sd_reg := snd fs\<rparr>" u] by (simp add: ac_def)
  note ts = assms[unfolded try_select_def fs_def[symmetric] Let_def split_beta ac_def[symmetric]]
  show ?thesis
  proof (cases "fst fs")
    case (Some fw)
    define s1 where "s1 = s\<lparr>sd_reg := snd fs, sd_met := record_force_admit
        (case reg_lookup (snd fs) (fst fw) of None \<Rightarrow> flow_new (fst fw) (rg_default_weight (snd fs)) (rg_default_priority (snd fs)) u
          | Some fl \<Rightarrow> fl) (snd fw) (sd_met s)\<rparr>"
    have "\<exists>p. take_head (fst fw) s1 = Some (p, s')"
      using ts False Some by (cases "take_head (fst fw) s1") (auto simp: s1_def split_beta prod_eq_iff)
    moreover have "sd_reg s1 = snd fs" by (simp add: s1_def)
    ultimately show ?thesis using reg_ext_trans[OF fs] reg_ext_take_head by metis
  next
    case None
    show ?thesis
    proof (cases "fst ac = []")
      case True
      then have "sd_reg s' = sd_reg (snd (snd ac))" using ts False None by auto
      then show ?thesis using reg_ext_trans[OF fs ac] by simp
    next
      case ne: False
      then have "select_eligible cfg u (fst ac) (snd (snd ac)) = Some (sel, acc, s')"
        using ts False None by simp
      from reg_ext_select_eligible[OF this] show ?thesis by (rule reg_ext_trans[OF reg_ext_trans[OF fs ac]])
    qed
  qed
qed

text \<open>One round of the loop: a grant, or nothing the invariants can see.\<close>

definition unchanged :: "sched \<Rightarrow> sched \<Rightarrow> bool" where
  "unchanged s s' \<longleftrightarrow> queue_of (sd_drr s') = queue_of (sd_drr s) \<and> dr_available (sd_drr s') = dr_available (sd_drr s)
     \<and> dr_max (sd_drr s') = dr_max (sd_drr s) \<and> dr_next_id (sd_drr s') = dr_next_id (sd_drr s)
     \<and> reg_view 0 (sd_reg s') = reg_view 0 (sd_reg s)
     \<and> m_active_flows (sd_met s') = m_active_flows (sd_met s) \<and> sd_queue s' = sd_queue s"

lemma effective_max_le: "effective_max c m p \<le> m"
proof (cases "kp_enabled c")
  case True
  show ?thesis unfolding effective_max_eq[OF True] by (rule Min_le) simp_all
qed (simp add: effective_max_def)

lemma grants_clock: "grants u f p s s' = grants v f p s s'"
  by (simp add: grants_def reg_view_clock[of u _ v])

lemma admission_round_effect:
  assumes "drr_inv (sd_drr s)" and "admission_round cfg now u rd lc s = Some (r, cap, s')"
  shows "drr_inv (sd_drr s') \<and> reg_ext (sd_reg s) (sd_reg s')
    \<and> (case r of Grant f p \<Rightarrow> in_use (sd_drr s) < dc_max_active_flows cfg \<and> grants 0 f p (s\<lparr>sd_usage := rd\<rparr>) s' | _ \<Rightarrow> unchanged s s')"
proof (cases "live_cap cfg s \<le> in_use (sd_drr s) \<or> dr_cursor (sd_drr s) = []")
  case True
  then show ?thesis using assms by (auto simp: admission_round_capped unchanged_def)
next
  case False
  let ?s = "reread cfg lc rd s" and ?c = "live_cap cfg s"
  note rnd = admission_round_capped[of cfg now u rd lc s, unfolded if_not_P[OF False]]
  obtain sel acc s2 where ts: "try_select cfg now u ?c ?s = Some (sel, acc, s2)" "drr_inv (sd_drr s2)"
    "case sel of None \<Rightarrow> s2 = ?s \<and> \<not> acc \<or> (\<exists>g. accrues u ?s g) = acc
      \<and> queue_of (sd_drr s2) = queue_of (sd_drr ?s) \<and> dr_available (sd_drr s2) = dr_available (sd_drr ?s)
      \<and> dr_max (sd_drr s2) = dr_max (sd_drr ?s) \<and> reg_view u (sd_reg s2) = reg_view u (sd_reg ?s)
      \<and> dr_next_id (sd_drr s2) = dr_next_id (sd_drr ?s)
      \<and> m_active_flows (sd_met s2) = m_active_flows (sd_met ?s) \<and> sd_queue s2 = sd_queue ?s
    | Some (f, p, w) \<Rightarrow> w = pd_work p \<and> in_use (sd_drr ?s) < ?c \<and> grants u f p ?s s2"
    using try_select_cases[of ?s cfg now u ?c] assms(1) by auto
  have ext: "reg_ext (sd_reg s) (sd_reg s2)" using reg_ext_try_select[OF ts(1)] by simp
  show ?thesis
  proof (cases sel)
    case None
    then have "r = (if acc then Again else Break)" "s' = s2" using assms(2) rnd ts(1) by simp_all
    moreover have "unchanged s s2" using ts(3) None by (auto simp: unchanged_def reg_view_clock[of 0 _ u])
    ultimately show ?thesis using ts(2) ext by simp
  next
    case (Some fpw)
    obtain f p w where fpw: "fpw = (f, p, w)" by (cases fpw)
    have "?c \<le> dc_max_active_flows cfg" by (simp add: live_cap_def effective_max_le)
    moreover have "grants 0 f p (s\<lparr>sd_usage := rd\<rparr>) s2"
      using ts(3) Some fpw by (simp add: grants_reread grants_clock[of 0 _ _ _ _ u])
    moreover have "r = Grant f p" "s' = s2" using assms(2) rnd ts(1) Some fpw by simp_all
    ultimately show ?thesis using ts(2,3) Some fpw ext by simp
  qed
qed

section \<open>Effects of the other operations\<close>

lemma depth_of_cong: "reg_view 0 r' = reg_view 0 r \<Longrightarrow> depth_of r' = depth_of r \<and> active_of r' = active_of r"
  by (simp add: fun_eq_iff depth_of_def active_of_def)

lemma counts_get_or_create [simp]:
  "depth_of (snd (get_or_create u f r)) = depth_of r" "active_of (snd (get_or_create u f r)) = active_of r"
  using depth_of_cong[of "snd (get_or_create u f r)" r] reg_view_clock[of 0 _ u] by simp_all

lemma counts_update:
  assumes "registered r f"
  shows "depth_of (reg_update f h r) g = (if g = f then fl_depth (h (reg_flow 0 r f)) else depth_of r g)"
    "active_of (reg_update f h r) g = (if g = f then fl_active (h (reg_flow 0 r f)) else active_of r g)"
  using assms by (simp_all add: depth_of_def active_of_def reg_view_update)

lemma flow_counts: "fl_depth (reg_flow 0 r f) = depth_of r f" "fl_active (reg_flow 0 r f) = active_of r f"
  by (simp_all add: depth_of_def active_of_def reg_view_def)

text \<open>A frame: what most operations leave alone.\<close>

definition leaves :: "sched \<Rightarrow> sched \<Rightarrow> bool" where
  "leaves s s' \<longleftrightarrow> reg_ext (sd_reg s) (sd_reg s') \<and> dr_max (sd_drr s') = dr_max (sd_drr s)"

lemma leave_queue_effect:
  assumes "registered (sd_reg s) f"
  shows "depth_of (sd_reg (leave_queue f s)) g = (if g = f then depth_of (sd_reg s) f - 1 else depth_of (sd_reg s) g)"
    "active_of (sd_reg (leave_queue f s)) = active_of (sd_reg s)"
    "sd_queue (leave_queue f s) = remove1 f (sd_queue s)" "sd_drr (leave_queue f s) = sd_drr s"
    "m_active_flows (sd_met (leave_queue f s)) = m_active_flows (sd_met s)"
    "reg_ext (sd_reg s) (sd_reg (leave_queue f s))"
    "registered (sd_reg (leave_queue f s)) = registered (sd_reg s)"
  using assms by (auto simp: leave_queue_def Let_def counts_update flow_counts fun_eq_iff)

lemma enter_effect:
  assumes "admit_enter cfg u f s = (None, s')"
  shows "depth_of (sd_reg s') g = (if g = f then depth_of (sd_reg s) f + 1 else depth_of (sd_reg s) g)"
    "active_of (sd_reg s') = active_of (sd_reg s)" "sd_queue s' = sd_queue s @ [f]" "sd_drr s' = sd_drr s"
    "m_active_flows (sd_met s') = m_active_flows (sd_met s)" "reg_ext (sd_reg s) (sd_reg s')"
    "registered (sd_reg s') f"
proof -
  let ?r = "snd (get_or_create u f (sd_reg s))"
  have r: "registered ?r f" by simp
  have s': "s' = guard_new f (s\<lparr>sd_reg := ?r\<rparr>)"
    using assms by (auto simp: admit_enter_def Let_def split: if_splits)
  show "depth_of (sd_reg s') g = (if g = f then depth_of (sd_reg s) f + 1 else depth_of (sd_reg s) g)"
    "active_of (sd_reg s') = active_of (sd_reg s)" "sd_queue s' = sd_queue s @ [f]" "sd_drr s' = sd_drr s"
    "m_active_flows (sd_met s') = m_active_flows (sd_met s)" "registered (sd_reg s') f"
    using counts_update[OF r] fun_cong[OF counts_get_or_create(1)[of u f "sd_reg s"]]
      fun_cong[OF counts_get_or_create(2)[of u f "sd_reg s"]]
    by (auto simp: s' guard_new_def Let_def fun_eq_iff flow_counts)
  show "reg_ext (sd_reg s) (sd_reg s')"
    unfolding s' guard_new_def Let_def by (simp add: reg_ext_trans[OF reg_ext_get_or_create reg_ext_update])
qed

lemma reject_effect:
  assumes "admit_enter cfg u f s = (Some r, s')"
  shows "s' = s\<lparr>sd_reg := snd (get_or_create u f (sd_reg s))\<rparr>"
  using assms by (auto simp: admit_enter_def Let_def split: if_splits)

lemma enqueue_effect:
  assumes "enqueue f work t s = (i, s')" and "registered (sd_reg s) f" and "drr_inv (sd_drr s)"
  shows "i = dr_next_id (sd_drr s)" "dr_next_id (sd_drr s') = i + 1"
    "queue_of (sd_drr s') g = (if g = f then queue_of (sd_drr s) f @ [\<lparr> pd_id = i, pd_enq = t, pd_work = work \<rparr>] else queue_of (sd_drr s) g)"
    "dr_available (sd_drr s') = dr_available (sd_drr s)" "dr_max (sd_drr s') = dr_max (sd_drr s)"
    "depth_of (sd_reg s') = depth_of (sd_reg s)" "active_of (sd_reg s') = active_of (sd_reg s)"
    "sd_queue s' = sd_queue s" "m_active_flows (sd_met s') = m_active_flows (sd_met s)"
    "reg_ext (sd_reg s) (sd_reg s')" "drr_inv (sd_drr s')"
proof -
  let ?d = "sd_drr s"
  have i: "i = dr_next_id ?d" and s': "s' = snd (enqueue f work t s)" using assms(1) by (auto simp: enqueue_def Let_def)
  have q: "queue_of (sd_drr s') g = (if g = f then queue_of ?d f @ [\<lparr> pd_id = i, pd_enq = t, pd_work = work \<rparr>] else queue_of ?d g)" for g
    by (simp add: s' enqueue_def Let_def i queue_of_def)
  have nx: "dr_next_id (sd_drr s') = i + 1" by (simp add: s' enqueue_def Let_def i)
  have cur: "dr_cursor (sd_drr s') = (if f \<in> set (dr_cursor ?d) then dr_cursor ?d else dr_cursor ?d @ [f])"
    by (simp add: s' enqueue_def Let_def)
  have w: "dr_waiting (sd_drr s') = hput f (queue_of ?d f @ [\<lparr> pd_id = i, pd_enq = t, pd_work = work \<rparr>]) (dr_waiting ?d)"
    by (simp add: s' enqueue_def Let_def i)
  note inv = drr_invD[OF assms(3)]
  show "i = dr_next_id ?d" "dr_next_id (sd_drr s') = i + 1" by (fact i, fact nx)
  show "queue_of (sd_drr s') g = (if g = f then queue_of ?d f @ [\<lparr> pd_id = i, pd_enq = t, pd_work = work \<rparr>] else queue_of ?d g)"
    by (rule q)
  show "dr_available (sd_drr s') = dr_available ?d" "dr_max (sd_drr s') = dr_max ?d" "sd_queue s' = sd_queue s"
    "m_active_flows (sd_met s') = m_active_flows (sd_met s)" "reg_ext (sd_reg s) (sd_reg s')"
    by (simp_all add: s' enqueue_def Let_def)
  show "depth_of (sd_reg s') = depth_of (sd_reg s)" "active_of (sd_reg s') = active_of (sd_reg s)"
    using assms(2) by (simp_all add: s' enqueue_def Let_def fun_eq_iff counts_update flow_counts)
  show "drr_inv (sd_drr s')"
  proof (rule drr_invI)
    show "distinct (dr_cursor (sd_drr s'))" using inv(1) by (simp add: cur)
    show "hwf (dr_waiting (sd_drr s'))" using inv(2) by (simp add: w)
    fix g
    show "g \<in> set (dr_cursor (sd_drr s')) \<longleftrightarrow> queue_of (sd_drr s') g \<noteq> []" using inv(3) by (auto simp: cur q)
    show "hget (dr_waiting (sd_drr s')) g = None \<or> queue_of (sd_drr s') g \<noteq> []"
      using inv(4)[of g] by (cases "hget (dr_waiting ?d) g") (auto simp: w q queue_of_def)
    show "sorted_wrt (<) (map pd_id (queue_of (sd_drr s') g))"
      using inv(5)[of g] inv(6)[of _ f] i by (auto simp: q sorted_wrt_append)
    show "\<And>p. p \<in> set (queue_of (sd_drr s') g) \<Longrightarrow> pd_id p < dr_next_id (sd_drr s')"
      using inv(6)[of _ g] inv(6)[of _ f] i by (auto simp: q nx split: if_splits intro: less_SucI)
  qed
qed

lemma remove_pending_effect:
  assumes "drr_inv d"
  shows "queue_of (fst (remove_pending f pid d)) g =
      (if g = f \<and> pid \<noteq> None then filter (\<lambda>p. pd_id p \<noteq> the pid) (queue_of d f) else queue_of d g)"
    "dr_available (fst (remove_pending f pid d)) = dr_available d" "dr_max (fst (remove_pending f pid d)) = dr_max d"
    "dr_next_id (fst (remove_pending f pid d)) = dr_next_id d" "drr_inv (fst (remove_pending f pid d))"
proof -
  note inv = drr_invD[OF assms]
  define d' where "d' = fst (remove_pending f pid d)"
  define q' where "q' = (case pid of Some i \<Rightarrow> filter (\<lambda>p. pd_id p \<noteq> i) (queue_of d f) | None \<Rightarrow> queue_of d f)"
  have q: "queue_of d' g = (if g = f then q' else queue_of d g)" for g
    by (cases "hget (dr_waiting d) f"; cases pid)
      (auto simp: d'_def q'_def remove_pending_def Let_def purge_flow_def queue_of_def)
  then show "queue_of (fst (remove_pending f pid d)) g =
      (if g = f \<and> pid \<noteq> None then filter (\<lambda>p. pd_id p \<noteq> the pid) (queue_of d f) else queue_of d g)"
    by (cases pid) (simp_all add: d'_def q'_def)
  show fr: "dr_available (fst (remove_pending f pid d)) = dr_available d" "dr_max (fst (remove_pending f pid d)) = dr_max d"
    "dr_next_id (fst (remove_pending f pid d)) = dr_next_id d"
    by (auto simp: remove_pending_def Let_def purge_flow_def split: option.split)
  have w: "dr_waiting d' = (if hget (dr_waiting d) f = None then dr_waiting d
      else if q' = [] then hdel f (hput f [] (dr_waiting d)) else hput f q' (dr_waiting d))"
    "dr_cursor d' = (if hget (dr_waiting d) f \<noteq> None \<and> q' = [] then removeAll f (dr_cursor d) else dr_cursor d)"
    by (cases "hget (dr_waiting d) f"; cases pid;
        simp add: d'_def q'_def remove_pending_def Let_def purge_flow_def queue_of_def)+
  have q'f: "set q' \<subseteq> set (queue_of d f)" by (auto simp: q'_def split: option.splits)
  have q'n: "hget (dr_waiting d) f = None \<Longrightarrow> q' = []" by (simp add: q'_def queue_of_def split: option.split)
  have "drr_inv d'"
  proof (rule drr_invI)
    show "distinct (dr_cursor d')" using inv(1) by (simp add: w distinct_removeAll)
    show "hwf (dr_waiting d')" using inv(2) by (simp add: w)
    fix g
    show "g \<in> set (dr_cursor d') \<longleftrightarrow> queue_of d' g \<noteq> []"
      using inv(3)[of g] inv(3)[of f] q'n q'f by (auto simp: w q queue_of_def split: option.splits)
    show "hget (dr_waiting d') g = None \<or> queue_of d' g \<noteq> []"
      using inv(4)[of g] by (cases "hget (dr_waiting d) g") (auto simp: w q queue_of_def)
    show "sorted_wrt (<) (map pd_id (queue_of d' g))"
      using inv(5)[of f] inv(5)[of g] by (auto simp: q q'_def sorted_wrt_map sorted_wrt_filter split: option.split)
    show "\<And>p. p \<in> set (queue_of d' g) \<Longrightarrow> pd_id p < dr_next_id d'"
      using inv(6)[of _ g] inv(6)[of _ f] q'f fr(3)[folded d'_def] by (auto simp: q split: if_splits)
  qed
  then show "drr_inv (fst (remove_pending f pid d))" by (simp add: d'_def)
qed

lemma guard_drop_effect:
  assumes "registered (sd_reg s) f" and "drr_inv (sd_drr s)"
  shows "depth_of (sd_reg (guard_drop f pid s)) g = (if g = f then depth_of (sd_reg s) f - 1 else depth_of (sd_reg s) g)"
    "active_of (sd_reg (guard_drop f pid s)) = active_of (sd_reg s)"
    "sd_queue (guard_drop f pid s) = remove1 f (sd_queue s)"
    "sd_drr (guard_drop f pid s) = fst (remove_pending f pid (sd_drr s))"
    "m_active_flows (sd_met (guard_drop f pid s)) = m_active_flows (sd_met s)"
    "reg_ext (sd_reg s) (sd_reg (guard_drop f pid s))"
proof -
  note lq = leave_queue_effect[OF assms(1)]
  have r: "sd_reg (guard_drop f pid s) = reg_update f (\<lambda>fl. fl\<lparr>fl_enqueued_at := None\<rparr>) (sd_reg (leave_queue f s))"
    by (simp add: guard_drop_def Let_def split_beta clear_enqueued_def)
  have reg: "registered (sd_reg (leave_queue f s)) f" using lq(7) assms(1) by simp
  show "depth_of (sd_reg (guard_drop f pid s)) g = (if g = f then depth_of (sd_reg s) f - 1 else depth_of (sd_reg s) g)"
    "active_of (sd_reg (guard_drop f pid s)) = active_of (sd_reg s)"
    using counts_update[OF reg] lq(1,2) by (auto simp: r fun_eq_iff flow_counts)
  show "reg_ext (sd_reg s) (sd_reg (guard_drop f pid s))" unfolding r by (rule reg_ext_trans[OF lq(6) reg_ext_update])
  show "sd_queue (guard_drop f pid s) = remove1 f (sd_queue s)"
    "sd_drr (guard_drop f pid s) = fst (remove_pending f pid (sd_drr s))"
    "m_active_flows (sd_met (guard_drop f pid s)) = m_active_flows (sd_met s)"
    using lq by (simp_all add: guard_drop_def Let_def split_beta clear_enqueued_def)
qed

lemma admitted_effect:
  assumes "registered (sd_reg s) f"
  shows "depth_of (sd_reg (admitted f w s)) g = (if g = f then depth_of (sd_reg s) f - 1 else depth_of (sd_reg s) g)"
    "active_of (sd_reg (admitted f w s)) g = (if g = f then active_of (sd_reg s) f + 1 else active_of (sd_reg s) g)"
    "sd_queue (admitted f w s) = remove1 f (sd_queue s)" "sd_drr (admitted f w s) = sd_drr s"
    "m_active_flows (sd_met (admitted f w s)) = m_active_flows (sd_met s) + 1"
    "reg_ext (sd_reg s) (sd_reg (admitted f w s))"
proof -
  note lq = leave_queue_effect[OF assms]
  have r: "sd_reg (admitted f w s) = reg_update f inc_active (sd_reg (leave_queue f s))"
    by (simp add: admitted_def Let_def guard_consume_def)
  have reg: "registered (sd_reg (leave_queue f s)) f" using lq(7) assms by simp
  show "depth_of (sd_reg (admitted f w s)) g = (if g = f then depth_of (sd_reg s) f - 1 else depth_of (sd_reg s) g)"
    "active_of (sd_reg (admitted f w s)) g = (if g = f then active_of (sd_reg s) f + 1 else active_of (sd_reg s) g)"
    using counts_update[OF reg] lq(1,2) by (auto simp: r flow_counts inc_active_def fun_eq_iff)
  show "reg_ext (sd_reg s) (sd_reg (admitted f w s))" unfolding r by (rule reg_ext_trans[OF lq(6) reg_ext_update])
  show "sd_queue (admitted f w s) = remove1 f (sd_queue s)" "sd_drr (admitted f w s) = sd_drr s"
    "m_active_flows (sd_met (admitted f w s)) = m_active_flows (sd_met s) + 1"
    using lq by (simp_all add: admitted_def Let_def guard_consume_def)
qed

lemma ticket_drop_effect:
  "depth_of (sd_reg (ticket_drop f s)) = depth_of (sd_reg s)"
  "registered (sd_reg s) f \<Longrightarrow> active_of (sd_reg (ticket_drop f s)) g =
     (if g = f then active_of (sd_reg s) f - 1 else active_of (sd_reg s) g)"
  "sd_queue (ticket_drop f s) = sd_queue s"
  "queue_of (sd_drr (ticket_drop f s)) = queue_of (sd_drr s)" "drr_inv (sd_drr (ticket_drop f s)) = drr_inv (sd_drr s)"
  "dr_available (sd_drr (ticket_drop f s)) = dr_available (sd_drr s) + 1"
  "dr_max (sd_drr (ticket_drop f s)) = dr_max (sd_drr s)" "dr_next_id (sd_drr (ticket_drop f s)) = dr_next_id (sd_drr s)"
  "m_active_flows (sd_met (ticket_drop f s)) = m_active_flows (sd_met s) - 1"
  "reg_ext (sd_reg s) (sd_reg (ticket_drop f s))"
  "registered (sd_reg (ticket_drop f s)) = registered (sd_reg s)"
proof -
  have "depth_of (reg_update f dec_active r) = depth_of r" for r
  proof (cases "registered r f")
    case True
    then show ?thesis by (auto simp: fun_eq_iff counts_update flow_counts dec_active_def)
  next
    case False
    then have "reg_update f dec_active r = r" by (simp add: registered_def reg_lookup_def reg_update_def)
    then show ?thesis by simp
  qed
  then show "depth_of (sd_reg (ticket_drop f s)) = depth_of (sd_reg s)"
    by (simp add: ticket_drop_def release_permit_def)
qed (auto simp: ticket_drop_def release_permit_def counts_update flow_counts dec_active_def fun_eq_iff)

lemma guard_drop_drr:
  assumes "registered (sd_reg s) f" and "drr_inv (sd_drr s)"
  shows "queue_of (sd_drr (guard_drop f pid s)) g =
      (if g = f \<and> pid \<noteq> None then filter (\<lambda>p. pd_id p \<noteq> the pid) (queue_of (sd_drr s) f) else queue_of (sd_drr s) g)"
    "dr_available (sd_drr (guard_drop f pid s)) = dr_available (sd_drr s)" "dr_max (sd_drr (guard_drop f pid s)) = dr_max (sd_drr s)"
    "dr_next_id (sd_drr (guard_drop f pid s)) = dr_next_id (sd_drr s)" "drr_inv (sd_drr (guard_drop f pid s))"
  unfolding guard_drop_effect(4)[OF assms] by (rule remove_pending_effect[OF assms(2)])+

text \<open>The ticket that is dropped in its channel, and the guard of its request.\<close>

lemma cancel_sent_effect:
  assumes "registered (sd_reg s) f" and "drr_inv (sd_drr s)"
  shows "depth_of (sd_reg (guard_drop f pid (ticket_drop f s))) g = (if g = f then depth_of (sd_reg s) f - 1 else depth_of (sd_reg s) g)"
    "sd_queue (guard_drop f pid (ticket_drop f s)) = remove1 f (sd_queue s)"
    "reg_ext (sd_reg s) (sd_reg (guard_drop f pid (ticket_drop f s)))"
    "queue_of (sd_drr (guard_drop f pid (ticket_drop f s))) g =
      (if g = f \<and> pid \<noteq> None then filter (\<lambda>p. pd_id p \<noteq> the pid) (queue_of (sd_drr s) f) else queue_of (sd_drr s) g)"
    "dr_available (sd_drr (guard_drop f pid (ticket_drop f s))) = dr_available (sd_drr s) + 1"
    "dr_max (sd_drr (guard_drop f pid (ticket_drop f s))) = dr_max (sd_drr s)"
    "dr_next_id (sd_drr (guard_drop f pid (ticket_drop f s))) = dr_next_id (sd_drr s)"
    "drr_inv (sd_drr (guard_drop f pid (ticket_drop f s)))"
proof -
  have r: "registered (sd_reg (ticket_drop f s)) f" and i: "drr_inv (sd_drr (ticket_drop f s))"
    using assms by (simp_all add: ticket_drop_effect)
  note e = guard_drop_effect[OF r i] guard_drop_drr[OF r i]
  show "reg_ext (sd_reg s) (sd_reg (guard_drop f pid (ticket_drop f s)))" by (rule reg_ext_trans[OF ticket_drop_effect(10) e(6)])
qed (use assms in \<open>auto simp: guard_drop_effect(1,3) guard_drop_drr ticket_drop_effect\<close>)

section \<open>Calm steps\<close>

text \<open>What a step does that moves no request and no permit.\<close>

definition calm :: "sched \<Rightarrow> sched \<Rightarrow> bool" where
  "calm s s' \<longleftrightarrow> queue_of (sd_drr s') = queue_of (sd_drr s) \<and> dr_available (sd_drr s') = dr_available (sd_drr s)
     \<and> dr_max (sd_drr s') = dr_max (sd_drr s) \<and> dr_next_id (sd_drr s') = dr_next_id (sd_drr s) \<and> drr_inv (sd_drr s')
     \<and> depth_of (sd_reg s') = depth_of (sd_reg s) \<and> active_of (sd_reg s') = active_of (sd_reg s)
     \<and> m_active_flows (sd_met s') = m_active_flows (sd_met s) \<and> sd_queue s' = sd_queue s \<and> reg_ext (sd_reg s) (sd_reg s')"

lemma calm_aside: "drr_inv (sd_drr s) \<Longrightarrow> aside s s' \<Longrightarrow> calm s s'"
  by (simp add: calm_def aside_def)

lemma calm_idle:
  assumes "drr_inv (sd_drr s)" and "admission_round cfg now u rd lc s = Some (r, cap, s')" and "r \<in> {Again, Break}"
  shows "calm s s'"
proof -
  have "unchanged s s'" "drr_inv (sd_drr s')" "reg_ext (sd_reg s) (sd_reg s')"
    using admission_round_effect[OF assms(1,2)] assms(3) by auto
  then show ?thesis using depth_of_cong[of "sd_reg s'" "sd_reg s"] by (simp add: calm_def unchanged_def)
qed

lemma aside_load: "aside s (snd (accounting_load u f s))"
  by (simp add: aside_def accounting_load_def Let_def)

lemma aside_set_credit: "aside s (set_credit f c s)"
proof -
  have "depth_of (reg_update f (\<lambda>fl. fl\<lparr>fl_credit := c\<rparr>) r) = depth_of r \<and> active_of (reg_update f (\<lambda>fl. fl\<lparr>fl_credit := c\<rparr>) r) = active_of r" for r
    by (auto simp: fun_eq_iff depth_of_def active_of_def reg_view_def reg_flow_def reg_update_def reg_lookup_def split: option.split)
  then show ?thesis by (simp add: aside_def set_credit_def)
qed

lemma aside_store: "aside s (accounting_store f c rep s)"
  by (simp add: accounting_store_def aside_set_credit)

lemma aside_trans: "aside a b \<Longrightarrow> aside b c \<Longrightarrow> aside a c"
  by (auto simp: aside_def intro: reg_ext_trans)

lemma aside_report: "aside s (report_accounting u f rep s)"
  unfolding report_accounting_def split_beta Let_def by (rule aside_trans[OF aside_load aside_store])

text \<open>The steps of the system, the calm ones taken together.\<close>

lemma drr_step_cases [consumes 2, case_names calm enter queue grant send send_fails receive cancel_gate cancel_queued cancel_sent finish reap]:
  assumes "drr_step cfg y z" and "drr_inv (sd_drr (sy_s y))"
  obtains (calm) s' where "z = y\<lparr>sy_s := s'\<rparr>" "calm (sy_s y) s'"
  | (enter) u f s' where "z = y\<lparr>sy_s := s', sy_gate := sy_gate y @ [f]\<rparr>" "admit_enter cfg u f (sy_s y) = (None, s')"
      "length (sy_gate y) + length (sy_wait y) + 1 < 2 ^ 32"
  | (queue) f work t i s' where "z = y\<lparr>sy_s := s', sy_gate := remove1 f (sy_gate y), sy_wait := sy_wait y @ [(i, f)]\<rparr>"
      "f \<in> set (sy_gate y)" "enqueue f work t (sy_s y) = (i, s')"
  | (grant) f p s' rd where "z = y\<lparr>sy_s := s', sy_hand := Some (f, p)\<rparr>" "sy_hand y = None" "grants 0 f p ((sy_s y)\<lparr>sd_usage := rd\<rparr>) s'"
      "drr_inv (sd_drr s')" "reg_ext (sd_reg (sy_s y)) (sd_reg s')" "in_use (sd_drr (sy_s y)) < dc_max_active_flows cfg"
  | (send) f p u where "z = y\<lparr>sy_s := (sy_s y)\<lparr>sd_reg := snd (get_or_create u f (sd_reg (sy_s y)))\<rparr>,
       sy_hand := None, sy_sent := sy_sent y @ [(pd_id p, f)]\<rparr>" "sy_hand y = Some (f, p)" "(pd_id p, f) \<in> set (sy_wait y)"
  | (send_fails) f p u where "z = y\<lparr>sy_s := release_permit ((sy_s y)\<lparr>sd_reg := snd (get_or_create u f (sd_reg (sy_s y)))\<rparr>),
       sy_hand := None\<rparr>" "sy_hand y = Some (f, p)" "(pd_id p, f) \<notin> set (sy_wait y)"
  | (receive) i f w where "z = y\<lparr>sy_s := admitted f w (sy_s y), sy_wait := remove1 (i, f) (sy_wait y),
       sy_sent := remove1 (i, f) (sy_sent y), sy_held := sy_held y @ [f]\<rparr>" "(i, f) \<in> set (sy_sent y)"
  | (cancel_gate) f where "z = y\<lparr>sy_s := guard_drop f None (sy_s y), sy_gate := remove1 f (sy_gate y)\<rparr>" "f \<in> set (sy_gate y)"
  | (cancel_queued) i f where "z = y\<lparr>sy_s := guard_drop f (Some i) (sy_s y), sy_wait := remove1 (i, f) (sy_wait y)\<rparr>"
      "(i, f) \<in> set (sy_wait y)" "(i, f) \<notin> set (sy_sent y)"
  | (cancel_sent) i f where "z = y\<lparr>sy_s := guard_drop f (Some i) (ticket_drop f (sy_s y)), sy_wait := remove1 (i, f) (sy_wait y),
       sy_sent := remove1 (i, f) (sy_sent y), sy_lost := sy_lost y @ [f]\<rparr>" "(i, f) \<in> set (sy_sent y)"
  | (finish) f where "z = y\<lparr>sy_s := ticket_drop f (sy_s y), sy_held := remove1 f (sy_held y)\<rparr>" "f \<in> set (sy_held y)"
  | (reap) fs where "z = y\<lparr>sy_s := (sy_s y)\<lparr>sd_reg := snd (reap_remove fs (sd_reg (sy_s y)))\<rparr>\<rparr>"
      "still_idle fs (sd_reg (sy_s y))"
  using assms(1)
proof cases
  case (reject u f r s')
  then show ?thesis using calm(1) calm_aside[OF assms(2)] reject_effect[OF reject(2)] by (simp add: aside_def)
next
  case (grant now u rd lc f p cap s')
  then show ?thesis using admission_round_effect[OF assms(2) grant(3)] by (intro that(4)[OF grant(1,2)]) auto
next
  case (idle now u rd lc r cap s')
  then show ?thesis using calm(1) calm_idle[OF assms(2)] by blast
next
  case (load u f)
  then show ?thesis using calm(1) calm_aside[OF assms(2) aside_load] by blast
next
  case (store f balance rep)
  then show ?thesis using calm(1) calm_aside[OF assms(2) aside_store] by blast
next
  case (observe usage prog)
  then show ?thesis using calm(1) calm_aside[OF assms(2)] by (simp add: aside_def)
next
  case (outside s')
  then show ?thesis using calm(1) calm_aside[OF assms(2)] by blast
qed (use that in blast)+

section \<open>The invariants\<close>

definition guards :: "sys \<Rightarrow> flow_id list" where
  "guards y = sy_gate y @ map snd (sy_wait y)"

definition in_hand :: "sys \<Rightarrow> nat" where
  "in_hand y = (case sy_hand y of None \<Rightarrow> 0 | Some _ \<Rightarrow> 1)"

definition permits_ok :: "drr_cfg \<Rightarrow> sys \<Rightarrow> bool" where
  "permits_ok cfg y \<longleftrightarrow> unat (dr_available (sd_drr (sy_s y))) + in_hand y + length (sy_sent y) + length (sy_held y)
       = unat (dr_max (sd_drr (sy_s y)))
     \<and> unat (dr_max (sd_drr (sy_s y))) = dc_max_active_flows cfg"

definition ids_of :: "sys \<Rightarrow> flow_id \<Rightarrow> nat set" where
  "ids_of y f = pd_id ` set (queue_of (sd_drr (sy_s y)) f)"

text \<open>Where a waiting request can be: queued, selected, or holding its ticket in the channel.\<close>

definition waiting_ok :: "sys \<Rightarrow> bool" where
  "waiting_ok y \<longleftrightarrow> drr_inv (sd_drr (sy_s y)) \<and> distinct (map fst (sy_wait y)) \<and> distinct (sy_sent y)
     \<and> (\<forall>i f. (i, f) \<in> set (sy_wait y) \<longrightarrow> i < dr_next_id (sd_drr (sy_s y)))
     \<and> (\<forall>i f. (i, f) \<in> set (sy_sent y) \<longrightarrow> (i, f) \<in> set (sy_wait y))
     \<and> (\<forall>f. \<forall>i \<in> ids_of y f. (i, f) \<in> set (sy_wait y) \<and> (i, f) \<notin> set (sy_sent y))
     \<and> (\<forall>f p. sy_hand y = Some (f, p) \<longrightarrow> pd_id p \<notin> ids_of y f \<and> (pd_id p, f) \<notin> set (sy_sent y)
          \<and> pd_id p < dr_next_id (sd_drr (sy_s y)))
     \<and> (\<forall>i f. (i, f) \<in> set (sy_wait y) \<longrightarrow> i \<in> ids_of y f \<or> (i, f) \<in> set (sy_sent y)
          \<or> (\<exists>p. sy_hand y = Some (f, p) \<and> pd_id p = i))"

definition depths_ok :: "sys \<Rightarrow> bool" where
  "depths_ok y \<longleftrightarrow> reg_inv (sd_reg (sy_s y)) \<and> length (guards y) < 2 ^ 32
     \<and> (\<forall>f. depth_of (sd_reg (sy_s y)) f = of_nat (count_list (guards y) f))
     \<and> (\<forall>f \<in> set (guards y). registered (sd_reg (sy_s y)) f)
     \<and> (\<forall>f. count_list (sd_queue (sy_s y)) f = count_list (guards y) f)"

definition active_ok :: "sys \<Rightarrow> bool" where
  "active_ok y \<longleftrightarrow> (sy_lost y = [] \<longrightarrow>
       m_active_flows (sd_met (sy_s y)) = int (length (sy_held y))
     \<and> (\<forall>f. active_of (sd_reg (sy_s y)) f = of_nat (count_list (sy_held y) f))
     \<and> (\<forall>f \<in> set (sy_held y). registered (sd_reg (sy_s y)) f))"

section \<open>Permits\<close>

lemma unat_suc_u32: "unat (w::u32) < n \<Longrightarrow> n < 2 ^ 32 \<Longrightarrow> unat (w + 1) = unat w + 1"
  by (rule unat_plus_1) simp

lemma in_use_eq: "unat (dr_available d) \<le> unat (dr_max d) \<Longrightarrow> in_use d = unat (dr_max d) - unat (dr_available d)"
  by (simp add: in_use_def unat_sub word_le_nat_alt)

lemma permits_frame:
  assumes "permits_ok cfg y" and "dr_available (sd_drr s') = dr_available (sd_drr (sy_s y))"
    and "dr_max (sd_drr s') = dr_max (sd_drr (sy_s y))" and "sy_s z = s'"
    and "in_hand z + length (sy_sent z) + length (sy_held z) = in_hand y + length (sy_sent y) + length (sy_held y)"
  shows "permits_ok cfg z"
  using assms by (simp add: permits_ok_def)

lemma permits_release:
  assumes "permits_ok cfg y" and "dr_available (sd_drr (sy_s z)) = dr_available (sd_drr (sy_s y)) + 1"
    and "dr_max (sd_drr (sy_s z)) = dr_max (sd_drr (sy_s y))"
    and "in_hand z + length (sy_sent z) + length (sy_held z) + 1 = in_hand y + length (sy_sent y) + length (sy_held y)"
  shows "permits_ok cfg z"
proof -
  have "unat (dr_available (sd_drr (sy_s y))) < unat (dr_max (sd_drr (sy_s y)))"
    using assms(1,4) by (simp add: permits_ok_def)
  then have "unat (dr_available (sd_drr (sy_s y)) + 1) = unat (dr_available (sd_drr (sy_s y))) + 1"
    by (rule unat_suc_u32) simp
  then show ?thesis using assms by (simp add: permits_ok_def)
qed

lemma permits_take:
  assumes "permits_ok cfg y" and "sy_hand y = None" and "in_use (sd_drr (sy_s y)) < dc_max_active_flows cfg"
    and "dr_available (sd_drr s') = dr_available (sd_drr (sy_s y)) - 1" and "dr_max (sd_drr s') = dr_max (sd_drr (sy_s y))"
  shows "permits_ok cfg (y\<lparr>sy_s := s', sy_hand := Some fp\<rparr>)"
proof -
  let ?d = "sd_drr (sy_s y)"
  have "unat (dr_available ?d) \<le> unat (dr_max ?d)" using assms(1) by (simp add: permits_ok_def)
  then have "0 < unat (dr_available ?d)" using in_use_eq[of ?d] assms(1,3) by (auto simp: permits_ok_def)
  then have "dr_available ?d \<noteq> 0" by auto
  then have "unat (dr_available ?d - 1) + 1 = unat (dr_available ?d)" using \<open>0 < unat (dr_available ?d)\<close> by simp
  then show ?thesis using assms by (simp add: permits_ok_def in_hand_def)
qed

text \<open>The scheduler part of a step: structure invariant and permits.\<close>

lemma waiting_inv: "waiting_ok y \<Longrightarrow> drr_inv (sd_drr (sy_s y))"
  by (simp add: waiting_ok_def)

lemma length_remove1_less: "x \<in> set xs \<Longrightarrow> length (remove1 x xs) + 1 = length xs"
  by (rule length_filter_remove1)

lemma guards_registered:
  assumes "depths_ok y"
  shows "f \<in> set (sy_gate y) \<Longrightarrow> registered (sd_reg (sy_s y)) f"
    "(i, f) \<in> set (sy_wait y) \<Longrightarrow> registered (sd_reg (sy_s y)) f"
  using assms by (force simp: depths_ok_def guards_def)+

lemma permits_step:
  assumes "drr_step cfg y z" and pok: "permits_ok cfg y" and ok: "waiting_ok y" and dok: "depths_ok y"
  shows "permits_ok cfg z"
proof -
  note inv = waiting_inv[OF ok]
  note reg = guards_registered[OF dok]
  have sent: "(i, f) \<in> set (sy_sent y) \<Longrightarrow> registered (sd_reg (sy_s y)) f" for i f
    using reg(2) ok unfolding waiting_ok_def by blast
  from assms(1) inv show ?thesis
  proof (cases rule: drr_step_cases)
    case (calm s')
    then show ?thesis by (intro permits_frame[OF pok]) (simp_all add: calm_def in_hand_def)
  next
    case (enter u f s')
    then show ?thesis using pok enter_effect(4)[OF enter(2)] by (simp add: permits_ok_def in_hand_def)
  next
    case (queue f work t i s')
    then show ?thesis using enqueue_effect(4,5)[OF queue(3) reg(1)[OF queue(2)] inv] pok by (simp add: permits_ok_def in_hand_def)
  next
    case (grant f p s' rd)
    then show ?thesis by (auto simp: grants_def intro: permits_take[OF pok])
  next
    case (send f p u)
    then show ?thesis using pok by (simp add: permits_ok_def in_hand_def)
  next
    case (send_fails f p u)
    then show ?thesis by (intro permits_release[OF pok]) (simp_all add: in_hand_def release_permit_def)
  next
    case (receive i f w)
    then show ?thesis using length_remove1_less[OF receive(2)]
      by (intro permits_frame[OF pok]) (simp_all add: admitted_effect(4)[OF sent] in_hand_def)
  next
    case (cancel_gate f)
    then show ?thesis using guard_drop_drr[OF reg(1)[OF cancel_gate(2)] inv] by (intro permits_frame[OF pok]) (simp_all add: in_hand_def)
  next
    case (cancel_queued i f)
    then show ?thesis using guard_drop_drr[OF reg(2)[OF cancel_queued(2)] inv] by (intro permits_frame[OF pok]) (simp_all add: in_hand_def)
  next
    case (cancel_sent i f)
    then show ?thesis using length_remove1_less[OF cancel_sent(2)] cancel_sent_effect(5,6)[OF sent[OF cancel_sent(2)] inv]
      by (intro permits_release[OF pok]) (simp_all add: in_hand_def)
  next
    case (finish f)
    then show ?thesis using length_remove1_less[OF finish(2)]
      by (intro permits_release[OF pok]) (simp_all add: ticket_drop_effect in_hand_def)
  qed (use pok in \<open>simp add: permits_ok_def in_hand_def\<close>)
qed

section \<open>Waiting requests\<close>

lemma waiting_okD:
  assumes "waiting_ok y"
  shows "drr_inv (sd_drr (sy_s y))" "distinct (map fst (sy_wait y))" "distinct (sy_sent y)"
    "(i, f) \<in> set (sy_wait y) \<Longrightarrow> i < dr_next_id (sd_drr (sy_s y))"
    "(i, f) \<in> set (sy_sent y) \<Longrightarrow> (i, f) \<in> set (sy_wait y)"
    "i \<in> ids_of y f \<Longrightarrow> (i, f) \<in> set (sy_wait y)" "i \<in> ids_of y f \<Longrightarrow> (i, f) \<notin> set (sy_sent y)"
    "sy_hand y = Some (f, p) \<Longrightarrow> pd_id p \<notin> ids_of y f" "sy_hand y = Some (f, p) \<Longrightarrow> (pd_id p, f) \<notin> set (sy_sent y)"
    "sy_hand y = Some (f, p) \<Longrightarrow> pd_id p < dr_next_id (sd_drr (sy_s y))"
    "(i, f) \<in> set (sy_wait y) \<Longrightarrow> i \<in> ids_of y f \<or> (i, f) \<in> set (sy_sent y) \<or> (\<exists>p. sy_hand y = Some (f, p) \<and> pd_id p = i)"
  using assms unfolding waiting_ok_def by blast+

lemma waiting_okI:
  assumes "drr_inv (sd_drr (sy_s y))" "distinct (map fst (sy_wait y))" "distinct (sy_sent y)"
    "\<And>i f. (i, f) \<in> set (sy_wait y) \<Longrightarrow> i < dr_next_id (sd_drr (sy_s y))"
    "\<And>i f. (i, f) \<in> set (sy_sent y) \<Longrightarrow> (i, f) \<in> set (sy_wait y)"
    "\<And>i f. i \<in> ids_of y f \<Longrightarrow> (i, f) \<in> set (sy_wait y)" "\<And>i f. i \<in> ids_of y f \<Longrightarrow> (i, f) \<notin> set (sy_sent y)"
    "\<And>f p. sy_hand y = Some (f, p) \<Longrightarrow> pd_id p \<notin> ids_of y f" "\<And>f p. sy_hand y = Some (f, p) \<Longrightarrow> (pd_id p, f) \<notin> set (sy_sent y)"
    "\<And>f p. sy_hand y = Some (f, p) \<Longrightarrow> pd_id p < dr_next_id (sd_drr (sy_s y))"
    "\<And>i f. (i, f) \<in> set (sy_wait y) \<Longrightarrow> i \<in> ids_of y f \<or> (i, f) \<in> set (sy_sent y) \<or> (\<exists>p. sy_hand y = Some (f, p) \<and> pd_id p = i)"
  shows "waiting_ok y"
  using assms unfolding waiting_ok_def by blast

lemma waiting_frame:
  assumes "waiting_ok y" and "queue_of (sd_drr (sy_s z)) = queue_of (sd_drr (sy_s y))"
    and "dr_next_id (sd_drr (sy_s z)) = dr_next_id (sd_drr (sy_s y))" and "drr_inv (sd_drr (sy_s z))"
    and "sy_wait z = sy_wait y" and "sy_sent z = sy_sent y" and "sy_hand z = sy_hand y"
  shows "waiting_ok z"
  using assms by (simp add: waiting_ok_def ids_of_def)

lemma distinct_fst_remove1: "distinct (map fst xs) \<Longrightarrow> distinct (map fst (remove1 x xs))"
  by (induction xs) (auto dest: notin_set_remove1 set_remove1_subset[THEN subsetD])

lemma distinct_of_fst: "distinct (map fst xs) \<Longrightarrow> distinct xs"
  by (simp add: distinct_map)

text \<open>Removing a request whose answer is in its channel, or one that is still queued.\<close>

lemma waiting_leave:
  assumes ok: "waiting_ok y" and drr: "drr_inv (sd_drr (sy_s z))"
    and next_id: "dr_next_id (sd_drr (sy_s z)) = dr_next_id (sd_drr (sy_s y))"
    and ids: "\<And>g. ids_of z g = (if g = f then ids_of y f - {i} else ids_of y g)"
    and eqs: "sy_wait z = remove1 (i, f) (sy_wait y)" "sy_sent z = remove1 (i, f) (sy_sent y)" "sy_hand z = sy_hand y"
  shows "waiting_ok z"
proof -
  note D = waiting_okD[OF ok]
  have w: "set (sy_wait z) = set (sy_wait y) - {(i, f)}" and s: "set (sy_sent z) = set (sy_sent y) - {(i, f)}"
    using D(2,3) by (simp_all add: eqs distinct_of_fst)
  show ?thesis
  proof (rule waiting_okI)
    show "distinct (map fst (sy_wait z))" "distinct (sy_sent z)" using D(2,3) by (simp_all add: eqs distinct_fst_remove1)
    fix j g
    show "(j, g) \<in> set (sy_wait z) \<Longrightarrow> j < dr_next_id (sd_drr (sy_s z))" using D(4) by (auto simp: w next_id)
    show "(j, g) \<in> set (sy_sent z) \<Longrightarrow> (j, g) \<in> set (sy_wait z)" using D(5) by (auto simp: w s)
    show "j \<in> ids_of z g \<Longrightarrow> (j, g) \<in> set (sy_wait z)" using D(6)[of j g] by (auto simp: w ids split: if_splits)
    show "j \<in> ids_of z g \<Longrightarrow> (j, g) \<notin> set (sy_sent z)" using D(7)[of j g] by (auto simp: s ids split: if_splits)
    show "(j, g) \<in> set (sy_wait z) \<Longrightarrow> j \<in> ids_of z g \<or> (j, g) \<in> set (sy_sent z) \<or> (\<exists>p. sy_hand z = Some (g, p) \<and> pd_id p = j)"
      using D(11)[of j g] by (auto simp: w s ids eqs(3))
  next
    fix g p assume "sy_hand z = Some (g, p)"
    then have h: "sy_hand y = Some (g, p)" by (simp add: eqs)
    show "pd_id p \<notin> ids_of z g" using D(8)[OF h] by (auto simp: ids)
    show "(pd_id p, g) \<notin> set (sy_sent z)" using D(9)[OF h] by (simp add: s)
    show "pd_id p < dr_next_id (sd_drr (sy_s z))" using D(10)[OF h] by (simp add: next_id)
  qed (fact drr)
qed

lemma waiting_queue:
  assumes ok: "waiting_ok y" and drr: "drr_inv (sd_drr (sy_s z))"
    and i: "i = dr_next_id (sd_drr (sy_s y))" "dr_next_id (sd_drr (sy_s z)) = i + 1"
    and ids: "\<And>g. ids_of z g = (if g = f then insert i (ids_of y f) else ids_of y g)"
    and eqs: "sy_wait z = sy_wait y @ [(i, f)]" "sy_sent z = sy_sent y" "sy_hand z = sy_hand y"
  shows "waiting_ok z"
proof -
  note D = waiting_okD[OF ok]
  have new: "(i, g) \<notin> set (sy_wait y)" "(i, g) \<notin> set (sy_sent y)" for g using D(4,5) i(1) by blast+
  show ?thesis
  proof (rule waiting_okI)
    show "distinct (map fst (sy_wait z))" "distinct (sy_sent z)" using D(2,3) new(1) by (auto simp: eqs)
    fix j g
    show "(j, g) \<in> set (sy_wait z) \<Longrightarrow> j < dr_next_id (sd_drr (sy_s z))" using D(4)[of j g] i by (auto simp: eqs)
    show "(j, g) \<in> set (sy_sent z) \<Longrightarrow> (j, g) \<in> set (sy_wait z)" using D(5) by (auto simp: eqs)
    show "j \<in> ids_of z g \<Longrightarrow> (j, g) \<in> set (sy_wait z)" using D(6)[of j g] by (auto simp: eqs ids split: if_splits)
    show "j \<in> ids_of z g \<Longrightarrow> (j, g) \<notin> set (sy_sent z)" using D(7)[of j g] new by (auto simp: eqs ids split: if_splits)
    show "(j, g) \<in> set (sy_wait z) \<Longrightarrow> j \<in> ids_of z g \<or> (j, g) \<in> set (sy_sent z) \<or> (\<exists>p. sy_hand z = Some (g, p) \<and> pd_id p = j)"
      using D(11)[of j g] by (auto simp: ids eqs)
  next
    fix g p assume "sy_hand z = Some (g, p)"
    then have h: "sy_hand y = Some (g, p)" by (simp add: eqs)
    show "pd_id p \<notin> ids_of z g" using D(8,10)[OF h] i by (auto simp: ids)
    show "(pd_id p, g) \<notin> set (sy_sent z)" using D(9)[OF h] by (simp add: eqs)
    show "pd_id p < dr_next_id (sd_drr (sy_s z))" using D(10)[OF h] i by simp
  qed (fact drr)
qed

text \<open>The hand-over: the request leaves its queue into the loop's hand, and from there into its channel.\<close>

lemma waiting_grant:
  assumes ok: "waiting_ok y" and none: "sy_hand y = None" and g: "grants 0 f p ((sy_s y)\<lparr>sd_usage := rd\<rparr>) s'" and inv: "drr_inv (sd_drr s')"
  shows "waiting_ok (y\<lparr>sy_s := s', sy_hand := Some (f, p)\<rparr>)"
proof -
  note D = waiting_okD[OF ok]
  obtain ps where q: "queue_of (sd_drr (sy_s y)) f = p # ps"
    and q': "queue_of (sd_drr s') h = (if h = f then ps else queue_of (sd_drr (sy_s y)) h)" for h
    using g by (auto simp: grants_def)
  have nx: "dr_next_id (sd_drr s') = dr_next_id (sd_drr (sy_s y))" using g by (simp add: grants_def)
  have p: "pd_id p \<in> ids_of y f" by (simp add: ids_of_def q)
  have sorted: "sorted_wrt (<) (map pd_id (p # ps))" using drr_invD(5)[OF D(1), of f] q by simp
  let ?z = "y\<lparr>sy_s := s', sy_hand := Some (f, p)\<rparr>"
  have ids: "ids_of ?z h = (if h = f then ids_of y f - {pd_id p} else ids_of y h)" for h
    using sorted by (auto simp: ids_of_def q q')
  show ?thesis
  proof (rule waiting_okI)
    fix i h
    show "(i, h) \<in> set (sy_wait ?z) \<Longrightarrow> i < dr_next_id (sd_drr (sy_s ?z))" using D(4) by (simp add: nx)
    show "(i, h) \<in> set (sy_sent ?z) \<Longrightarrow> (i, h) \<in> set (sy_wait ?z)" using D(5) by simp
    show "i \<in> ids_of ?z h \<Longrightarrow> (i, h) \<in> set (sy_wait ?z)" using D(6)[of i h] by (auto simp: ids split: if_splits)
    show "i \<in> ids_of ?z h \<Longrightarrow> (i, h) \<notin> set (sy_sent ?z)" using D(7)[of i h] by (auto simp: ids split: if_splits)
    show "(i, h) \<in> set (sy_wait ?z) \<Longrightarrow> i \<in> ids_of ?z h \<or> (i, h) \<in> set (sy_sent ?z) \<or> (\<exists>p. sy_hand ?z = Some (h, p) \<and> pd_id p = i)"
      using D(11)[of i h] none by (auto simp: ids)
  next
    fix h r assume "sy_hand ?z = Some (h, r)"
    then have hr: "h = f" "r = p" by simp_all
    show "pd_id r \<notin> ids_of ?z h" by (simp add: hr ids)
    show "(pd_id r, h) \<notin> set (sy_sent ?z)" using D(7)[OF p] by (simp add: hr)
    show "pd_id r < dr_next_id (sd_drr (sy_s ?z))" using D(4)[OF D(6)[OF p]] by (simp add: hr nx)
  qed (use D(2,3) inv in simp_all)
qed

lemma waiting_send:
  assumes ok: "waiting_ok y" and h: "sy_hand y = Some (f, p)"
    and drr: "sd_drr (sy_s z) = sd_drr (sy_s y)" and eqs: "sy_wait z = sy_wait y" "sy_hand z = None"
    and sent: "if (pd_id p, f) \<in> set (sy_wait y) then sy_sent z = sy_sent y @ [(pd_id p, f)] else sy_sent z = sy_sent y"
  shows "waiting_ok z"
proof -
  note D = waiting_okD[OF ok]
  note H = D(8-10)[OF h]
  have ids: "ids_of z = ids_of y" by (simp add: fun_eq_iff ids_of_def drr)
  have s: "set (sy_sent z) = set (sy_sent y) \<union> ({(pd_id p, f)} \<inter> set (sy_wait y))" using sent by (auto split: if_splits)
  show ?thesis
  proof (rule waiting_okI)
    show "distinct (sy_sent z)" using D(3) H(2) sent by (auto split: if_splits)
    fix i g
    show "(i, g) \<in> set (sy_wait z) \<Longrightarrow> i \<in> ids_of z g \<or> (i, g) \<in> set (sy_sent z) \<or> (\<exists>p. sy_hand z = Some (g, p) \<and> pd_id p = i)"
      using D(11)[of i g] h by (auto simp: ids eqs s)
    show "(i, g) \<in> set (sy_sent z) \<Longrightarrow> (i, g) \<in> set (sy_wait z)" using D(5)[of i g] by (auto simp: s eqs)
    show "i \<in> ids_of z g \<Longrightarrow> (i, g) \<notin> set (sy_sent z)" using D(7)[of i g] H(1) by (auto simp: ids s)
  qed (use D in \<open>simp_all add: eqs drr ids\<close>)
qed

lemma waiting_step:
  assumes "drr_step cfg y z" and ok: "waiting_ok y" and dok: "depths_ok y"
  shows "waiting_ok z"
proof -
  note inv = waiting_inv[OF ok]
  note reg = guards_registered[OF dok]
  note sent = waiting_okD(5,7)[OF ok]
  from assms(1) inv show ?thesis
  proof (cases rule: drr_step_cases)
    case (calm s')
    then show ?thesis by (intro waiting_frame[OF ok]) (simp_all add: calm_def)
  next
    case (enter u f s')
    then show ?thesis using enter_effect(4)[OF enter(2)] inv by (intro waiting_frame[OF ok]) simp_all
  next
    case (queue f work t i s')
    note e = enqueue_effect[OF queue(3) reg(1)[OF queue(2)] inv]
    show ?thesis by (rule waiting_queue[OF ok _ e(1)]) (auto simp: queue(1) e ids_of_def)
  next
    case (grant f p s' rd)
    then show ?thesis by (auto intro: waiting_grant[OF ok])
  next
    case (send f p u)
    then show ?thesis by (intro waiting_send[OF ok send(2)]) simp_all
  next
    case (send_fails f p u)
    then show ?thesis using ok by (auto simp: waiting_ok_def release_permit_def ids_of_def)
  next
    case (receive i f w)
    note e = admitted_effect(4)[OF reg(2)[OF sent(1)[OF receive(2)]]]
    show ?thesis by (rule waiting_leave[OF ok, of z f i]) (use inv sent(2) receive(2) in \<open>auto simp: receive(1) e ids_of_def\<close>)
  next
    case (cancel_gate f)
    note e = guard_drop_drr[OF reg(1)[OF cancel_gate(2)] inv, of None]
    show ?thesis by (rule waiting_frame[OF ok]) (simp_all add: cancel_gate(1) e fun_eq_iff)
  next
    case (cancel_queued i f)
    note e = guard_drop_drr[OF reg(2)[OF cancel_queued(2)] inv, of "Some i"]
    show ?thesis by (rule waiting_leave[OF ok, of z f i]) (use cancel_queued(3) in \<open>auto simp: cancel_queued(1) e ids_of_def remove1_idem\<close>)
  next
    case (cancel_sent i f)
    note e = cancel_sent_effect[OF reg(2)[OF sent(1)[OF cancel_sent(2)]] inv, of "Some i"]
    show ?thesis by (rule waiting_leave[OF ok, of z f i]) (auto simp: cancel_sent(1) e ids_of_def)
  qed (use inv in \<open>auto intro: waiting_frame[OF ok] simp: ticket_drop_effect\<close>)
qed

section \<open>Depths and activity\<close>

lemma mset_map_remove1: "x \<in> set xs \<Longrightarrow> mset (map g xs) = add_mset (g x) (mset (map g (remove1 x xs)))"
  by (induction xs) auto

lemma reap_remove_counts:
  assumes "reg_inv r" and "still_idle fs r"
  shows "depth_of (snd (reap_remove fs r)) = depth_of r" "active_of (snd (reap_remove fs r)) = active_of r"
    "reg_inv (snd (reap_remove fs r))"
    "registered r f \<Longrightarrow> depth_of r f \<noteq> 0 \<or> active_of r f \<noteq> 0 \<Longrightarrow> registered (snd (reap_remove fs r)) f"
proof -
  note look = reap_remove_effect(2)[OF assms(1), of fs]
  have gone: "g \<in> set fs \<Longrightarrow> depth_of r g = 0 \<and> active_of r g = 0" for g using assms(2) by (simp add: still_idle_def)
  then show "depth_of (snd (reap_remove fs r)) = depth_of r" "active_of (snd (reap_remove fs r)) = active_of r"
    by (auto simp: fun_eq_iff depth_of_def active_of_def reg_view_def reg_flow_def look flow_new_def split: option.split)
  show "reg_inv (snd (reap_remove fs r))" by (rule reap_remove_effect(1)[OF assms(1)])
  show "registered r f \<Longrightarrow> depth_of r f \<noteq> 0 \<or> active_of r f \<noteq> 0 \<Longrightarrow> registered (snd (reap_remove fs r)) f"
    using gone by (auto simp: registered_def look)
qed

lemma candidates_idle: "reg_inv r \<Longrightarrow> still_idle (reap_candidates u ttl r) r"
  by (auto simp: still_idle_def in_candidates depth_of_def active_of_def reg_view_def reg_flow_def reapable_def)

lemma reap_effect:
  assumes "reg_inv r"
  shows "depth_of (snd (reap_idle u ttl r)) = depth_of r" "active_of (snd (reap_idle u ttl r)) = active_of r"
    "registered r f \<Longrightarrow> depth_of r f \<noteq> 0 \<or> active_of r f \<noteq> 0 \<Longrightarrow> registered (snd (reap_idle u ttl r)) f"
  unfolding reap_idle_def by (rule reap_remove_counts[OF assms candidates_idle[OF assms]]; assumption)+

lemma depths_okD:
  assumes "depths_ok y"
  shows "reg_inv (sd_reg (sy_s y))" "length (guards y) < 2 ^ 32"
    "depth_of (sd_reg (sy_s y)) f = of_nat (count_list (guards y) f)"
    "f \<in> set (guards y) \<Longrightarrow> registered (sd_reg (sy_s y)) f"
    "count_list (sd_queue (sy_s y)) f = count_list (guards y) f"
  using assms by (simp_all add: depths_ok_def)

lemma depths_frame:
  assumes "depths_ok y" and "depth_of (sd_reg (sy_s z)) = depth_of (sd_reg (sy_s y))"
    and "sd_queue (sy_s z) = sd_queue (sy_s y)" and m: "mset (guards z) = mset (guards y)"
    and "reg_ext (sd_reg (sy_s y)) (sd_reg (sy_s z))"
  shows "depths_ok z"
proof -
  have "count_list (guards z) g = count_list (guards y) g" for g using m by (rule mset_eq_length_filter)
  then show ?thesis
    using assms mset_eq_length[OF m] mset_eq_setD[OF m] by (simp add: depths_ok_def reg_ext_def)
qed

lemma depths_enter:
  assumes "depths_ok y" and "\<And>g. depth_of (sd_reg (sy_s z)) g = (if g = f then depth_of (sd_reg (sy_s y)) f + 1 else depth_of (sd_reg (sy_s y)) g)"
    and "sd_queue (sy_s z) = sd_queue (sy_s y) @ [f]" and m: "mset (guards z) = add_mset f (mset (guards y))"
    and "reg_ext (sd_reg (sy_s y)) (sd_reg (sy_s z))" and "registered (sd_reg (sy_s z)) f"
    and "length (guards y) + 1 < 2 ^ 32"
  shows "depths_ok z"
proof -
  have c: "count_list (guards z) g = count_list (guards y) g + (if g = f then 1 else 0)" for g
    using arg_cong[OF m, of "\<lambda>M. count M g"] by (simp add: count_mset)
  have "set (guards z) = insert f (set (guards y))" using arg_cong[OF m, of set_mset] by simp
  moreover have "length (guards z) = length (guards y) + 1" using arg_cong[OF m, of size] by simp
  ultimately show ?thesis using assms by (simp add: depths_ok_def reg_ext_def c)
qed

lemma depths_leave:
  assumes ok: "depths_ok y" and d: "\<And>g. depth_of (sd_reg (sy_s z)) g = (if g = f then depth_of (sd_reg (sy_s y)) f - 1 else depth_of (sd_reg (sy_s y)) g)"
    and "sd_queue (sy_s z) = remove1 f (sd_queue (sy_s y))" and m: "mset (guards y) = add_mset f (mset (guards z))"
    and "reg_ext (sd_reg (sy_s y)) (sd_reg (sy_s z))"
  shows "depths_ok z"
proof -
  have c: "count_list (guards y) g = count_list (guards z) g + (if g = f then 1 else 0)" for g
    using arg_cong[OF m, of "\<lambda>M. count M g"] by (simp add: count_mset)
  have "set (guards z) \<subseteq> set (guards y)" using arg_cong[OF m, of set_mset] by auto
  moreover have "length (guards z) < length (guards y)" using arg_cong[OF m, of size] by simp
  moreover have "depth_of (sd_reg (sy_s z)) g = of_nat (count_list (guards z) g)" for g
    using depths_okD(3)[OF ok] by (simp add: d c)
  ultimately show ?thesis using assms by (auto simp: depths_ok_def reg_ext_def c)
qed

lemma of_nat_count_nonzero:
  assumes "f \<in> set xs" and "length xs < 2 ^ 32"
  shows "(of_nat (count_list xs f) :: u32) \<noteq> 0"
proof -
  have "0 < count_list xs f" using assms(1) count_list_0_iff[of xs f] by simp
  moreover have "count_list xs f < 2 ^ 32" using count_le_length[of xs f] assms(2) by linarith
  ultimately show ?thesis by (simp add: word_of_nat_eq_0_iff nat_dvd_not_less)
qed

lemma grants_counts:
  assumes "grants 0 f p s s'"
  shows "depth_of (sd_reg s') = depth_of (sd_reg s)" "active_of (sd_reg s') = active_of (sd_reg s)"
  using assms by (simp_all add: grants_def depth_of_def active_of_def fun_eq_iff)

lemma depths_step:
  assumes "drr_step cfg y z" and dok: "depths_ok y" and ok: "waiting_ok y"
  shows "depths_ok z"
proof -
  note inv = waiting_inv[OF ok]
  note reg = guards_registered[OF dok]
  note frame = depths_frame[OF dok] and leave = depths_leave[OF dok, of z]
  have sent: "(i, f) \<in> set (sy_sent y) \<Longrightarrow> (i, f) \<in> set (sy_wait y)" for i f by (rule waiting_okD(5)[OF ok])
  from assms(1) inv show ?thesis
  proof (cases rule: drr_step_cases)
    case (calm s')
    then show ?thesis by (intro frame) (simp_all add: calm_def guards_def)
  next
    case (enter u f s')
    then show ?thesis using enter_effect[OF enter(2)] by (intro depths_enter[OF dok]) (simp_all add: guards_def)
  next
    case (queue f work t i s')
    then show ?thesis using enqueue_effect[OF queue(3) reg(1)[OF queue(2)] inv] by (intro frame) (simp_all add: guards_def)
  next
    case (grant f p s' rd)
    then show ?thesis by (intro frame) (simp_all add: guards_def grants_counts, simp add: grants_def)
  next
    case (receive i f w)
    note w = sent[OF receive(2)]
    show ?thesis using admitted_effect[OF reg(2)[OF w]] mset_map_remove1[OF w, of snd]
      by (intro leave[of f]) (simp_all add: receive(1) guards_def)
  next
    case (cancel_gate f)
    then show ?thesis using guard_drop_effect[OF reg(1)[OF cancel_gate(2)] inv, of None]
      by (intro leave[of f]) (simp_all add: guards_def)
  next
    case (cancel_queued i f)
    then show ?thesis using guard_drop_effect[OF reg(2)[OF cancel_queued(2)] inv, of "Some i"] mset_map_remove1[OF cancel_queued(2), of snd]
      by (intro leave[of f]) (simp_all add: guards_def)
  next
    case (cancel_sent i f)
    note w = sent[OF cancel_sent(2)]
    show ?thesis using cancel_sent_effect[OF reg(2)[OF w] inv, of "Some i"] mset_map_remove1[OF w, of snd]
      by (intro leave[of f]) (simp_all add: cancel_sent(1) guards_def)
  next
    case (reap fs)
    note e = reap_remove_counts[OF depths_okD(1)[OF dok] reap(2)]
    have "depth_of (sd_reg (sy_s y)) f \<noteq> 0" if "f \<in> set (guards y)" for f
      using of_nat_count_nonzero[OF that depths_okD(2)[OF dok]] depths_okD(3)[OF dok] by simp
    then show ?thesis using e dok by (simp add: depths_ok_def guards_def reap(1))
  qed (auto intro!: frame simp: guards_def release_permit_def ticket_drop_effect)
qed

lemma active_okD:
  assumes "active_ok y" and "sy_lost y = []"
  shows "m_active_flows (sd_met (sy_s y)) = int (length (sy_held y))"
    "active_of (sd_reg (sy_s y)) f = of_nat (count_list (sy_held y) f)"
    "f \<in> set (sy_held y) \<Longrightarrow> registered (sd_reg (sy_s y)) f"
  using assms by (simp_all add: active_ok_def)

lemma active_frame:
  assumes "active_ok y" and "active_of (sd_reg (sy_s z)) = active_of (sd_reg (sy_s y))"
    and "m_active_flows (sd_met (sy_s z)) = m_active_flows (sd_met (sy_s y))"
    and "sy_held z = sy_held y" and "sy_lost z = sy_lost y" and "reg_ext (sd_reg (sy_s y)) (sd_reg (sy_s z))"
  shows "active_ok z"
  using assms by (auto simp: active_ok_def reg_ext_def)

lemma unat_u32_less: "unat (w::u32) < 2 ^ 32"
  by transfer (simp add: take_bit_eq_mod)

lemma held_bound:
  assumes "permits_ok cfg y"
  shows "length (sy_held y) < 2 ^ 32"
proof -
  have "length (sy_held y) \<le> unat (dr_max (sd_drr (sy_s y)))" using assms by (simp add: permits_ok_def)
  then show ?thesis using unat_u32_less[of "dr_max (sd_drr (sy_s y))"] by linarith
qed

lemma active_receive:
  assumes "active_ok y" and "registered (sd_reg (sy_s y)) f" and "sy_s z = admitted f w (sy_s y)"
    and "sy_held z = sy_held y @ [f]" and "sy_lost z = sy_lost y"
  shows "active_ok z"
proof -
  note e = admitted_effect[OF assms(2)]
  have "registered (sd_reg (admitted f w (sy_s y))) g" if "registered (sd_reg (sy_s y)) g" for g
    using e(6)[of w] that by (simp add: reg_ext_def)
  then show ?thesis using active_okD[OF assms(1)] assms(2-5) by (auto simp: active_ok_def e)
qed

lemma active_finish:
  assumes "active_ok y" and "f \<in> set (sy_held y)" and "sy_s z = ticket_drop f (sy_s y)"
    and "sy_held z = remove1 f (sy_held y)" and "sy_lost z = sy_lost y"
  shows "active_ok z"
proof (cases "sy_lost y = []")
  case True
  note D = active_okD[OF assms(1) True]
  note e = ticket_drop_effect(2)[OF D(3)[OF assms(2)]] ticket_drop_effect(9,11)
  have len: "length (sy_held y) = length (remove1 f (sy_held y)) + 1" using length_remove1_less[OF assms(2)] by simp
  have "0 < count_list (sy_held y) f" using assms(2) count_list_0_iff[of "sy_held y" f] by simp
  then have "(of_nat (count_list (sy_held y) f) :: u32) - 1 = of_nat (count_list (sy_held y) f - 1)"
    by (simp add: of_nat_diff)
  then show ?thesis using D len set_remove1_subset[of f "sy_held y"] assms(3-5) by (auto simp: active_ok_def e)
qed (use assms(5) in \<open>simp add: active_ok_def\<close>)

lemma active_step:
  assumes "drr_step cfg y z" and aok: "active_ok y" and dok: "depths_ok y" and ok: "waiting_ok y" and pok: "permits_ok cfg y"
  shows "active_ok z"
proof -
  note inv = waiting_inv[OF ok]
  note reg = guards_registered[OF dok]
  note frame = active_frame[OF aok]
  from assms(1) inv show ?thesis
  proof (cases rule: drr_step_cases)
    case (calm s')
    then show ?thesis by (intro frame) (simp_all add: calm_def)
  next
    case (enter u f s')
    then show ?thesis using enter_effect[OF enter(2)] by (intro frame) simp_all
  next
    case (queue f work t i s')
    then show ?thesis using enqueue_effect[OF queue(3) reg(1)[OF queue(2)] inv] by (intro frame) simp_all
  next
    case (grant f p s' rd)
    then show ?thesis by (intro frame) (simp_all add: grants_counts, simp add: grants_def)
  next
    case (receive i f w)
    then show ?thesis using active_receive[OF aok reg(2)[OF waiting_okD(5)[OF ok receive(2)]]] by simp
  next
    case (cancel_gate f)
    then show ?thesis using guard_drop_effect[OF reg(1)[OF cancel_gate(2)] inv, of None] by (intro frame) simp_all
  next
    case (cancel_queued i f)
    then show ?thesis using guard_drop_effect[OF reg(2)[OF cancel_queued(2)] inv, of "Some i"] by (intro frame) simp_all
  next
    case (finish f)
    then show ?thesis using active_finish[OF aok finish(2)] by simp
  next
    case (reap fs)
    note e = reap_remove_counts[OF depths_okD(1)[OF dok] reap(2)]
    have "active_of (sd_reg (sy_s y)) f \<noteq> 0" if "f \<in> set (sy_held y)" "sy_lost y = []" for f
      using of_nat_count_nonzero[OF that(1) held_bound[OF pok]] active_okD(2)[OF aok that(2)] by simp
    then show ?thesis using e aok by (auto simp: active_ok_def reap(1))
  next
    case (cancel_sent i f)
    then show ?thesis by (simp add: active_ok_def)
  qed (auto intro!: frame simp: release_permit_def)
qed

end
