(* ===== verification/DrrSafety.thy ===== *)
theory DrrSafety
  imports DrrStep
begin

text \<open>
  What holds in every reachable state of the DRR scheduler (theory DrrStep): permits are
  conserved, no waiting request is lost, the reported queue depth is exact, the activity
  counters are exact while no delivered ticket is dropped, and what goes wrong when one is; a grant
  that its request does not live to see stays charged.
\<close>

section \<open>The invariant\<close>

definition sys_inv :: "drr_cfg \<Rightarrow> sys \<Rightarrow> bool" where
  "sys_inv cfg y \<longleftrightarrow> permits_ok cfg y \<and> waiting_ok y \<and> depths_ok y \<and> active_ok y"

lemma sys_inv_new:
  assumes "unat n = dc_max_active_flows cfg"
  shows "sys_inv cfg (sys_new n w pr)"
proof -
  have "reg_view 0 (registry_new w pr) f = (flow_new f w pr 0)\<lparr>fl_last_seen := 0\<rparr>" for f
    by (simp add: reg_view_def reg_flow_def)
  then have "depth_of (registry_new w pr) f = 0" "active_of (registry_new w pr) f = 0" for f
    by (simp_all add: depth_of_def active_of_def flow_new_def)
  then show ?thesis using assms drr_inv_new[of n] reg_inv_new[of w pr]
    by (simp add: sys_inv_def permits_ok_def waiting_ok_def depths_ok_def active_ok_def sys_new_def in_hand_def
        guards_def ids_of_def metrics_new_def) (simp add: drr_new_def queue_of_def)
qed

lemma reachable_inv: "reachable cfg y \<Longrightarrow> sys_inv cfg y"
proof (induction rule: reachable.induct)
  case (start n w pr)
  then show ?case by (rule sys_inv_new)
next
  case (step y z)
  then show ?case using permits_step waiting_step depths_step active_step unfolding sys_inv_def by blast
qed

lemma reachableD:
  assumes "reachable cfg y"
  shows "permits_ok cfg y" "waiting_ok y" "depths_ok y" "active_ok y"
  using reachable_inv[OF assms] by (simp_all add: sys_inv_def)

section \<open>A run\<close>

text \<open>One request of flow a enters, queues, is selected and gets its ticket.\<close>

definition run0 :: sys where "run0 = sys_new 2 (Fin 1) 50"
definition run1 :: sys where
  "run1 = run0\<lparr>sy_s := snd (admit_enter ex_cfg 0 ''a'' (sy_s run0)), sy_gate := [''a'']\<rparr>"
definition run2 :: sys where
  "run2 = run1\<lparr>sy_s := snd (enqueue ''a'' (Fin 1) 0 (sy_s run1)), sy_gate := [], sy_wait := [(0, ''a'')]\<rparr>"

definition ex_flow :: flow where
  "ex_flow = (flow_new ''a'' (Fin 1) 50 0)\<lparr>fl_depth := 1, fl_enqueued_at := Some 0\<rparr>"

lemma run2_s:
  "sd_drr (sy_s run2) = \<lparr> dr_waiting = [(''a'', [\<lparr> pd_id = 0, pd_enq = 0, pd_work = Fin 1 \<rparr>])], dr_cursor = [''a''],
     dr_available = 2, dr_max = 2, dr_next_id = 1, dr_deficit = [] \<rparr>"
  "sd_reg (sy_s run2) = (registry_new (Fin 1) 50)\<lparr>rg_flows := [(''a'', ex_flow)]\<rparr>"
  "sd_usage (sy_s run2) = None" "m_active_flows (sd_met (sy_s run2)) = 0"
  by (simp_all add: run2_def run1_def run0_def sys_new_def admit_enter_def enqueue_def guard_new_def get_or_create_def
      registry_new_def Let_def drr_new_def ex_cfg_def queue_of_def reg_update_def hput_def flow_new_def ex_flow_def
      metrics_new_def set_queue_depth_def)

lemma run2_sys: "sy_gate run2 = []" "sy_wait run2 = [(0, ''a'')]" "sy_hand run2 = None" "sy_sent run2 = []"
  "sy_held run2 = []" "sy_lost run2 = []"
  by (simp_all add: run2_def run1_def run0_def sys_new_def)

lemma run2_reachable: "reachable ex_cfg run2"
proof -
  have "reachable ex_cfg run0" unfolding run0_def by (rule reachable.start) (simp add: ex_cfg_def)
  moreover have "admit_enter ex_cfg 0 ''a'' (sy_s run0) = (None, sy_s run1)"
    by (simp add: run1_def admit_enter_def ex_cfg_def Let_def)
  from drr_step.enter[of ex_cfg 0 "''a''" run0, OF this] have "drr_step ex_cfg run0 run1"
    by (simp add: run1_def run0_def sys_new_def)
  ultimately have r1: "reachable ex_cfg run1" by (rule reachable.step)
  have "''a'' \<in> set (sy_gate run1)" by (simp add: run1_def)
  moreover have "enqueue ''a'' (Fin 1) 0 (sy_s run1) = (0, sy_s run2)"
    by (simp add: run2_def run1_def run0_def sys_new_def enqueue_def Let_def drr_new_def admit_enter_def ex_cfg_def guard_new_def)
  ultimately have "drr_step ex_cfg run1 (run1\<lparr>sy_s := sy_s run2, sy_gate := remove1 ''a'' (sy_gate run1),
      sy_wait := sy_wait run1 @ [(0, ''a'')]\<rparr>)" by (rule drr_step.queue)
  then have "drr_step ex_cfg run1 run2" by (simp add: run2_def) (simp add: run1_def run0_def sys_new_def)
  with r1 show ?thesis by (rule reachable.step)
qed

lemma run2_queue: "queue_of (sd_drr (sy_s run2)) f = (if f = ''a'' then [\<lparr> pd_id = 0, pd_enq = 0, pd_work = Fin 1 \<rparr>] else [])"
  by (simp add: run2_s queue_of_def)

lemma run2_view: "reg_view 0 (sd_reg (sy_s run2)) ''a'' = ex_flow"
  by (simp add: run2_s reg_view_def reg_flow_def reg_lookup_def ex_flow_def flow_new_def)

lemma run2_weight: "weight_i64 (reg_view 0 (sd_reg (sy_s run2)) ''a'') = 1"
  by (simp add: run2_view ex_flow_def flow_new_def weight_i64_def trunc_def sat_i64_def i64_min_def i64_max_def)

lemma run2_eligible: "eligible_in 0 (sy_s run2) g \<longleftrightarrow> g = ''a''"
proof -
  have "deficit_of (sd_drr (sy_s run2)) ''a'' = 0" by (simp add: deficit_of_def run2_s)
  then have "next_deficit 0 (sy_s run2) ''a'' = 1"
    by (simp add: next_deficit_def run2_weight wrap_i64_def)
  moreover have "as_i64 (Fin 1) = 1" by (simp add: trunc_def sat_i64_def i64_min_def i64_max_def)
  ultimately show ?thesis by (auto simp: eligible_in_def accrues_def run2_queue run2_weight)
qed

lemma run2_rd: "(sy_s run2)\<lparr>sd_usage := None\<rparr> = sy_s run2"
  by (simp add: run2_s)

lemma run2_grant:
  "\<exists>s'. admission_round ex_cfg 0 0 None 2 (sy_s run2) = Some (Grant ''a'' \<lparr> pd_id = 0, pd_enq = 0, pd_work = Fin 1 \<rparr>, 2, s')
     \<and> grants 0 ''a'' \<lparr> pd_id = 0, pd_enq = 0, pd_work = Fin 1 \<rparr> (sy_s run2) s'"
proof -
  have "first_starved ex_cfg 0 0 (sy_s run2) = None"
    by (simp add: first_starved_def starved_in_def run2_s(1) ex_cfg_def queue_of_def run2_view is_starved_def
        ex_flow_def flow_new_def duration_since_def)
  moreover have "in_use (sd_drr (sy_s run2)) < 2" by (simp add: in_use_def run2_s)
  ultimately obtain f p s' where s': "try_select ex_cfg 0 0 2 (sy_s run2) = Some (Some (f, p, pd_work p), True, s')"
      "eligible_in 0 (sy_s run2) f" "grants 0 f p (sy_s run2) s'"
    using try_select_eligible_core[of "sy_s run2" 2 ex_cfg 0 0 "''a''"] waiting_inv[OF reachableD(2)[OF run2_reachable]]
      run2_eligible by blast
  have f: "f = ''a''" using s'(2) run2_eligible by simp
  have p: "p = \<lparr> pd_id = 0, pd_enq = 0, pd_work = Fin 1 \<rparr>" using s'(3) f by (auto simp: grants_def run2_queue)
  have "live_cap ex_cfg (sy_s run2) = 2" by (simp add: live_cap_def ex_cfg_def effective_max_def kv_pressure_default_def)
  then have "admission_round ex_cfg 0 0 None 2 (sy_s run2) = Some (Grant f p, 2, s')"
    using s'(1) by (simp add: admission_round_def run2_rd run2_s in_use_def)
  then show ?thesis using f p s'(3) by blast
qed

text \<open>A reachable state with a ticket in the channel and no other request.\<close>

lemma sent_reachable:
  "\<exists>y. reachable ex_cfg y \<and> sy_sent y = [(0, ''a'')] \<and> sy_wait y = [(0, ''a'')] \<and> sy_gate y = [] \<and> sy_held y = []
     \<and> sy_lost y = [] \<and> sy_hand y = None"
proof -
  let ?p = "\<lparr> pd_id = 0, pd_enq = 0, pd_work = Fin 1 \<rparr>"
  obtain s' where s': "admission_round ex_cfg 0 0 None 2 (sy_s run2) = Some (Grant ''a'' ?p, 2, s')" using run2_grant by blast
  let ?y = "run2\<lparr>sy_s := s', sy_hand := Some (''a'', ?p)\<rparr>"
  have "drr_step ex_cfg run2 ?y" by (rule drr_step.grant[OF run2_sys(3) s'])
  with run2_reachable have y: "reachable ex_cfg ?y" by (rule reachable.step)
  have "drr_step ex_cfg ?y (?y\<lparr>sy_s := (sy_s ?y)\<lparr>sd_reg := snd (get_or_create 0 ''a'' (sd_reg (sy_s ?y)))\<rparr>,
      sy_hand := None, sy_sent := sy_sent ?y @ [(pd_id ?p, ''a'')]\<rparr>)"
    by (rule drr_step.send[where p = ?p]) (simp_all add: run2_sys)
  from reachable.step[OF y this] show ?thesis by (intro exI conjI) (auto simp: run2_sys)
qed

section \<open>The properties\<close>

lemma distinct_key_once: "distinct (map k xs) \<Longrightarrow> i \<in> k ` set xs \<Longrightarrow> length (filter (\<lambda>x. k x = i) xs) = 1"
proof (induction xs)
  case (Cons x xs)
  then have "\<forall>y\<in>set xs. k y \<noteq> k x" by (metis distinct.simps(2) imageI list.set_map list.simps(9))
  with Cons show ?case by (cases "k x = i") (auto simp: filter_empty_conv)
qed simp

lemma unat_minus_one_u32: "unat (- 1 :: u32) = 2 ^ 32 - 1"
  by (simp add: unsigned_minus_1_eq_mask mask_eq_exp_minus_1)

lemma sum_list_keys: "distinct (map fst xs) \<Longrightarrow> sum_list (map (\<lambda>(k, v). g k) xs) = sum g (set (map fst xs))"
  by (induction xs) auto

lemma sum_depths_exact:
  assumes "depths_ok y"
  shows "sum_depths (sd_reg (sy_s y)) = of_nat (length (guards y))"
proof -
  note D = depths_okD[OF assms]
  let ?r = "sd_reg (sy_s y)" and ?K = "set (map fst (rg_flows (sd_reg (sy_s y))))"
  have wf: "distinct (map fst (rg_flows ?r))" using D(1) by (simp add: reg_inv_def hwf_def hkeys_def)
  have d: "fl_depth fl = of_nat (count_list (guards y) i)" if "(i, fl) \<in> set (rg_flows ?r)" for i fl
    using map_of_is_SomeI[OF wf that] D(3)[of i]
    by (simp add: depth_of_def reg_view_def reg_flow_def reg_lookup_def)
  then have "sum_depths ?r = sum_list (map (\<lambda>(i, fl). of_nat (count_list (guards y) i)) (rg_flows ?r))"
    unfolding sum_depths_def by (intro arg_cong[of _ _ sum_list] map_cong) auto
  also have "\<dots> = (\<Sum>i\<in>?K. of_nat (count_list (guards y) i))" by (rule sum_list_keys[OF wf])
  also have "\<dots> = of_nat (\<Sum>i\<in>?K. count_list (guards y) i)" by simp
  also have "(\<Sum>i\<in>?K. count_list (guards y) i) = length (guards y)"
  proof (rule sum_count_set)
    show "set (guards y) \<subseteq> ?K"
      using D(4) by (auto simp: registered_def reg_lookup_def map_of_eq_None_iff)
  qed simp
  finally show ?thesis .
qed

lemma sum_depths_unat:
  assumes "depths_ok y"
  shows "unat (sum_depths (sd_reg (sy_s y))) = length (sy_gate y) + length (sy_wait y)"
proof -
  have "unat (of_nat (length (guards y)) :: u32) = length (guards y)"
    using depths_okD(2)[OF assms] by (simp add: unat_of_nat)
  then show ?thesis unfolding sum_depths_exact[OF assms] by (simp add: guards_def)
qed

text \<open>
  C1. Permits are conserved: in every reachable state the free permits, the request in the
  loop's hand, the tickets in channels and the tickets of running requests add up to
  \<open>max_active_flows\<close>, so never more requests run than configured and no permit leaks,
  whichever requests are cancelled at whichever point.
\<close>

theorem permits_conserved:
  assumes "reachable cfg y"
  shows "unat (dr_available (sd_drr (sy_s y))) + in_hand y + length (sy_sent y) + length (sy_held y)
    = dc_max_active_flows cfg"
  using reachableD(1)[OF assms] by (simp add: permits_ok_def)

theorem permits_conserved_witness:
  "\<exists>y. reachable ex_cfg y \<and> sy_sent y = [(0, ''a'')] \<and> unat (dr_available (sd_drr (sy_s y))) = 1"
proof -
  obtain y where y: "reachable ex_cfg y" "sy_sent y = [(0, ''a'')]" "sy_held y = []" "sy_hand y = None"
    using sent_reachable by blast
  from permits_conserved[OF y(1)] y show ?thesis by (auto simp: in_hand_def ex_cfg_def)
qed

text \<open>
  C2. No waiting request is lost: in every reachable state a request that waits on its
  channel is queued exactly once in its flow's queue (and its flow is on the cursor, so
  the loop will visit it), or is the one in the loop's hand, or has its ticket in the
  channel - and in exactly one of these places.
\<close>

theorem waiting_request_somewhere:
  assumes "reachable cfg y" and "(i, f) \<in> set (sy_wait y)"
  shows "(i \<in> ids_of y f \<and> f \<in> set (dr_cursor (sd_drr (sy_s y))) \<and> (i, f) \<notin> set (sy_sent y)
      \<and> length (filter (\<lambda>p. pd_id p = i) (queue_of (sd_drr (sy_s y)) f)) = 1
      \<and> (\<forall>p. sy_hand y = Some (f, p) \<longrightarrow> pd_id p \<noteq> i))
    \<or> (i \<notin> ids_of y f \<and> (i, f) \<in> set (sy_sent y) \<and> (\<forall>p. sy_hand y = Some (f, p) \<longrightarrow> pd_id p \<noteq> i))
    \<or> (i \<notin> ids_of y f \<and> (i, f) \<notin> set (sy_sent y) \<and> (\<exists>p. sy_hand y = Some (f, p) \<and> pd_id p = i))"
proof -
  note D = waiting_okD[OF reachableD(2)[OF assms(1)]]
  let ?q = "queue_of (sd_drr (sy_s y)) f"
  have once: "length (filter (\<lambda>p. pd_id p = i) ?q) = 1" if "i \<in> ids_of y f"
  proof -
    have "distinct (map pd_id ?q)" using drr_invD(5)[OF D(1), of f] by (simp add: strict_sorted_iff)
    then show ?thesis using that by (intro distinct_key_once) (simp_all add: ids_of_def)
  qed
  have "f \<in> set (dr_cursor (sd_drr (sy_s y)))" if "i \<in> ids_of y f"
    using that drr_invD(3)[OF D(1), of f] by (auto simp: ids_of_def)
  then show ?thesis using D(6)[of i f] D(7)[of i f] D(8)[of f] D(9)[of f] D(11)[OF assms(2)] once by blast
qed

theorem waiting_request_somewhere_witness:
  "(0, ''a'') \<in> set (sy_wait run2) \<and> 0 \<in> ids_of run2 ''a'' \<and> ''a'' \<in> set (dr_cursor (sd_drr (sy_s run2)))"
  using waiting_request_somewhere[OF run2_reachable, of 0 "''a''"] by (simp add: run2_sys)

text \<open>
  C6. The reported queue depth is exact in every state of every run that theory DrrStep admits, that is as long as no
  reaper run has removed a flow that a request had come to use after the run collected it, and no admin registration has
  inserted a flow over one created after its lookup (theory Races shows what happens then): \<open>queue_depth()\<close> is the
  number of requests between entering \<open>admit\<close> and leaving it (in the completion gate,
  queued, or with an unread ticket), although the code computes it as a wrapping sum of
  per-flow counters over a registry from which the reaper removes idle flows between any two steps; and the reporting queue
  behind GET /queue holds each flow once per such request.
\<close>

theorem queue_depth_exact:
  assumes "reachable cfg y"
  shows "unat (drr_queue_depth (sy_s y)) = length (sy_gate y) + length (sy_wait y)
    \<and> mset (sd_queue (sy_s y)) = mset (sy_gate y) + mset (map snd (sy_wait y))"
proof
  note D = depths_okD[OF reachableD(3)[OF assms]]
  show "unat (drr_queue_depth (sy_s y)) = length (sy_gate y) + length (sy_wait y)"
    unfolding drr_queue_depth_def by (rule sum_depths_unat[OF reachableD(3)[OF assms]])
  have "mset (sd_queue (sy_s y)) = mset (guards y)" using D(5) by (simp add: multiset_eq_iff count_mset)
  then show "mset (sd_queue (sy_s y)) = mset (sy_gate y) + mset (map snd (sy_wait y))" by (simp add: guards_def)
qed

theorem queue_depth_exact_witness: "unat (drr_queue_depth (sy_s run2)) = 1"
  using queue_depth_exact[OF run2_reachable] by (simp add: run2_sys)

text \<open>
  The fail-fast limit is off by one: in fail-fast mode the check is
  \<open>depth > max_queue_depth\<close> before the request itself is counted, so a request is
  admitted to the queue exactly when at most \<open>max_queue_depth\<close> others wait, and the
  queue can reach \<open>max_queue_depth + 1\<close> requests.
\<close>

theorem fail_fast_admits_limit_plus_one:
  assumes "reachable cfg y" and "dc_mode cfg = FailFast"
  shows "fst (admit_enter cfg u f (sy_s y)) = None \<longleftrightarrow>
      length (sy_gate y) + length (sy_wait y) + 1 \<le> dc_max_queue_depth cfg + 1"
proof -
  let ?r = "snd (get_or_create u f (sd_reg (sy_s y)))"
  let ?z = "y\<lparr>sy_s := (sy_s y)\<lparr>sd_reg := ?r\<rparr>\<rparr>"
  have ok: "depths_ok ?z"
    by (rule depths_frame[OF reachableD(3)[OF assms(1)]]) (simp_all add: guards_def)
  have "unat (sum_depths ?r) = length (sy_gate y) + length (sy_wait y)"
    using sum_depths_unat[OF ok] by simp
  then show ?thesis using assms(2) by (auto simp: admit_enter_def Let_def drr_queue_depth_def)
qed

text \<open>A fail-fast scheduler with limit 0 and one request in its gate.\<close>

definition ff_cfg :: drr_cfg where "ff_cfg = ex_cfg\<lparr>dc_mode := FailFast, dc_max_queue_depth := 0\<rparr>"

theorem fail_fast_admits_limit_plus_one_witness:
  "fst (admit_enter ff_cfg 0 ''a'' (sy_s run0)) = None"
proof -
  have "reachable ff_cfg run0" unfolding run0_def by (rule reachable.start) (simp add: ff_cfg_def ex_cfg_def)
  from fail_fast_admits_limit_plus_one[OF this, of 0 "''a''"] show ?thesis
    by (simp add: ff_cfg_def run0_def sys_new_def)
qed

text \<open>
  C8. The activity counters are exact: as long as no delivered ticket has been dropped
  unread, and in the runs of theory DrrStep (no record of a flow in use has been removed by a reaper run or replaced by an
  admin registration, theory Races), the gauge \<open>llm_active_flows\<close> equals the number of running requests, every
  flow's \<open>active\<close> counter equals the number of its running requests (so \<open>is_active\<close>,
  which lets a flow bypass the completion gate and protects it from the reaper, is right),
  and the flows of running requests stay registered.
\<close>

theorem active_counters_exact:
  assumes "reachable cfg y" and "sy_lost y = []"
  shows "m_active_flows (sd_met (sy_s y)) = int (length (sy_held y))
    \<and> unat (active_of (sd_reg (sy_s y)) f) = count_list (sy_held y) f
    \<and> (f \<in> set (sy_held y) \<longrightarrow> registered (sd_reg (sy_s y)) f)"
proof -
  note D = active_okD[OF reachableD(4)[OF assms(1)] assms(2)]
  have "count_list (sy_held y) f < 2 ^ 32"
    using held_bound[OF reachableD(1)[OF assms(1)]] count_le_length[of "sy_held y" f] by linarith
  then show ?thesis using D by (simp add: unat_of_nat)
qed

theorem active_counters_exact_witness: "m_active_flows (sd_met (sy_s run2)) = 0"
  using active_counters_exact[OF run2_reachable run2_sys(6), of "''a''"] by (simp add: run2_sys)

text \<open>
  C40. A ticket that is delivered but never read breaks the counters for good: if a client
  disconnects (or hybrid mode times out) after the loop has sent the ticket and before the
  request has read it, the ticket's drop handler decrements counters that were never
  incremented.  The permit is returned, but the gauge ends one below the number of running
  requests (negative for an idle system), and a flow with no running request is left with
  an \<open>active\<close> counter of \<open>2^32 - 1\<close>: from then on it bypasses the completion gate and no
  reaper run removes it.
\<close>

theorem cancel_after_send_breaks_counters:
  assumes "reachable cfg y" and "sy_lost y = []" and "(i, f) \<in> set (sy_sent y)" and "f \<notin> set (sy_held y)"
  shows "\<exists>z. drr_step cfg y z \<and> reachable cfg z \<and> sy_held z = sy_held y
    \<and> m_active_flows (sd_met (sy_s z)) = int (length (sy_held z)) - 1
    \<and> unat (active_of (sd_reg (sy_s z)) f) = 2 ^ 32 - 1
    \<and> (\<forall>u ttl. registered (snd (reap_idle u ttl (sd_reg (sy_s z)))) f)"
proof -
  let ?t = "ticket_drop f (sy_s y)"
  let ?z = "y\<lparr>sy_s := guard_drop f (Some i) ?t, sy_wait := remove1 (i, f) (sy_wait y),
       sy_sent := remove1 (i, f) (sy_sent y), sy_lost := sy_lost y @ [f]\<rparr>"
  have step: "drr_step cfg y ?z" by (rule drr_step.cancel_sent[OF assms(3)])
  have z: "reachable cfg ?z" by (rule reachable.step[OF assms(1) step])
  note R = reachableD[OF assms(1)]
  note A = active_okD[OF R(4) assms(2)]
  have reg: "registered (sd_reg (sy_s y)) f" by (rule guards_registered(2)[OF R(3) waiting_okD(5)[OF R(2) assms(3)]])
  then have regt: "registered (sd_reg ?t) f" by (simp add: ticket_drop_effect)
  have invt: "drr_inv (sd_drr ?t)" using waiting_inv[OF R(2)] by (simp add: ticket_drop_effect)
  note G = guard_drop_effect[OF regt invt, of "Some i"]
  have a: "active_of (sd_reg (sy_s ?z)) f = - 1"
    using A(2)[of f] assms(4) by (simp add: G ticket_drop_effect(2)[OF reg])
  have rz: "registered (sd_reg (sy_s ?z)) f" using G(6) regt by (simp add: reg_ext_def)
  have "registered (snd (reap_idle u ttl (sd_reg (sy_s ?z)))) f" for u ttl
    using reap_effect(3)[OF depths_okD(1)[OF reachableD(3)[OF z]] rz] a by simp
  then show ?thesis using step z a A(1)
    by (intro exI[of _ ?z]) (simp add: G ticket_drop_effect unat_minus_one_u32)
qed

theorem cancel_after_send_breaks_counters_witness:
  "\<exists>z. reachable ex_cfg z \<and> sy_held z = [] \<and> m_active_flows (sd_met (sy_s z)) = - 1"
proof -
  obtain y where y: "reachable ex_cfg y" "sy_lost y = []" "sy_sent y = [(0, ''a'')]" "sy_held y = []"
    using sent_reachable by blast
  from cancel_after_send_breaks_counters[OF y(1,2), of 0 "''a''"] y(3,4) show ?thesis by auto
qed

section \<open>Credit\<close>

lemma credit_of_update: "(\<And>fl. fl_credit (h fl) = fl_credit fl) \<Longrightarrow> credit_of (reg_update g h r) f = credit_of r f"
  by (auto simp: credit_of_def reg_update_def reg_lookup_def split: option.split)

lemma credit_of_create: "credit_of (snd (get_or_create u g r)) f = credit_of r f"
  by (simp add: credit_of_view[of _ _ u])

lemma credit_of_guard_drop: "credit_of (sd_reg (guard_drop g pid s)) f = credit_of (sd_reg s) f"
  by (simp add: guard_drop_def leave_queue_def clear_enqueued_def Let_def split_beta credit_of_update)

text \<open>
  A grant that its request does not live to see is never paid back: the flow is charged when the loop selects
  the request, but the accounting that restores the charge begins only after the ticket has been received.
  If the client leaves between the selection and the delivery, the permit, the queue and the running requests are as
  before, and the flow has paid for the estimate of a request that never ran.
\<close>

theorem unread_grant_stays_charged:
  assumes "reachable cfg y" and "sy_hand y = None"
    and "admission_round cfg now u rd lc (sy_s y) = Some (Grant f p, cap, s')" and "(pd_id p, f) \<in> set (sy_wait y)"
  shows "\<exists>z. reachable cfg z \<and> sy_wait z = remove1 (pd_id p, f) (sy_wait y) \<and> sy_hand z = None
    \<and> sy_held z = sy_held y \<and> sy_sent z = sy_sent y \<and> dr_available (sd_drr (sy_s z)) = dr_available (sd_drr (sy_s y))
    \<and> credit_of (sd_reg (sy_s z)) f = wrap_i64 (credit_of (sd_reg (sy_s y)) f - as_i64 (pd_work p))"
proof -
  let ?y1 = "y\<lparr>sy_s := s', sy_hand := Some (f, p)\<rparr>"
  let ?y2 = "?y1\<lparr>sy_s := guard_drop f (Some (pd_id p)) s', sy_wait := remove1 (pd_id p, f) (sy_wait y)\<rparr>"
  let ?s3 = "release_permit ((sy_s ?y2)\<lparr>sd_reg := snd (get_or_create u f (sd_reg (sy_s ?y2)))\<rparr>)"
  have r1: "reachable cfg ?y1" by (rule reachable.step[OF assms(1) drr_step.grant[OF assms(2,3)]])
  note W = reachableD(2)[OF r1]
  have s1: "(pd_id p, f) \<notin> set (sy_sent ?y1)" by (rule waiting_okD(9)[OF W]) simp
  then have "drr_step cfg ?y1 ?y2" using drr_step.cancel_queued[of "pd_id p" f ?y1] assms(4) by simp
  from reachable.step[OF r1 this] have r2: "reachable cfg ?y2" .
  have "distinct (sy_wait y)" using waiting_okD(2)[OF W] by (simp add: distinct_of_fst)
  then have "drr_step cfg ?y2 (?y2\<lparr>sy_s := ?s3, sy_hand := None\<rparr>)" by (intro drr_step.send_fails[of _ f p]) simp_all
  from reachable.step[OF r2 this] have r3: "reachable cfg (?y2\<lparr>sy_s := ?s3, sy_hand := None\<rparr>)" .
  have g: "grants 0 f p ((sy_s y)\<lparr>sd_usage := rd\<rparr>) s'" and inv: "drr_inv (sd_drr s')"
    using admission_round_effect[OF waiting_inv[OF reachableD(2)[OF assms(1)]] assms(3)] by simp_all
  have reg: "registered (sd_reg s') f"
    using guards_registered(2)[OF reachableD(3)[OF r1], of "pd_id p" f] assms(4) by simp
  have "credit_of (sd_reg ?s3) f = wrap_i64 (credit_of (sd_reg (sy_s y)) f - as_i64 (pd_work p))"
    using g by (simp add: release_permit_def credit_of_create credit_of_guard_drop) (simp add: grants_def credit_of_view[of _ _ 0])
  moreover have "dr_available (sd_drr ?s3) = dr_available (sd_drr (sy_s y))"
    using g by (simp add: release_permit_def guard_drop_effect(4)[OF reg inv] remove_pending_effect(2)[OF inv] grants_def)
  ultimately show ?thesis using r3 by (intro exI[of _ "?y2\<lparr>sy_s := ?s3, sy_hand := None\<rparr>"]) simp
qed

theorem unread_grant_stays_charged_witness:
  "\<exists>z. reachable ex_cfg z \<and> sy_wait z = [] \<and> sy_held z = [] \<and> sy_sent z = []
     \<and> credit_of (sd_reg (sy_s z)) ''a'' = wrap_i64 (credit_of (sd_reg (sy_s run2)) ''a'' - 1)"
proof -
  obtain s' where g: "admission_round ex_cfg 0 0 None 2 (sy_s run2) = Some (Grant ''a'' \<lparr> pd_id = 0, pd_enq = 0, pd_work = Fin 1 \<rparr>, 2, s')"
    using run2_grant by blast
  have "as_i64 (Fin 1) = 1" by (simp add: trunc_def sat_i64_def i64_min_def i64_max_def)
  then show ?thesis using unread_grant_stays_charged[OF run2_reachable run2_sys(3) g] by (auto simp: run2_sys)
qed

end
