(* ===== verification/Wakeup.thy ===== *)
theory Wakeup
  imports DrrSafety
begin

text \<open>
  When the admission loop runs (src/scheduler/drr.rs): its outer loop sleeps on a \<open>Notify\<close> and on the
  monitor's channel, and the inner loop runs until a round ends it.  The steps of theory DrrStep are
  extended by what wakes the loop: \<open>notify_one\<close> keeps at most one permit, a changed snapshot is kept until it
  is seen, and a task that has queued a request or returned a permit calls \<open>notify_one\<close> in a step of its own.
  Lemma: no wake-up is lost, so no request is left waiting while a permit is free.
\<close>

section \<open>The loop and what wakes it\<close>

text \<open>
  \<open>wk_owed\<close>: tasks between their change and their \<open>notify_one\<close>; \<open>wk_sender\<close>: the monitor still
  publishes; \<open>wk_listening\<close>: \<open>monitor_alive\<close>.  \<open>wk_fractional\<close> is a history: when the loop last went to sleep,
  requests waited and all of their flows had a weight below 1.
\<close>

record waker =
  wk_running :: bool
  wk_notified :: bool
  wk_owed :: nat
  wk_changed :: bool
  wk_sender :: bool
  wk_listening :: bool
  wk_fractional :: bool

definition waker_new :: waker where
  "waker_new = \<lparr> wk_running = False, wk_notified = False, wk_owed = 0, wk_changed = False, wk_sender = True, wk_listening = True,
     wk_fractional = False \<rparr>"

definition owe :: "waker \<Rightarrow> waker" where
  "owe k = k\<lparr>wk_owed := wk_owed k + 1\<rparr>"

text \<open>Requests wait, but no round lets any of their flows accrue: all of their weights are below 1.\<close>

definition only_fractional :: "sched \<Rightarrow> bool" where
  "only_fractional s \<longleftrightarrow> dr_cursor (sd_drr s) \<noteq> []
     \<and> (\<forall>f \<in> set (dr_cursor (sd_drr s)). weight_i64 (reg_view 0 (sd_reg s) f) \<le> 0)"

text \<open>A round reads the monitor's channel without marking the value as seen; if it finds a new one, there is an unseen change.\<close>

definition overheard :: "sched \<Rightarrow> sched \<Rightarrow> waker \<Rightarrow> waker" where
  "overheard s s' k = k\<lparr>wk_changed := wk_changed k \<or> sd_usage s' \<noteq> sd_usage s\<rparr>"

inductive loop_step :: "drr_cfg \<Rightarrow> sys \<times> waker \<Rightarrow> sys \<times> waker \<Rightarrow> bool" for cfg :: drr_cfg where
  wake: "\<not> wk_running k \<Longrightarrow> wk_notified k \<Longrightarrow> loop_step cfg (y, k) (y, k\<lparr>wk_running := True, wk_notified := False\<rparr>)"
| wake_snapshot: "\<not> wk_running k \<Longrightarrow> wk_listening k \<Longrightarrow> wk_changed k \<Longrightarrow>
     loop_step cfg (y, k) (y, k\<lparr>wk_running := True, wk_changed := False\<rparr>)"
| wake_closed: "\<not> wk_running k \<Longrightarrow> wk_listening k \<Longrightarrow> \<not> wk_changed k \<Longrightarrow> \<not> wk_sender k \<Longrightarrow>
     loop_step cfg (y, k) (y, k\<lparr>wk_running := True, wk_listening := False\<rparr>)"
| grant: "wk_running k \<Longrightarrow> sy_hand y = None \<Longrightarrow> admission_round cfg now u rd lc (sy_s y) = Some (Grant f p, cap, s') \<Longrightarrow>
     loop_step cfg (y, k) (y\<lparr>sy_s := s', sy_hand := Some (f, p)\<rparr>, overheard (sy_s y) s' k)"
| again: "wk_running k \<Longrightarrow> sy_hand y = None \<Longrightarrow> admission_round cfg now u rd lc (sy_s y) = Some (Again, cap, s') \<Longrightarrow>
     loop_step cfg (y, k) (y\<lparr>sy_s := s'\<rparr>, overheard (sy_s y) s' k)"
| sleep: "wk_running k \<Longrightarrow> sy_hand y = None \<Longrightarrow> admission_round cfg now u rd lc (sy_s y) = Some (Break, cap, s') \<Longrightarrow>
     loop_step cfg (y, k) (y\<lparr>sy_s := s'\<rparr>, (overheard (sy_s y) s' k)\<lparr>wk_running := False, wk_fractional := only_fractional (sy_s y)\<rparr>)"
| send: "sy_hand y = Some (f, p) \<Longrightarrow> (pd_id p, f) \<in> set (sy_wait y) \<Longrightarrow>
     loop_step cfg (y, k) (y\<lparr>sy_s := (sy_s y)\<lparr>sd_reg := snd (get_or_create u f (sd_reg (sy_s y)))\<rparr>,
       sy_hand := None, sy_sent := sy_sent y @ [(pd_id p, f)]\<rparr>, k)"
| send_fails: "sy_hand y = Some (f, p) \<Longrightarrow> (pd_id p, f) \<notin> set (sy_wait y) \<Longrightarrow>
     loop_step cfg (y, k) (y\<lparr>sy_s := release_permit ((sy_s y)\<lparr>sd_reg := snd (get_or_create u f (sd_reg (sy_s y)))\<rparr>),
       sy_hand := None\<rparr>, k\<lparr>wk_notified := True\<rparr>)"
| notify: "0 < wk_owed k \<Longrightarrow> loop_step cfg (y, k) (y, k\<lparr>wk_owed := wk_owed k - 1, wk_notified := True\<rparr>)"
| enter: "admit_enter cfg u f (sy_s y) = (None, s') \<Longrightarrow> length (sy_gate y) + length (sy_wait y) + 1 < 2 ^ 32 \<Longrightarrow>
     loop_step cfg (y, k) (y\<lparr>sy_s := s', sy_gate := sy_gate y @ [f]\<rparr>, k)"
| reject: "admit_enter cfg u f (sy_s y) = (Some r, s') \<Longrightarrow> loop_step cfg (y, k) (y\<lparr>sy_s := s'\<rparr>, k)"
| queue: "f \<in> set (sy_gate y) \<Longrightarrow> enqueue f work entered (sy_s y) = (i, s') \<Longrightarrow>
     loop_step cfg (y, k) (y\<lparr>sy_s := s', sy_gate := remove1 f (sy_gate y), sy_wait := sy_wait y @ [(i, f)]\<rparr>, owe k)"
| receive: "(i, f) \<in> set (sy_sent y) \<Longrightarrow>
     loop_step cfg (y, k) (y\<lparr>sy_s := admitted f waited (sy_s y), sy_wait := remove1 (i, f) (sy_wait y),
       sy_sent := remove1 (i, f) (sy_sent y), sy_held := sy_held y @ [f]\<rparr>, k)"
| cancel_gate: "f \<in> set (sy_gate y) \<Longrightarrow>
     loop_step cfg (y, k) (y\<lparr>sy_s := guard_drop f None (sy_s y), sy_gate := remove1 f (sy_gate y)\<rparr>, k)"
| cancel_queued: "(i, f) \<in> set (sy_wait y) \<Longrightarrow> (i, f) \<notin> set (sy_sent y) \<Longrightarrow>
     loop_step cfg (y, k) (y\<lparr>sy_s := guard_drop f (Some i) (sy_s y), sy_wait := remove1 (i, f) (sy_wait y)\<rparr>, k)"
| cancel_sent: "(i, f) \<in> set (sy_sent y) \<Longrightarrow>
     loop_step cfg (y, k) (y\<lparr>sy_s := guard_drop f (Some i) (ticket_drop f (sy_s y)), sy_wait := remove1 (i, f) (sy_wait y),
       sy_sent := remove1 (i, f) (sy_sent y), sy_lost := sy_lost y @ [f]\<rparr>, owe k)"
| finish: "f \<in> set (sy_held y) \<Longrightarrow>
     loop_step cfg (y, k) (y\<lparr>sy_s := ticket_drop f (sy_s y), sy_held := remove1 f (sy_held y)\<rparr>, owe k)"
| load: "loop_step cfg (y, k) (y\<lparr>sy_s := snd (accounting_load u f (sy_s y))\<rparr>, k)"
| store: "loop_step cfg (y, k) (y\<lparr>sy_s := accounting_store f balance rep (sy_s y)\<rparr>, k)"
| reap: "still_idle fs (sd_reg (sy_s y)) \<Longrightarrow>
     loop_step cfg (y, k) (y\<lparr>sy_s := (sy_s y)\<lparr>sd_reg := snd (reap_remove fs (sd_reg (sy_s y)))\<rparr>\<rparr>, k)"
| publish: "wk_sender k \<Longrightarrow>
     loop_step cfg (y, k) (y\<lparr>sy_s := (sy_s y)\<lparr>sd_usage := usage\<rparr>\<rparr>, k\<lparr>wk_changed := True\<rparr>)"
| drop_sender: "loop_step cfg (y, k) (y, k\<lparr>wk_sender := False\<rparr>)"
| progress: "loop_step cfg (y, k) (y\<lparr>sy_s := (sy_s y)\<lparr>sd_progress := prog\<rparr>\<rparr>, k)"
| outside: "aside (sy_s y) s' \<Longrightarrow> sd_usage s' = sd_usage (sy_s y) \<Longrightarrow> loop_step cfg (y, k) (y\<lparr>sy_s := s'\<rparr>, k)"

inductive loop_reachable :: "drr_cfg \<Rightarrow> sys \<times> waker \<Rightarrow> bool" for cfg :: drr_cfg where
  start: "unat n = dc_max_active_flows cfg \<Longrightarrow> loop_reachable cfg (sys_new n w pr, waker_new)"
| step: "loop_reachable cfg a \<Longrightarrow> loop_step cfg a b \<Longrightarrow> loop_reachable cfg b"

section \<open>Every step is one of the scheduler, or only of the loop\<close>

lemma observe_one:
  "drr_step cfg y (y\<lparr>sy_s := (sy_s y)\<lparr>sd_usage := usage\<rparr>\<rparr>)" "drr_step cfg y (y\<lparr>sy_s := (sy_s y)\<lparr>sd_progress := prog\<rparr>\<rparr>)"
  using drr_step.observe[of cfg y "sd_progress (sy_s y)" usage] drr_step.observe[of cfg y prog "sd_usage (sy_s y)"] by simp_all

lemma loop_step_simulated:
  assumes "loop_step cfg (y, k) (z, k')"
  shows "z = y \<or> drr_step cfg y z"
  using assms by cases (auto intro: drr_step.intros observe_one)

lemma loop_reachable_reachable: "loop_reachable cfg a \<Longrightarrow> reachable cfg (fst a)"
proof (induction rule: loop_reachable.induct)
  case (start n w pr)
  then show ?case by (simp add: reachable.start)
next
  case (step a b)
  then show ?case using loop_step_simulated[of cfg "fst a" "snd a" "fst b" "snd b"] by (auto intro: reachable.step)
qed

section \<open>The loop sleeps only when it has nothing to do\<close>

definition nothing_to_do :: "drr_cfg \<Rightarrow> sched \<Rightarrow> bool" where
  "nothing_to_do cfg s \<longleftrightarrow> live_cap cfg s \<le> in_use (sd_drr s) \<or> dr_cursor (sd_drr s) = []"

lemma break_idle:
  assumes "admission_round cfg now u rd lc s = Some (Break, cap, s')" and "drr_inv (sd_drr s)"
  shows "nothing_to_do cfg s' \<or> only_fractional s"
proof (cases "live_cap cfg s \<le> in_use (sd_drr s) \<or> dr_cursor (sd_drr s) = []")
  case True
  then have "s' = capped cfg lc s" using assms(1) by (simp add: admission_round_capped split: if_splits)
  then show ?thesis using True by (simp add: nothing_to_do_def live_cap_def)
next
  case False
  let ?s = "reread cfg lc rd s"
  have inv: "drr_inv (sd_drr ?s)" and low: "in_use (sd_drr ?s) < live_cap cfg s" and ne: "dr_cursor (sd_drr ?s) \<noteq> []"
    using False assms(2) by simp_all
  have t: "\<exists>s2. try_select cfg now u (live_cap cfg s) ?s = Some (None, False, s2)"
    using assms(1) False by (auto simp: admission_round_capped split: option.splits if_splits)
  have none: "first_starved cfg now u ?s = None"
    using try_select_starved_core[OF inv low, of cfg now u] t by (cases "first_starved cfg now u ?s") fastforce+
  have "\<not> eligible_in u ?s g" for g
    using try_select_eligible_core[OF inv low none, of g] t by fastforce
  then have "\<not> (\<exists>g. accrues u ?s g)"
    using try_select_idle_core[OF inv low none _ ne] t by fastforce
  then have "weight_i64 (reg_view 0 (sd_reg s) g) \<le> 0" if "g \<in> set (dr_cursor (sd_drr s))" for g
    using that drr_invD(3)[OF assms(2), of g] by (auto simp: accrues_def reg_view_clock[of u _ 0] not_less)
  then show ?thesis using ne by (simp add: only_fractional_def)
qed

text \<open>Nothing wakes the loop.\<close>

definition quiet_loop :: "waker \<Rightarrow> bool" where
  "quiet_loop k \<longleftrightarrow> \<not> wk_running k \<and> \<not> wk_notified k \<and> wk_owed k = 0 \<and> \<not> wk_changed k"

definition loop_ok :: "drr_cfg \<Rightarrow> sys \<times> waker \<Rightarrow> bool" where
  "loop_ok cfg a \<longleftrightarrow> (\<not> wk_running (snd a) \<longrightarrow> sy_hand (fst a) = None)
     \<and> (quiet_loop (snd a) \<longrightarrow> wk_fractional (snd a) \<or> nothing_to_do cfg (sy_s (fst a)))"

lemma nothing_frame:
  "sd_drr s' = sd_drr s \<Longrightarrow> sd_usage s' = sd_usage s \<Longrightarrow> nothing_to_do cfg s' = nothing_to_do cfg s"
  by (simp add: nothing_to_do_def live_cap_def)

lemma nothing_guard_drop:
  assumes "nothing_to_do cfg s"
  shows "nothing_to_do cfg (guard_drop f pid s)"
proof -
  have "sd_usage (guard_drop f pid s) = sd_usage s"
    by (simp add: guard_drop_def leave_queue_def clear_enqueued_def Let_def split_beta set_queue_depth_def)
  moreover have "in_use (sd_drr (guard_drop f pid s)) = in_use (sd_drr s)"
    and "dr_cursor (sd_drr s) = [] \<Longrightarrow> dr_cursor (sd_drr (guard_drop f pid s)) = []"
    by (auto simp: guard_drop_def leave_queue_def clear_enqueued_def Let_def split_beta remove_pending_def purge_flow_def in_use_def
        split: option.split)
  ultimately show ?thesis using assms by (auto simp: nothing_to_do_def live_cap_def)
qed

text \<open>Operations that leave the scheduler's state and the usage alone.\<close>

lemma enter_frame: "sd_drr (snd (admit_enter cfg u f s)) = sd_drr s" "sd_usage (snd (admit_enter cfg u f s)) = sd_usage s"
  by (simp_all add: admit_enter_def guard_new_def Let_def)

lemma admitted_frame: "sd_drr (admitted f waited s) = sd_drr s" "sd_usage (admitted f waited s) = sd_usage s"
  by (simp_all add: admitted_def guard_consume_def leave_queue_def Let_def)

lemma account_frame:
  "sd_drr (snd (accounting_load u f s)) = sd_drr s" "sd_usage (snd (accounting_load u f s)) = sd_usage s"
  "sd_drr (accounting_store f c rep s) = sd_drr s" "sd_usage (accounting_store f c rep s) = sd_usage s"
  by (simp_all add: accounting_load_def accounting_store_def set_credit_def Let_def)

lemma loop_ok_step:
  assumes "loop_step cfg a b" and "loop_ok cfg a" and "reachable cfg (fst a)"
  shows "loop_ok cfg b"
  using assms(1)
proof cases
  case (sleep k y now u rd lc cap s')
  have "drr_inv (sd_drr (sy_s y))" using reachableD(2)[OF assms(3)] sleep(1) by (simp add: waiting_ok_def)
  then have "nothing_to_do cfg s' \<or> only_fractional (sy_s y)" by (rule break_idle[OF sleep(5)])
  then show ?thesis using sleep by (auto simp: loop_ok_def)
next
  case (enter u f y s' k)
  then have "nothing_to_do cfg s' = nothing_to_do cfg (sy_s y)" using enter_frame[of cfg u f "sy_s y"] by (intro nothing_frame) simp_all
  then show ?thesis using assms(2) enter(1,2) by (auto simp: loop_ok_def)
next
  case (reject u f y r s' k)
  then have "nothing_to_do cfg s' = nothing_to_do cfg (sy_s y)" using enter_frame[of cfg u f "sy_s y"] by (intro nothing_frame) simp_all
  then show ?thesis using assms(2) reject(1,2) by (auto simp: loop_ok_def)
next
  case (receive i f y k waited)
  have "nothing_to_do cfg (admitted f waited (sy_s y)) = nothing_to_do cfg (sy_s y)" by (rule nothing_frame) (rule admitted_frame)+
  then show ?thesis using assms(2) receive(1,2) by (auto simp: loop_ok_def)
next
  case (cancel_gate f y k)
  then show ?thesis using assms(2) nothing_guard_drop[of cfg "sy_s y" f None] by (auto simp: loop_ok_def)
next
  case (cancel_queued i f y k)
  then show ?thesis using assms(2) nothing_guard_drop[of cfg "sy_s y" f "Some i"] by (auto simp: loop_ok_def)
next
  case (load y k u f)
  have "nothing_to_do cfg (snd (accounting_load u f (sy_s y))) = nothing_to_do cfg (sy_s y)" by (rule nothing_frame) (rule account_frame)+
  then show ?thesis using assms(2) load by (auto simp: loop_ok_def)
next
  case (store y k f balance rep)
  have "nothing_to_do cfg (accounting_store f balance rep (sy_s y)) = nothing_to_do cfg (sy_s y)" by (rule nothing_frame) (rule account_frame)+
  then show ?thesis using assms(2) store by (auto simp: loop_ok_def)
next
  case (outside y s' k)
  then have "nothing_to_do cfg s' = nothing_to_do cfg (sy_s y)" by (intro nothing_frame) (simp_all add: aside_def)
  then show ?thesis using assms(2) outside(1,2) by (auto simp: loop_ok_def)
next
  case (reap fs y k)
  have "nothing_to_do cfg ((sy_s y)\<lparr>sd_reg := r\<rparr>) = nothing_to_do cfg (sy_s y)" for r by (rule nothing_frame) simp_all
  then show ?thesis using assms(2) reap by (auto simp: loop_ok_def)
next
  case (progress y k prog)
  have "nothing_to_do cfg ((sy_s y)\<lparr>sd_progress := r\<rparr>) = nothing_to_do cfg (sy_s y)" for r by (rule nothing_frame) simp_all
  then show ?thesis using assms(2) progress by (auto simp: loop_ok_def)
next
  case (send y f p k u)
  then show ?thesis using assms(2) by (auto simp: loop_ok_def quiet_loop_def)
qed (use assms(2) in \<open>simp_all add: loop_ok_def quiet_loop_def owe_def overheard_def\<close>)

lemma loop_reachable_ok: "loop_reachable cfg a \<Longrightarrow> loop_ok cfg a"
proof (induction rule: loop_reachable.induct)
  case (start n w pr)
  show ?case by (simp add: loop_ok_def sys_new_def nothing_to_do_def drr_new_def)
next
  case (step a b)
  then show ?case using loop_ok_step loop_reachable_reachable by blast
qed

text \<open>
  C3. No wake-up is lost: whenever the admission loop sleeps and nothing is on its way to wake it - no
  stored notification, no task that still owes one, no unseen snapshot - either as many tickets are out
  as the live cap allows, or every request that waits already has its ticket in its channel, or the loop went to sleep
  when all the flows that waited had weights below 1.  So, that case apart, no
  request is left queued beside a free permit, in any interleaving of arrivals, cancellations,
  completions, changes of weights and changes of pressure.
\<close>

theorem no_lost_wakeup:
  assumes "loop_reachable cfg (y, k)" and "quiet_loop k" and "\<not> wk_fractional k"
  shows "live_cap cfg (sy_s y) \<le> length (sy_sent y) + length (sy_held y) \<or> set (sy_wait y) \<subseteq> set (sy_sent y)"
proof -
  have r: "reachable cfg y" using loop_reachable_reachable[OF assms(1)] by simp
  note W = waiting_okD[OF reachableD(2)[OF r]]
  from loop_reachable_ok[OF assms(1)] assms(2,3)
  have h: "sy_hand y = None" and n: "nothing_to_do cfg (sy_s y)" by (simp_all add: loop_ok_def quiet_loop_def)
  have p: "unat (dr_available (sd_drr (sy_s y))) + length (sy_sent y) + length (sy_held y) = unat (dr_max (sd_drr (sy_s y)))"
    using reachableD(1)[OF r] h by (simp add: permits_ok_def in_hand_def)
  then have "in_use (sd_drr (sy_s y)) = length (sy_sent y) + length (sy_held y)"
    by (simp add: in_use_def unat_sub word_le_nat_alt)
  moreover have "set (sy_wait y) \<subseteq> set (sy_sent y)" if "dr_cursor (sd_drr (sy_s y)) = []"
  proof clarify
    fix i f assume w: "(i, f) \<in> set (sy_wait y)"
    have "ids_of y f = {}" using drr_invD(3)[OF W(1), of f] that by (simp add: ids_of_def)
    then show "(i, f) \<in> set (sy_sent y)" using W(11)[OF w] h by simp
  qed
  ultimately show ?thesis using n by (auto simp: nothing_to_do_def)
qed

text \<open>
  The case set apart: if all waiting flows have weights below 1 and none is starved yet, the loop goes to sleep beside free
  permits, and neither the passing of time nor a new weight for a flow wakes it.
\<close>

lemma sleeps_on_fractional_weights:
  assumes "drr_inv (sd_drr s)" and "in_use (sd_drr s) < live_cap cfg s" and "dr_cursor (sd_drr s) \<noteq> []"
    and "first_starved cfg now u s = None" and "\<And>g. \<not> accrues u s g"
  shows "\<exists>cap s'. admission_round cfg now u rd lc s = Some (Break, cap, s') \<and> queue_of (sd_drr s') = queue_of (sd_drr s)"
proof -
  have "\<not> eligible_in u s g" for g using assms(5)[of g] by (simp add: eligible_in_def)
  then obtain s' where "try_select cfg now u (live_cap cfg s) (reread cfg lc rd s) = Some (None, False, s')"
      "queue_of (sd_drr s') = queue_of (sd_drr s)"
    using try_select_idle_core[of "reread cfg lc rd s" "live_cap cfg s" cfg now u] assms by auto
  then show ?thesis using assms(2,3) by (auto simp: admission_round_capped)
qed

section \<open>A run\<close>

text \<open>A request arrives, its task notifies, the loop wakes, grants, sends the ticket and sleeps again.\<close>

lemma woken_run: "loop_reachable ex_cfg (run2, waker_new\<lparr>wk_running := True\<rparr>)"
proof -
  have r0: "loop_reachable ex_cfg (run0, waker_new)" unfolding run0_def by (rule loop_reachable.start) (simp add: ex_cfg_def)
  have e: "admit_enter ex_cfg 0 ''a'' (sy_s run0) = (None, sy_s run1)"
    by (simp add: run1_def admit_enter_def ex_cfg_def Let_def)
  have "loop_step ex_cfg (run0, waker_new) (run1, waker_new)"
    using loop_step.enter[of ex_cfg 0 "''a''" run0, OF e] by (simp add: run1_def run0_def sys_new_def)
  then have r1: "loop_reachable ex_cfg (run1, waker_new)" using loop_reachable.step[OF r0] by simp
  have q: "enqueue ''a'' (Fin 1) 0 (sy_s run1) = (0, sy_s run2)"
    by (simp add: run2_def run1_def run0_def sys_new_def enqueue_def Let_def drr_new_def admit_enter_def ex_cfg_def guard_new_def)
  have "loop_step ex_cfg (run1, waker_new) (run2, owe waker_new)"
    using loop_step.queue[of "''a''" run1, OF _ q] by (simp add: run1_def run2_def run0_def sys_new_def)
  then have r2: "loop_reachable ex_cfg (run2, owe waker_new)" using loop_reachable.step[OF r1] by simp
  let ?k1 = "waker_new\<lparr>wk_notified := True\<rparr>" and ?k2 = "waker_new\<lparr>wk_running := True\<rparr>"
  have "loop_step ex_cfg (run2, owe waker_new) (run2, ?k1)"
    using loop_step.notify[of "owe waker_new" ex_cfg run2] by (simp add: owe_def waker_new_def)
  then have r3: "loop_reachable ex_cfg (run2, ?k1)" using loop_reachable.step[OF r2] by simp
  have "loop_step ex_cfg (run2, ?k1) (run2, ?k2)"
    using loop_step.wake[of ?k1 ex_cfg run2] by (simp add: waker_new_def)
  then show ?thesis using loop_reachable.step[OF r3] by simp
qed

lemma sleeping_run:
  "\<exists>y k. loop_reachable ex_cfg (y, k) \<and> quiet_loop k \<and> \<not> wk_fractional k \<and> sy_wait y = [(0, ''a'')] \<and> sy_sent y = [(0, ''a'')]
     \<and> sy_held y = [] \<and> live_cap ex_cfg (sy_s y) = 2"
proof -
  let ?p = "\<lparr> pd_id = 0, pd_enq = 0, pd_work = Fin 1 \<rparr>" and ?k2 = "waker_new\<lparr>wk_running := True\<rparr>"
  obtain s' where s': "admission_round ex_cfg 0 0 None 2 (sy_s run2) = Some (Grant ''a'' ?p, 2, s')" "grants 0 ''a'' ?p (sy_s run2) s'"
    using run2_grant by blast
  have none: "dr_cursor (sd_drr s') = []" using s'(2) run2_queue run2_s(1) by (auto simp: grants_def)
  have usage: "sd_usage s' = None" using s'(2) by (simp add: grants_def run2_s)
  let ?y = "run2\<lparr>sy_s := s', sy_hand := Some (''a'', ?p)\<rparr>"
  have "loop_step ex_cfg (run2, ?k2) (?y, overheard (sy_s run2) s' ?k2)" by (rule loop_step.grant[OF _ run2_sys(3) s'(1)]) simp
  moreover have k2: "overheard (sy_s run2) s' ?k2 = ?k2" by (simp add: overheard_def usage run2_s)
  ultimately have r5: "loop_reachable ex_cfg (?y, ?k2)" using loop_reachable.step[OF woken_run] by simp
  let ?z = "?y\<lparr>sy_s := (sy_s ?y)\<lparr>sd_reg := snd (get_or_create 0 ''a'' (sd_reg (sy_s ?y)))\<rparr>, sy_hand := None,
      sy_sent := sy_sent ?y @ [(pd_id ?p, ''a'')]\<rparr>"
  have "loop_step ex_cfg (?y, ?k2) (?z, ?k2)" by (rule loop_step.send[where p = ?p]) (simp_all add: run2_sys)
  then have r6: "loop_reachable ex_cfg (?z, ?k2)" by (rule loop_reachable.step[OF r5])
  have "admission_round ex_cfg 0 0 None 2 (sy_s ?z) = Some (Break, 2, sy_s ?z)"
    by (simp add: admission_round_def none live_cap_def ex_cfg_def effective_max_def kv_pressure_default_def)
  from loop_step.sleep[OF _ _ this, of ?k2]
  have "loop_step ex_cfg (?z, ?k2) (?z\<lparr>sy_s := sy_s ?z\<rparr>, ?k2\<lparr>wk_running := False\<rparr>)"
    by (simp add: overheard_def only_fractional_def none waker_new_def)
  then have "loop_reachable ex_cfg (?z\<lparr>sy_s := sy_s ?z\<rparr>, ?k2\<lparr>wk_running := False\<rparr>)" by (rule loop_reachable.step[OF r6])
  then show ?thesis
    by (intro exI conjI) (assumption, simp_all add: quiet_loop_def waker_new_def run2_sys live_cap_def ex_cfg_def effective_max_def
        kv_pressure_default_def)
qed

theorem no_lost_wakeup_witness:
  "\<exists>y :: sys. sy_wait y = [(0, ''a'')] \<and> set (sy_wait y) \<subseteq> set (sy_sent y) \<and> live_cap ex_cfg (sy_s y) = 2 \<and> length (sy_sent y) + length (sy_held y) = 1"
proof -
  obtain y k where r: "loop_reachable ex_cfg (y, k)" "quiet_loop k" "\<not> wk_fractional k" and y: "sy_wait y = [(0, ''a'')]" "sy_sent y = [(0, ''a'')]"
      "sy_held y = []" "live_cap ex_cfg (sy_s y) = 2"
    using sleeping_run by blast
  from no_lost_wakeup[OF r] have "set (sy_wait y) \<subseteq> set (sy_sent y)" using y by simp
  then show ?thesis using y by (intro exI[of _ y]) simp
qed

end
