(* ===== verification/Overtaking.thy ===== *)
theory Overtaking
  imports Wakeup
begin

text \<open>
  How long a starved flow still waits (src/scheduler/drr.rs, \<open>try_select\<close>): once its starvation timeout has
  passed, the flows before it in the round-robin order are the only ones that can be served before it.  Lemmas: every
  grant moves it forward, no other step moves it back; and what ends the protection early.
\<close>

section \<open>The place of a flow in the round-robin order\<close>

definition ahead :: "flow_id \<Rightarrow> sched \<Rightarrow> nat" where
  "ahead f s = length (takeWhile (\<lambda>g. g \<noteq> f) (dr_cursor (sd_drr s)))"

text \<open>The flow waits and has been queued for longer than the timeout at time \<open>t\<close>.\<close>

definition late :: "drr_cfg \<Rightarrow> instant \<Rightarrow> flow_id \<Rightarrow> sched \<Rightarrow> bool" where
  "late cfg t f s \<longleftrightarrow> drr_inv (sd_drr s) \<and> f \<in> set (dr_cursor (sd_drr s)) \<and> starved_in cfg t 0 s f"

lemma starved_later: "starved_in cfg t u s f \<Longrightarrow> t \<le> now \<Longrightarrow> starved_in cfg now v s f"
  by (auto simp: starved_in_def is_starved_def duration_since_def Let_def reg_view_clock[of u _ v] split: option.splits if_splits)

lemma takeWhile_removeAll:
  "g \<noteq> f \<Longrightarrow> takeWhile (\<lambda>h. h \<noteq> f) (removeAll g xs) = removeAll g (takeWhile (\<lambda>h. h \<noteq> f) xs)"
  by (induction xs) auto

text \<open>The first element with a property that \<open>f\<close> has is \<open>f\<close> or before it.\<close>

lemma first_before:
  assumes "List.find P xs = Some g" and "P f" and "f \<in> set xs" and "g \<noteq> f"
  shows "g \<in> set (takeWhile (\<lambda>h. h \<noteq> f) xs)"
  using assms by (induction xs) (auto split: if_splits)

section \<open>The rounds of the loop\<close>

lemma late_round:
  assumes l: "late cfg t f s" and "t \<le> now" and r: "admission_round cfg now u rd lc s = Some (res, cap, s')"
  shows "(\<exists>g p. res = Grant g p \<and> (g = f \<or> f \<in> set (dr_cursor (sd_drr s')) \<and> ahead f s' < ahead f s))
    \<or> res = Break \<and> live_cap cfg s \<le> in_use (sd_drr s) \<and> sd_drr s' = sd_drr s"
proof -
  let ?s = "reread cfg lc rd s"
  have inv: "drr_inv (sd_drr ?s)" and f: "f \<in> set (dr_cursor (sd_drr s))" using l by (simp_all add: late_def)
  then have ne: "dr_cursor (sd_drr s) \<noteq> []" by auto
  show ?thesis
  proof (cases "live_cap cfg s \<le> in_use (sd_drr s)")
    case True
    then show ?thesis using r by (auto simp: admission_round_capped)
  next
    case False
    have st: "starved_in cfg now u s f" using l assms(2) starved_later[of cfg t 0 s f now u] by (simp add: late_def)
    then obtain g where g: "first_starved cfg now u s = Some g"
      using f by (cases "first_starved cfg now u s") (auto simp: first_starved_def find_None_iff)
    have low: "in_use (sd_drr ?s) < live_cap cfg s" using False by simp
    obtain p s2 where sel: "try_select cfg now u (live_cap cfg s) ?s = Some (Some (g, p, pd_work p), True, s2)"
      and gr: "grants u g p ?s s2"
      using try_select_starved_core[OF inv low, of cfg now u g] g by auto
    have res: "res = Grant g p" "s' = s2" using r False ne sel by (simp_all add: admission_round_capped)
    have c: "dr_cursor (sd_drr s2) = removeAll g (dr_cursor (sd_drr s)) @ (if queue_of (sd_drr s2) g = [] then [] else [g])"
      using gr by (auto simp: grants_def)
    show ?thesis
    proof (cases "g = f")
      case False
      have fin: "f \<in> set (removeAll g (dr_cursor (sd_drr s)))" using f False by simp
      then have "ahead f s2 = length (removeAll g (takeWhile (\<lambda>h. h \<noteq> f) (dr_cursor (sd_drr s))))"
        using False unfolding ahead_def c by (simp add: takeWhile_append1[of f] takeWhile_removeAll)
      moreover have "g \<in> set (takeWhile (\<lambda>h. h \<noteq> f) (dr_cursor (sd_drr s)))"
        using first_before[of "starved_in cfg now u s" _ g f] g st f False by (simp add: first_starved_def)
      ultimately have "ahead f s2 < ahead f s" unfolding ahead_def by (metis length_removeAll_less)
      then show ?thesis using res fin c by simp
    qed (use res in blast)
  qed
qed

section \<open>Everybody else\<close>

text \<open>What the other steps do to the cursor: nothing, a flow at the end, or a flow less.\<close>

definition cursor_moves :: "sched \<Rightarrow> sched \<Rightarrow> bool" where
  "cursor_moves s s' \<longleftrightarrow> (let c = dr_cursor (sd_drr s) in
     dr_cursor (sd_drr s') = c \<or> (\<exists>g. dr_cursor (sd_drr s') = c @ [g]) \<or> (\<exists>g. dr_cursor (sd_drr s') = removeAll g c))"

lemma cursor_guard_drop: "cursor_moves s (guard_drop f pid s)"
proof -
  have "sd_drr (guard_drop f pid s) = fst (remove_pending f pid (sd_drr s))"
    by (simp add: guard_drop_def leave_queue_def clear_enqueued_def Let_def split_beta)
  then show ?thesis by (auto simp: cursor_moves_def remove_pending_def purge_flow_def Let_def split: option.split)
qed

text \<open>A round needs an empty hand, so with a request in the hand the steps are those of everybody else.\<close>

lemma cursor_step:
  assumes "drr_step cfg y z" and "sy_hand y \<noteq> None"
  shows "cursor_moves (sy_s y) (sy_s z)"
  using assms(1)
proof cases
  case (enter u f s')
  then show ?thesis using enter_frame(1)[of cfg u f "sy_s y"] by (simp add: cursor_moves_def)
next
  case (reject u f r s')
  then show ?thesis using enter_frame(1)[of cfg u f "sy_s y"] by (simp add: cursor_moves_def)
next
  case (queue f work entered i s')
  then show ?thesis by (auto simp: cursor_moves_def enqueue_def Let_def)
next
  case (receive i f w)
  then show ?thesis by (simp add: cursor_moves_def admitted_frame)
next
  case (cancel_sent i f)
  have "dr_cursor (sd_drr (ticket_drop f (sy_s y))) = dr_cursor (sd_drr (sy_s y))"
    by (simp add: ticket_drop_def release_permit_def)
  then show ?thesis using cancel_sent(1) cursor_guard_drop[of "ticket_drop f (sy_s y)" f "Some i"] by (simp add: cursor_moves_def)
next
  case (load u f)
  then show ?thesis by (simp add: cursor_moves_def account_frame)
next
  case (store f balance rep)
  then show ?thesis by (simp add: cursor_moves_def account_frame)
next
  case (outside s')
  then show ?thesis by (simp add: cursor_moves_def aside_def)
qed (use assms(2) cursor_guard_drop in \<open>simp_all add: cursor_moves_def ticket_drop_def release_permit_def\<close>)

lemma ahead_moves:
  assumes "cursor_moves s s'" and "f \<in> set (dr_cursor (sd_drr s))" and "f \<in> set (dr_cursor (sd_drr s'))"
  shows "ahead f s' \<le> ahead f s"
proof -
  from assms(1) consider "dr_cursor (sd_drr s') = dr_cursor (sd_drr s)" | g where "dr_cursor (sd_drr s') = dr_cursor (sd_drr s) @ [g]"
    | g where "dr_cursor (sd_drr s') = removeAll g (dr_cursor (sd_drr s))" by (auto simp: cursor_moves_def Let_def)
  then show ?thesis
  proof cases
    case 2
    then show ?thesis using assms(2) by (simp add: ahead_def takeWhile_append1[of f])
  next
    case 3
    then have "g \<noteq> f" using assms(3) by auto
    have "ahead f s' = length (removeAll g (takeWhile (\<lambda>h. h \<noteq> f) (dr_cursor (sd_drr s))))"
      unfolding ahead_def 3 takeWhile_removeAll[OF \<open>g \<noteq> f\<close>] ..
    then show ?thesis by (simp add: ahead_def removeAll_filter_not_eq)
  qed (simp add: ahead_def)
qed

section \<open>Overtaking is bounded\<close>

text \<open>
  A stretch of a run in which a flow stays late: rounds of the loop after time \<open>t\<close> with the flows they serve, and
  steps of everybody else in between.
\<close>

inductive late_run :: "drr_cfg \<Rightarrow> instant \<Rightarrow> flow_id \<Rightarrow> sched \<Rightarrow> flow_id list \<Rightarrow> sched \<Rightarrow> bool"
  for cfg :: drr_cfg and t :: instant and f :: flow_id and s :: sched where
  none: "late cfg t f s \<Longrightarrow> late_run cfg t f s [] s"
| served: "late_run cfg t f s gs s1 \<Longrightarrow> t \<le> now \<Longrightarrow> admission_round cfg now u rd lc s1 = Some (Grant g p, cap, s2) \<Longrightarrow> late cfg t f s2 \<Longrightarrow>
     late_run cfg t f s (g # gs) s2"
| idle: "late_run cfg t f s gs s1 \<Longrightarrow> t \<le> now \<Longrightarrow> admission_round cfg now u rd lc s1 = Some (r, cap, s2) \<Longrightarrow> r \<in> {Again, Break} \<Longrightarrow>
     late cfg t f s2 \<Longrightarrow> late_run cfg t f s gs s2"
| others: "late_run cfg t f s gs (sy_s y) \<Longrightarrow> sy_hand y \<noteq> None \<Longrightarrow> drr_step cfg y z \<Longrightarrow> late cfg t f (sy_s z) \<Longrightarrow>
     late_run cfg t f s gs (sy_s z)"

lemma late_run_late: "late_run cfg t f s gs s' \<Longrightarrow> late cfg t f s'"
  by (induction rule: late_run.induct) simp_all

text \<open>
  C16. A starved flow is overtaken a bounded number of times: from the moment its starvation timeout has passed, as long as it
  waits and its queueing clock is not touched - no further request of the flow is queued and none of its requests is granted or
  cancelled, all of which set or clear the clock - the requests served before one of its own are at most as many as there were flows
  before it in the round-robin order, whatever arrives, is cancelled, finishes or changes its priority, weight
  or footprint meanwhile.
\<close>

theorem starved_overtaking_bounded:
  assumes "late_run cfg t f s gs s'" and "f \<notin> set gs"
  shows "length gs + ahead f s' \<le> ahead f s"
  using assms
proof (induction rule: late_run.induct)
  case (served gs s1 now u rd lc g p cap s2)
  then have "ahead f s2 < ahead f s1" using late_round[OF late_run_late[OF served(1)] served(2,3)] by auto
  then show ?case using served by simp
next
  case (idle gs s1 now u rd lc r cap s2)
  then have "sd_drr s2 = sd_drr s1" using late_round[OF late_run_late[OF idle(1)] idle(2,3)] by auto
  then show ?case using idle by (simp add: ahead_def)
next
  case (others gs y z)
  have "ahead f (sy_s z) \<le> ahead f (sy_s y)"
    using ahead_moves[OF cursor_step[OF others(3,2)]] late_run_late[OF others(1)] others(4) by (simp add: late_def)
  then show ?case using others by simp
qed simp

text \<open>
  What touches the clock: another request of the same flow.  Its arrival sets the clock anew, although the oldest
  request of the flow is as late as it was, so a flow that keeps sending is never starved.
\<close>

lemma arrival_resets_starvation_clock:
  assumes "enqueue f work entered s = (i, s')" and "registered (sd_reg s) f" and "now \<le> entered + dc_starvation_timeout cfg"
    and "queue_of (sd_drr s) f = p # ps"
  shows "\<not> starved_in cfg now u s' f" and "hd (queue_of (sd_drr s') f) = p"
proof -
  have r: "sd_reg s' = reg_update f (\<lambda>fl. fl\<lparr>fl_enqueued_at := Some entered\<rparr>) (sd_reg s)"
    using assms(1) by (auto simp: enqueue_def Let_def)
  obtain fl where fl: "reg_lookup (sd_reg s) f = Some fl" using assms(2) by (auto simp: registered_def)
  have "fl_enqueued_at (reg_view u (sd_reg s') f) = Some entered"
    using fl by (simp add: r reg_view_def reg_flow_def)
  then show "\<not> starved_in cfg now u s' f"
    using assms(3) by (simp add: starved_in_def is_starved_def duration_since_def Let_def)
  show "hd (queue_of (sd_drr s') f) = p" using assms(1,4) by (auto simp: enqueue_def Let_def queue_of_def)
qed

text \<open>Two late flows, of which b is first in the order.\<close>

definition ex_two :: sched where
  "ex_two = \<lparr> sd_drr = \<lparr> dr_waiting = [(''b'', [\<lparr> pd_id = 0, pd_enq = 0, pd_work = Fin 9 \<rparr>]), (''a'', [\<lparr> pd_id = 1, pd_enq = 0, pd_work = Fin 9 \<rparr>])],
       dr_cursor = [''b'', ''a''], dr_available = 2, dr_max = 2, dr_next_id = 2, dr_deficit = [] \<rparr>,
     sd_reg = (registry_new (Fin 1) 50)\<lparr>rg_flows := [(''b'', (flow_new ''b'' (Fin 1) 50 0)\<lparr>fl_enqueued_at := Some 0\<rparr>),
       (''a'', (flow_new ''a'' (Fin 1) 50 0)\<lparr>fl_enqueued_at := Some 0\<rparr>)]\<rparr>,
     sd_met = metrics_new, sd_queue = [], sd_progress = progress_new, sd_usage = None \<rparr>"

lemma ex_two_starved: "starved_in ex_cfg 11 u ex_two ''a''" "starved_in ex_cfg 11 u ex_two ''b''"
  by (simp_all add: starved_in_def ex_two_def reg_view_def reg_flow_def reg_lookup_def is_starved_def ex_cfg_def duration_since_def)

lemma ex_two_late: "late ex_cfg 11 ''a'' ex_two"
proof -
  have "drr_inv (sd_drr ex_two)"
    by (auto simp: drr_inv_def ex_two_def hwf_def hkeys_def queue_of_def split: if_splits)
  then show ?thesis using ex_two_starved(1) by (simp add: late_def) (simp add: ex_two_def)
qed

theorem starved_overtaking_bounded_witness:
  "\<exists>s'. late_run ex_cfg 11 ''a'' ex_two [''b''] s' \<and> ahead ''a'' ex_two = 1 \<and> ahead ''a'' s' = 0"
proof -
  have cap: "live_cap ex_cfg ex_two = 2" "in_use (sd_drr ex_two) = 0" "dr_cursor (sd_drr ex_two) = [''b'', ''a'']"
    by (simp_all add: live_cap_def ex_cfg_def effective_max_def kv_pressure_default_def ex_two_def in_use_def)
  have "first_starved ex_cfg 11 0 ex_two = Some ''b''" using ex_two_starved(2) by (simp add: first_starved_def cap)
  from try_select_starved_core[OF _ _ this, of 2] ex_two_late cap
  obtain p s' where s: "try_select ex_cfg 11 0 2 ex_two = Some (Some (''b'', p, pd_work p), True, s')"
    and g: "grants 0 ''b'' p ex_two s'" and i: "drr_inv (sd_drr s')" by (auto simp: late_def)
  have "ex_two\<lparr>sd_usage := None\<rparr> = ex_two" by (simp add: ex_two_def)
  then have r: "admission_round ex_cfg 11 0 None 2 ex_two = Some (Grant ''b'' p, 2, s')"
    using s cap by (simp add: admission_round_def Let_def)
  have "late ex_cfg 11 ''a'' s'" using g i ex_two_starved(1)[of 0] by (auto simp: late_def starved_in_def grants_def cap)
  then have run: "late_run ex_cfg 11 ''a'' ex_two [''b''] s'"
    using late_run.served[OF late_run.none[OF ex_two_late] _ r] by simp
  have a: "ahead ''a'' ex_two = 1" by (simp add: ahead_def cap)
  from starved_overtaking_bounded[OF run] a have "ahead ''a'' s' = 0" by simp
  then show ?thesis using run a by blast
qed

end
