(* ===== verification/Sse.thy ===== *)
theory Sse
  imports BackendParse
begin

text \<open>
  The byte-stream scanners of the gateway: \<open>SseFrameParser\<close> (src/gateway/retry.rs), which
  cuts a backend stream into event frames, and \<open>TokenAccumulator\<close> (src/gateway/stream.rs),
  which searches one for usage counts.  Both keep a buffer across chunks; bytes are
  characters.  Lemmas: framing loses nothing and does not depend on how the stream is cut
  into chunks; token counting does depend on it.
\<close>

definition cr :: char where "cr = CHR 0x0D"
definition lf :: char where "lf = CHR 0x0A"

lemma cr_lf [simp]: "cr \<noteq> lf" "lf \<noteq> cr"
  by (simp_all add: cr_def lf_def)

section \<open>Frames\<close>

type_synonym frame_parser = string

definition parser_new :: frame_parser where "parser_new = []"

text \<open>The offset just behind the first delimiter: two newlines, or twice a carriage return and a newline.\<close>

fun find_delimiter :: "string \<Rightarrow> nat option" where
  "find_delimiter (c # d # rest) =
     (if c = cr \<and> d = lf \<and> take 2 rest = [cr, lf] then Some 4
      else if c = lf \<and> d = lf then Some 2
      else map_option Suc (find_delimiter (d # rest)))"
| "find_delimiter _ = None"

lemma find_delimiter_bounds: "find_delimiter buf = Some e \<Longrightarrow> 2 \<le> e \<and> e \<le> length buf"
proof (induction buf arbitrary: e rule: find_delimiter.induct)
  case (1 c d rest)
  have "take 2 rest = [cr, lf] \<Longrightarrow> 2 \<le> length rest" by (cases rest; cases "tl rest"; simp)
  then show ?case using 1 by (fastforce split: if_splits)
qed simp_all

function extract_events :: "string \<Rightarrow> string list \<times> frame_parser" where
  "extract_events buf = (case find_delimiter buf of
       Some e \<Rightarrow> (let (events, rest) = extract_events (drop e buf) in (take e buf # events, rest))
     | None \<Rightarrow> ([], buf))"
  by pat_completeness auto
termination
  by (relation "measure length") (use find_delimiter_bounds in force)+

declare extract_events.simps [simp del]

definition parser_feed :: "string \<Rightarrow> frame_parser \<Rightarrow> string list \<times> frame_parser" where
  "parser_feed chunk buffer = extract_events (buffer @ chunk)"

definition parser_finish :: "frame_parser \<Rightarrow> string list" where
  "parser_finish buffer = (if buffer = [] then [] else [buffer])"

fun parser_run :: "string list \<Rightarrow> frame_parser \<Rightarrow> string list \<times> frame_parser" where
  "parser_run [] buffer = ([], buffer)"
| "parser_run (c # cs) buffer = (let (events, b1) = parser_feed c buffer; (later, b2) = parser_run cs b1
     in (events @ later, b2))"

lemma find_delimiter_append: "find_delimiter p = Some e \<Longrightarrow> find_delimiter (p @ q) = Some e"
proof (induction p arbitrary: e rule: find_delimiter.induct)
  case (1 c d rest)
  show ?case
  proof (cases "c = cr \<and> d = lf")
    case crlf: True
    show ?thesis
    proof (cases "take 2 rest = [cr, lf]")
      case True
      then have "take 2 (rest @ q) = [cr, lf]" by (cases rest; cases "tl rest"; simp)
      then show ?thesis using True crlf 1(2) by simp
    next
      case False
      then obtain e' where e': "find_delimiter (d # rest) = Some e'" "e = Suc e'"
        using 1(2) crlf by (auto simp: cr_def lf_def)
      have "take 2 (rest @ q) \<noteq> [cr, lf]"
      proof (cases "2 \<le> length rest")
        case True
        then show ?thesis using False by simp
      next
        case short: False
        then consider "rest = []" | x where "rest = [x]" by (cases rest; cases "tl rest"; simp)
        then show ?thesis
        proof cases
          case 1
          then show ?thesis using e'(1) by simp
        next
          case (2 x)
          then have "x = lf" using e'(1) crlf by (simp add: cr_def lf_def split: if_splits)
          then show ?thesis using 2 by (simp add: cr_def lf_def)
        qed
      qed
      then show ?thesis using 1(1)[OF _ _ e'(1)] e'(2) crlf False by (auto simp: cr_def lf_def)
    qed
  next
    case False
    then show ?thesis using 1 by (auto split: if_splits)
  qed
qed simp_all

lemma extract_append:
  "extract_events (p @ q) = (let (events, r) = extract_events p; (later, r') = extract_events (r @ q) in (events @ later, r'))"
proof (induction p rule: extract_events.induct)
  case (1 buf)
  show ?case
  proof (cases "find_delimiter buf")
    case None
    then show ?thesis by (simp add: extract_events.simps[of buf])
  next
    case (Some e)
    then have e: "find_delimiter (buf @ q) = Some e" "e \<le> length buf"
      using find_delimiter_append find_delimiter_bounds by blast+
    from 1[OF Some] show ?thesis
      unfolding extract_events.simps[of buf] extract_events.simps[of "buf @ q"] Some e(1)
      using e(2) by (simp add: split_beta Let_def)
  qed
qed

lemma extract_rest: "find_delimiter (snd (extract_events buf)) = None"
proof (induction buf rule: extract_events.induct)
  case (1 buf)
  then show ?case by (subst extract_events.simps) (auto simp: split_beta split: option.split)
qed

lemma find_delimiter_take: "find_delimiter buf = Some e \<Longrightarrow> find_delimiter (take e buf) = Some e"
proof (induction buf arbitrary: e rule: find_delimiter.induct)
  case (1 c d rest)
  show ?case
  proof (cases "c = cr \<and> d = lf \<and> take 2 rest = [cr, lf]")
    case True
    then have "e = 4" using 1(2) by simp
    then show ?thesis using True by (cases rest; cases "tl rest"; simp)
  next
    case no: False
    show ?thesis
    proof (cases "c = lf \<and> d = lf")
      case True
      then have "e = 2" using no 1(2) by simp
      then show ?thesis using True by (simp add: cr_def lf_def)
    next
      case False
      then obtain e' where e': "find_delimiter (d # rest) = Some e'" "e = Suc e'" using no 1(2) by auto
      have le: "2 \<le> e'" using find_delimiter_bounds[OF e'(1)] by simp
      then obtain k where k: "e' = Suc k" "1 \<le> k" by (cases e') auto
      have ih: "find_delimiter (d # take k rest) = Some e'" using 1(1)[OF _ _ e'(1)] no False k by auto
      have "\<not> (c = cr \<and> d = lf \<and> take 2 (take k rest) = [cr, lf])"
      proof
        assume a: "c = cr \<and> d = lf \<and> take 2 (take k rest) = [cr, lf]"
        then have "take 2 rest = [cr, lf]" by (cases rest; cases "tl rest"; cases k; auto simp: take_Cons' split: if_splits)
        with a no show False by simp
      qed
      then show ?thesis using ih e'(2) k False by auto
    qed
  qed
qed simp_all

lemma extract_frames: "list_all (\<lambda>f. find_delimiter f = Some (length f)) (fst (extract_events buf))"
proof (induction buf rule: extract_events.induct)
  case (1 buf)
  then show ?case
    by (subst extract_events.simps)
      (auto simp: split_beta min_absorb2 find_delimiter_take split: option.split dest: find_delimiter_bounds)
qed

lemma extract_concat: "concat (fst (extract_events buf)) @ snd (extract_events buf) = buf"
proof (induction buf rule: extract_events.induct)
  case (1 buf)
  then show ?case by (subst (1 2) extract_events.simps) (auto simp: split_beta split: option.split)
qed

lemma parser_run_eq: "find_delimiter b = None \<Longrightarrow> parser_run cs b = extract_events (b @ concat cs)"
proof (induction cs arbitrary: b)
  case Nil
  then show ?case by (simp add: extract_events.simps)
next
  case (Cons c cs)
  have "parser_run cs (snd (extract_events (b @ c))) = extract_events (snd (extract_events (b @ c)) @ concat cs)"
    by (rule Cons.IH[OF extract_rest])
  then show ?case using extract_append[of "b @ c" "concat cs"] by (simp add: parser_feed_def split_beta Let_def)
qed

text \<open>
  C27. Framing is lossless and independent of the chunking: however the network cuts the
  backend stream into chunks, the parser yields the same frames and the same leftover as
  on the whole stream; frames and leftover together are the stream byte for byte; every
  frame ends with its delimiter and contains no earlier one; and the leftover contains
  none.
\<close>

theorem frames_chunking_irrelevant:
  "parser_run chunks parser_new = extract_events (concat chunks)
   \<and> concat (fst (parser_run chunks parser_new)) @ concat (parser_finish (snd (parser_run chunks parser_new))) = concat chunks
   \<and> list_all (\<lambda>f. find_delimiter f = Some (length f)) (fst (parser_run chunks parser_new))
   \<and> find_delimiter (snd (parser_run chunks parser_new)) = None"
  using parser_run_eq[of "[]" chunks] extract_concat[of "concat chunks"] extract_frames[of "concat chunks"]
    extract_rest[of "concat chunks"]
  by (cases "snd (extract_events (concat chunks)) = []") (simp_all add: parser_new_def parser_finish_def)

section \<open>Token counting\<close>

text \<open>
  \<open>str::trim\<close> on UTF-8 bytes: the ASCII white space characters and the multi-byte encodings of the
  other Unicode ones.
\<close>

definition ws_codes :: "string list" where
  "ws_codes = [[CHR 0xC2, CHR 0x85], [CHR 0xC2, CHR 0xA0], [CHR 0xE1, CHR 0x9A, CHR 0x80],
     [CHR 0xE2, CHR 0x80, CHR 0xA8], [CHR 0xE2, CHR 0x80, CHR 0xA9], [CHR 0xE2, CHR 0x80, CHR 0xAF],
     [CHR 0xE2, CHR 0x81, CHR 0x9F], [CHR 0xE3, CHR 0x80, CHR 0x80]]
     @ map (\<lambda>n. [CHR 0xE2, CHR 0x80, char_of (0x80 + n)]) [0..<11]"

definition ws_prefix :: "string list \<Rightarrow> string \<Rightarrow> nat" where
  "ws_prefix codes s = (case s of [] \<Rightarrow> 0
     | c # _ \<Rightarrow> if is_ws c then 1 else (case filter (\<lambda>w. starts_with s w) codes of [] \<Rightarrow> 0 | w # _ \<Rightarrow> length w))"

function drop_ws :: "string list \<Rightarrow> string \<Rightarrow> string" where
  "drop_ws codes s = (let n = ws_prefix codes s in if n = 0 \<or> s = [] then s else drop_ws codes (drop n s))"
  by pat_completeness auto
termination
  by (relation "measure (\<lambda>(codes, s). length s)") auto

declare drop_ws.simps [simp del]

definition utf8_trim :: "string \<Rightarrow> string" where
  "utf8_trim s = rev (drop_ws (map rev ws_codes) (rev (drop_ws ws_codes s)))"

text \<open>\<open>str::parse::<i64>\<close>: an optional sign and digits, \<open>None\<close> also out of range.\<close>

definition parse_i64 :: "string \<Rightarrow> i64 option" where
  "parse_i64 s = (let (neg, ds) = split_sign s; v = (if neg then - int (digits_value ds) else int (digits_value ds)) in
     if ds \<noteq> [] \<and> list_all is_digit ds \<and> in_i64 v then Some v else None)"

definition usage_key :: string where
  "usage_key = CHR 0x22 # ''completion_tokens'' @ [CHR 0x22]"

fun find_sub :: "string \<Rightarrow> string \<Rightarrow> nat option" where
  "find_sub key [] = (if key = [] then Some 0 else None)"
| "find_sub key (c # cs) = (if starts_with (c # cs) key then Some 0 else map_option Suc (find_sub key cs))"

definition value_end :: "char \<Rightarrow> bool" where
  "value_end c \<longleftrightarrow> c = CHR '','' \<or> c = CHR 0x7D \<or> c = CHR '' '' \<or> c = lf \<or> c = cr"

text \<open>The number behind a key; the bytes are a number only if they are ASCII digits, which are UTF-8.\<close>

definition usage_value :: "string \<Rightarrow> i64 option" where
  "usage_value rest = (case dropWhile (\<lambda>c. c \<noteq> CHR '':'') rest of [] \<Rightarrow> None
     | _ # after_colon \<Rightarrow>
        (case dropWhile (\<lambda>c. c = CHR '' '' \<or> c = CHR 0x09) after_colon of [] \<Rightarrow> None
         | v \<Rightarrow> parse_i64 (utf8_trim (takeWhile (\<lambda>c. \<not> value_end c) v))))"

lemma find_sub_bounds: "find_sub key buf = Some p \<Longrightarrow> p + length key \<le> length buf"
  by (induction key buf arbitrary: p rule: find_sub.induct)
    (auto simp: starts_with_def take_Cons' split: if_splits dest: arg_cong[of _ _ length])

function extract_tokens :: "string \<Rightarrow> i64 \<times> string" where
  "extract_tokens buf = (case find_sub usage_key buf of None \<Rightarrow> (0, buf)
     | Some pos \<Rightarrow>
        (let rest = drop (pos + length usage_key) buf;
             here = (case usage_value rest of Some n \<Rightarrow> n | None \<Rightarrow> 0);
             (later, b) = extract_tokens rest
         in (wrap_i64 (here + later), b)))"
  by pat_completeness auto
termination
  by (relation "measure length") (auto simp: usage_key_def dest: find_sub_bounds)

declare extract_tokens.simps [simp del]

definition accumulator_feed :: "string \<Rightarrow> string \<Rightarrow> i64 \<times> string" where
  "accumulator_feed chunk buffer = extract_tokens (buffer @ chunk)"

fun accumulator_run :: "string list \<Rightarrow> string \<Rightarrow> i64 \<times> string" where
  "accumulator_run [] buffer = (0, buffer)"
| "accumulator_run (c # cs) buffer = (let (n, b1) = accumulator_feed c buffer; (m, b2) = accumulator_run cs b1
     in (wrap_i64 (n + m), b2))"

lemma starts_with_longer: "starts_with p key \<Longrightarrow> starts_with (p @ q) key"
proof -
  assume p: "starts_with p key"
  then have "length key \<le> length p" by (metis length_take min.cobounded1 starts_with_def)
  with p show ?thesis by (simp add: starts_with_def)
qed

lemma find_sub_append: "find_sub key (p @ q) = None \<Longrightarrow> key \<noteq> [] \<Longrightarrow> find_sub key p = None"
proof (induction p)
  case (Cons c p)
  then have "\<not> starts_with (c # p) key" using starts_with_longer[of "c # p" key q] by (auto split: if_splits)
  then show ?case using Cons by (auto split: if_splits)
qed simp

lemma find_key_absent: "CHR 0x22 \<notin> set s \<Longrightarrow> find_sub usage_key s = None"
  by (induction s) (auto simp: usage_key_def starts_with_def)

lemma find_key_here: "find_sub usage_key (usage_key @ s) = Some 0"
  by (cases "usage_key @ s") (auto simp: starts_with_def usage_key_def)

lemma extract_tokens_here:
  "extract_tokens (usage_key @ s) = (let (later, b) = extract_tokens s
     in (wrap_i64 ((case usage_value s of Some n \<Rightarrow> n | None \<Rightarrow> 0) + later), b))"
  by (subst extract_tokens.simps) (simp add: find_key_here Let_def)

lemma extract_tokens_absent: "find_sub usage_key s = None \<Longrightarrow> extract_tokens s = (0, s)"
  by (subst extract_tokens.simps) simp

lemma digit_bytes: "is_digit c \<Longrightarrow> \<not> is_ws c" "is_digit c \<Longrightarrow> \<not> value_end c" "is_digit c \<Longrightarrow> c \<noteq> CHR 0x22"
  "is_digit c \<Longrightarrow> c \<noteq> CHR '' ''" "is_digit c \<Longrightarrow> c \<noteq> CHR 0x09" "is_digit c \<Longrightarrow> byte_of c < 128"
  "is_digit c \<Longrightarrow> c \<noteq> CHR ''-''" "is_digit c \<Longrightarrow> c \<noteq> CHR ''+''"
  by (auto simp: is_digit_def is_ws_def value_end_def byte_of_def lf_def cr_def)

lemma ws_codes_high: "list_all (\<lambda>w. w \<noteq> [] \<and> 128 \<le> byte_of (hd w) \<and> 128 \<le> byte_of (last w)) ws_codes"
  by (simp add: ws_codes_def byte_of_def upt_conv_Cons)

lemma drop_ws_digit:
  assumes "is_digit c" and "list_all (\<lambda>w. w \<noteq> [] \<and> 128 \<le> byte_of (hd w)) codes"
  shows "drop_ws codes (c # cs) = c # cs"
proof -
  have "\<not> starts_with (c # cs) w" if "w \<in> set codes" for w
    using assms that digit_bytes(6)[OF assms(1)] by (cases w) (auto simp: starts_with_def list_all_iff)
  then have "filter (\<lambda>w. starts_with (c # cs) w) codes = []" by (simp add: filter_empty_conv)
  then show ?thesis using digit_bytes(1)[OF assms(1)] by (subst drop_ws.simps) (simp add: ws_prefix_def)
qed

lemma utf8_trim_digits:
  assumes "list_all is_digit ds" and "ds \<noteq> []"
  shows "utf8_trim ds = ds"
proof -
  have f: "list_all (\<lambda>w. w \<noteq> [] \<and> 128 \<le> byte_of (hd w)) ws_codes"
    "list_all (\<lambda>w. w \<noteq> [] \<and> 128 \<le> byte_of (hd w)) (map rev ws_codes)"
    using ws_codes_high by (auto simp: list_all_iff hd_rev)
  obtain c cs where c: "ds = c # cs" using assms(2) by (cases ds) auto
  obtain d es where d: "rev ds = d # es" using assms(2) by (cases "rev ds") auto
  have "is_digit d" using assms(1) arg_cong[OF d, of set] by (auto simp: list_all_iff)
  then have "drop_ws (map rev ws_codes) (rev ds) = rev ds" using drop_ws_digit[OF _ f(2)] by (simp add: d)
  moreover have "drop_ws ws_codes ds = ds" using assms(1) drop_ws_digit[OF _ f(1)] by (simp add: c)
  ultimately show ?thesis by (simp add: utf8_trim_def)
qed

lemma parse_i64_digits:
  assumes "list_all is_digit ds" and "ds \<noteq> []" and "in_i64 (int (digits_value ds))"
  shows "parse_i64 ds = Some (int (digits_value ds))"
proof -
  have "split_sign ds = (False, ds)"
    using assms(1,2) digit_bytes(7,8) by (cases ds) (auto simp: split_sign_def)
  then show ?thesis using assms by (simp add: parse_i64_def)
qed

lemma usage_value_digits:
  assumes "list_all is_digit ds" and "ds \<noteq> []" and "in_i64 (int (digits_value ds))" and "tail = [] \<or> value_end (hd tail)"
  shows "usage_value (CHR '':'' # ds @ tail) = Some (int (digits_value ds))"
proof -
  obtain c cs where c: "ds = c # cs" "is_digit c" using assms(1,2) by (cases ds) auto
  have "takeWhile (\<lambda>c. \<not> value_end c) (ds @ tail) = ds @ takeWhile (\<lambda>c. \<not> value_end c) tail"
    using assms(1) digit_bytes(2) by (intro takeWhile_append2) (auto simp: list_all_iff)
  also have "takeWhile (\<lambda>c. \<not> value_end c) tail = []" using assms(4) by (cases tail) auto
  finally have "takeWhile (\<lambda>c. \<not> value_end c) (c # cs @ tail) = ds" using c(1) by simp
  then show ?thesis using c digit_bytes(4,5)[OF c(2)] utf8_trim_digits[OF assms(1,2)] parse_i64_digits[OF assms(1-3)]
    by (simp add: usage_value_def)
qed

lemma digits_value_append_ge: "digits_value a \<le> digits_value (a @ b)"
proof (induction b rule: rev_induct)
  case (snoc x xs)
  then show ?case by (simp add: digits_value_def)
qed simp

text \<open>
  Token counting depends on where the network cuts the stream: if a chunk ends inside
  the number of a usage entry only the digits of the first chunk are counted, and if it
  ends right behind the key nothing is counted, although the whole entry in one chunk
  counts in full.
\<close>

theorem split_usage_undercounts:
  assumes "list_all is_digit a" and "a \<noteq> []" and "list_all is_digit b" and "in_i64 (int (digits_value (a @ b)))"
  shows "fst (accumulator_run [usage_key @ CHR '':'' # a @ b @ [CHR 0x7D]] []) = int (digits_value (a @ b))
    \<and> fst (accumulator_run [usage_key @ CHR '':'' # a, b @ [CHR 0x7D]] []) = int (digits_value a)
    \<and> fst (accumulator_run [usage_key, CHR '':'' # a @ b @ [CHR 0x7D]] []) = 0"
proof -
  have ia: "in_i64 (int (digits_value a))"
    using assms(4) digits_value_append_ge[of a b] by (simp add: in_i64_def i64_min_def)
  have q: "CHR 0x22 \<notin> set a" "CHR 0x22 \<notin> set b" using assms(1,3) digit_bytes(3) by (auto simp: list_all_iff)
  have none: "find_sub usage_key (CHR '':'' # a @ b @ [CHR 0x7D]) = None" "find_sub usage_key (CHR '':'' # a) = None"
    "find_sub usage_key [] = None"
    using q by (auto intro!: find_key_absent simp del: find_sub.simps)
  have v: "usage_value (CHR '':'' # a @ b @ [CHR 0x7D]) = Some (int (digits_value (a @ b)))"
    using usage_value_digits[of "a @ b" "[CHR 0x7D]"] assms by (simp add: value_end_def)
  have va: "usage_value (CHR '':'' # a) = Some (int (digits_value a))"
    using usage_value_digits[of a "[]"] assms(1,2) ia by simp
  have v0: "usage_value [] = None" by (simp add: usage_value_def)
  note E = extract_tokens_here[of "CHR '':'' # a @ b @ [CHR 0x7D]"] extract_tokens_here[of "CHR '':'' # a"] extract_tokens_here[of "[]", unfolded append_Nil2]
  show ?thesis using assms(4) ia
    by (simp add: accumulator_feed_def E extract_tokens_absent[OF none(1)] extract_tokens_absent[OF none(2)]
        extract_tokens_absent[OF none(3)] v va v0)
qed

theorem split_usage_undercounts_witness:
  "fst (accumulator_run [usage_key @ '':12'', ''34}''] []) = 12"
  using split_usage_undercounts[of "''12''" "''34''"]
  by (simp add: is_digit_def byte_of_def digits_value_def in_i64_def i64_min_def i64_max_def)

text \<open>
  The accumulator never forgets: as long as the key does not occur in the stream, the
  buffer holds the whole stream, so its size (and the cost of every search) grows with
  everything the backend has sent.
\<close>

theorem accumulator_keeps_stream:
  assumes "find_sub usage_key (buffer @ concat chunks) = None"
  shows "accumulator_run chunks buffer = (0, buffer @ concat chunks)"
  using assms
proof (induction chunks arbitrary: buffer)
  case (Cons c cs)
  have "find_sub usage_key (buffer @ c) = None"
    using find_sub_append[of usage_key "buffer @ c" "concat cs"] Cons.prems by (simp add: usage_key_def)
  then show ?case using Cons.IH[of "buffer @ c"] Cons.prems by (simp add: accumulator_feed_def extract_tokens_absent)
qed simp

theorem accumulator_keeps_stream_witness:
  "snd (accumulator_run [''data: '', ''hello''] []) = ''data: hello''"
  using accumulator_keeps_stream[of "[]" "[''data: '', ''hello'']"]
  by (simp add: find_key_absent del: find_sub.simps accumulator_run.simps)

end
