(* ===== verification/Retry.thy ===== *)
theory Retry
  imports Sse Config Json
begin

text \<open>
  The pure parts of src/gateway/retry.rs: the premature-stop test, the temperature bump,
  the classification of stream frames, of llama.cpp error bodies and of network errors,
  and the backoff.  \<open>serde_json\<close> parsing is the argument \<open>parse\<close>.  Lemmas: exact
  conditions of the tests, bounds of the bump and a closed form of the backoff.
\<close>

section \<open>Premature stops\<close>

definition stop_reason :: "string \<Rightarrow> bool" where
  "stop_reason s \<longleftrightarrow> s = ''stop'' \<or> s = ''length''"

fun content_present :: "json option \<Rightarrow> bool" where
  "content_present None = False"
| "content_present (Some JNull) = False"
| "content_present (Some (JStr s)) = (s \<noteq> [])"
| "content_present (Some _) = True"

fun tool_calls_present :: "json option \<Rightarrow> bool" where
  "tool_calls_present None = False"
| "tool_calls_present (Some JNull) = False"
| "tool_calls_present (Some (JArr a)) = (a \<noteq> [])"
| "tool_calls_present (Some _) = True"

definition is_premature_stop :: "json \<Rightarrow> bool" where
  "is_premature_stop body = (case j_get body ''choices'' of
       Some (JArr (JObj m # _)) \<Rightarrow>
         (case map_of m ''finish_reason'' of
            Some (JStr s) \<Rightarrow> if stop_reason s then
              (case map_of m ''message'' of
                 Some (JObj msg) \<Rightarrow> \<not> content_present (map_of msg ''content'') \<and> \<not> tool_calls_present (map_of msg ''tool_calls'')
               | _ \<Rightarrow> False)
              else False
          | _ \<Rightarrow> False)
     | _ \<Rightarrow> False)"

section \<open>Temperature\<close>

definition base_temperature :: "json \<Rightarrow> retry_policy \<Rightarrow> f64" where
  "base_temperature body pol = (case j_get body ''temperature'' of
       Some (JNum (Float x)) \<Rightarrow> x | _ \<Rightarrow> rp_default_temperature pol)"

definition bumped_temperature :: "f64 \<Rightarrow> nat \<Rightarrow> retry_policy \<Rightarrow> f64" where
  "bumped_temperature base attempt pol =
     f_min (f_add base (f_mul (f_of_nat attempt) (rp_temperature_step pol))) (rp_max_temperature pol)"

text \<open>\<open>None\<close>: the assignment \<open>body["temperature"] = ...\<close> panics on a body that is no object.\<close>

definition bump_temperature :: "json \<Rightarrow> nat \<Rightarrow> retry_policy \<Rightarrow> json option" where
  "bump_temperature body attempt pol =
     (let new_temp = bumped_temperature (base_temperature body pol) attempt pol;
          temp_val = (case num_from_f64 new_temp of Some v \<Rightarrow> v
            | None \<Rightarrow> (case num_from_f64 (rp_default_temperature pol) of Some v \<Rightarrow> v | None \<Rightarrow> JNull))
      in j_index_set body ''temperature'' temp_val)"

section \<open>Frames\<close>

record frame_class =
  fc_content :: bool
  fc_tool_calls :: bool
  fc_finish_reason :: "string option"
  fc_done :: bool
  fc_usage :: bool
  fc_error :: bool

definition frame_class_empty :: frame_class where
  "frame_class_empty = \<lparr> fc_content = False, fc_tool_calls = False, fc_finish_reason = None,
     fc_done = False, fc_usage = False, fc_error = False \<rparr>"

fun split_lf :: "string \<Rightarrow> string list" where
  "split_lf [] = [[]]"
| "split_lf (c # cs) = (if c = lf then [] # split_lf cs
     else case split_lf cs of l # ls \<Rightarrow> (c # l) # ls | [] \<Rightarrow> [[c]])"

definition strip_data_prefix :: "string \<Rightarrow> string" where
  "strip_data_prefix line = (if starts_with line ''data: '' then drop 6 line
     else if starts_with line ''data:'' then drop 5 line else [])"

definition is_ascii_ws :: "char \<Rightarrow> bool" where
  "is_ascii_ws c \<longleftrightarrow> c = CHR '' '' \<or> c = CHR 0x09 \<or> c = cr"

definition trim_ascii :: "string \<Rightarrow> string" where
  "trim_ascii b = rev (dropWhile is_ascii_ws (rev (dropWhile is_ascii_ws b)))"

fun delta_content :: "json option \<Rightarrow> bool" where
  "delta_content (Some (JStr s)) = (s \<noteq> [])"
| "delta_content (Some (JArr a)) = (a \<noteq> [])"
| "delta_content (Some (JObj m)) = (m \<noteq> [])"
| "delta_content _ = False"

fun delta_tool_calls :: "json option \<Rightarrow> bool" where
  "delta_tool_calls (Some (JArr a)) = (a \<noteq> [])"
| "delta_tool_calls _ = False"

definition first_choice :: "json \<Rightarrow> json option" where
  "first_choice v = (case Option.bind (j_get v ''choices'') j_as_array of Some (c # _) \<Rightarrow> Some c | _ \<Rightarrow> None)"

definition classify_choice :: "json \<Rightarrow> frame_class \<Rightarrow> frame_class" where
  "classify_choice first r =
     (let r1 = (case j_get first ''delta'' of None \<Rightarrow> r
                | Some delta \<Rightarrow> r\<lparr>fc_content := fc_content r \<or> delta_content (j_get delta ''content''),
                                  fc_tool_calls := fc_tool_calls r \<or> delta_tool_calls (j_get delta ''tool_calls'')\<rparr>)
      in if fc_finish_reason r1 = None
         then (case j_get first ''finish_reason'' of Some (JStr s) \<Rightarrow> r1\<lparr>fc_finish_reason := Some s\<rparr> | _ \<Rightarrow> r1)
         else r1)"

definition classify_value :: "json \<Rightarrow> frame_class \<Rightarrow> frame_class" where
  "classify_value v r =
     (let r1 = (if j_get v ''error'' \<noteq> None then r\<lparr>fc_error := True\<rparr> else r);
          r2 = (case first_choice v of Some c \<Rightarrow> classify_choice c r1 | None \<Rightarrow> r1)
      in (case j_get v ''usage'' of Some (JObj m) \<Rightarrow> if m \<noteq> [] then r2\<lparr>fc_usage := True\<rparr> else r2 | _ \<Rightarrow> r2))"

definition classify_line :: "(string \<Rightarrow> json option) \<Rightarrow> string \<Rightarrow> frame_class \<Rightarrow> frame_class" where
  "classify_line parse line r = (let t = trim_ascii (strip_data_prefix line) in
     if starts_with t ''[DONE]'' \<and> length t = 6 then r\<lparr>fc_done := True\<rparr>
     else case parse t of Some v \<Rightarrow> classify_value v r | None \<Rightarrow> r)"

definition classify_frame :: "(string \<Rightarrow> json option) \<Rightarrow> string \<Rightarrow> frame_class" where
  "classify_frame parse frame = fold (classify_line parse) (split_lf frame) frame_class_empty"

section \<open>Backend errors\<close>

datatype llamacpp_class = NotLlamacpp | Permanent | Transient

definition classify_llamacpp_error :: "(string \<Rightarrow> json option) \<Rightarrow> string \<Rightarrow> llamacpp_class" where
  "classify_llamacpp_error parse body =
     (case parse body of None \<Rightarrow> NotLlamacpp
      | Some v \<Rightarrow> (case Option.bind (j_get v ''error'') j_as_object of None \<Rightarrow> NotLlamacpp
        | Some e \<Rightarrow>
           if Option.bind (map_of e ''type'') j_as_str \<noteq> Some ''exceed_context_size_error'' then NotLlamacpp
           else (case (Option.bind (map_of e ''n_prompt_tokens'') j_as_i64, Option.bind (map_of e ''n_ctx'') j_as_i64) of
                   (Some p, Some c) \<Rightarrow> if p < c then Transient else Permanent
                 | _ \<Rightarrow> NotLlamacpp)))"

text \<open>A transport error: whether it is a connect error, and its source chain with the kinds of the io errors in it.\<close>

datatype io_kind = ConnectionReset | ConnectionAborted | ConnectionRefused | BrokenPipe | UnexpectedEof | OtherIo

record net_error =
  ne_connect :: bool
  ne_chain :: "io_kind option list"

fun dead_chain :: "io_kind option list \<Rightarrow> bool" where
  "dead_chain [] = False"
| "dead_chain (Some k # cs) = (if k \<noteq> OtherIo then True else dead_chain cs)"
| "dead_chain (None # cs) = dead_chain cs"

definition is_transient_network_error :: "net_error \<Rightarrow> bool" where
  "is_transient_network_error e = (if ne_connect e then True else dead_chain (ne_chain e))"

text \<open>Bounded doubling; \<open>saturating_mul\<close> clips at the largest duration.\<close>

fun backoff_loop :: "nat \<Rightarrow> duration \<Rightarrow> duration \<Rightarrow> duration" where
  "backoff_loop 0 delay mx = delay"
| "backoff_loop (Suc n) delay mx = (let d = min duration_max (delay * 2) in if mx \<le> d then mx else backoff_loop n d mx)"

definition transient_backoff :: "nat \<Rightarrow> transient_retry_cfg \<Rightarrow> duration" where
  "transient_backoff attempt pol = backoff_loop (attempt - 1) (tr_backoff_start pol) (tr_backoff_max pol)"

section \<open>Properties\<close>

lemma backoff_loop_closed:
  "mx \<le> duration_max \<Longrightarrow> backoff_loop n d mx = (if n = 0 then d else min mx (d * 2 ^ n))"
proof (induction n arbitrary: d)
  case (Suc n)
  have pow: "d * 2 \<le> d * 2 ^ Suc n" by simp
  show ?case
  proof (cases "mx \<le> min duration_max (d * 2)")
    case True
    then have "mx \<le> d * 2 ^ Suc n" using pow by linarith
    then show ?thesis using True by (simp add: Let_def)
  next
    case False
    then have "d * 2 < mx" "min duration_max (d * 2) = d * 2" using Suc.prems by auto
    then show ?thesis using False Suc.IH[OF Suc.prems, of "d * 2"] by (simp add: Let_def mult.assoc)
  qed
qed simp

text \<open>
  Closed form of the backoff: from the second attempt on it is the documented
  \<open>min(start * 2^(attempt-1), max)\<close>, the saturating multiplication notwithstanding; the first attempt
  waits \<open>start\<close>, whatever the maximum is.
\<close>

theorem transient_backoff_closed:
  assumes "tr_backoff_max pol \<le> duration_max"
  shows "transient_backoff attempt pol =
    (if attempt \<le> 1 then tr_backoff_start pol else min (tr_backoff_max pol) (tr_backoff_start pol * 2 ^ (attempt - 1)))"
  using backoff_loop_closed[OF assms] by (auto simp: transient_backoff_def)

theorem transient_backoff_closed_witness:
  "transient_backoff 3 transient_retry_default = secs 2"
  using transient_backoff_closed[of transient_retry_default 3]
  by (simp add: transient_retry_default_def duration_max_def secs_def millis_def)

lemma f_le_add_nonneg:
  assumes "is_double (Fin b)" and "f_le (Fin 0) y"
  shows "f_le (Fin b) (f_add (Fin b) y)"
proof (cases y)
  case (Fin z)
  then have "b \<le> b + z" using assms(2) by simp
  from rnd_mono[OF this] show ?thesis using Fin assms(1) by (simp add: is_double_def)
qed (use assms in auto)

lemma f_min_Fin:
  assumes "x = NaN \<or> f_le (Fin b) x"
  shows "\<exists>t. f_min x (Fin m) = Fin t \<and> t \<le> m \<and> min b m \<le> t"
  using assms by (cases x) (auto simp: f_min_def)

lemma f_mul_nonneg:
  assumes "f_le (Fin 0) x" and "f_lt (Fin 0) y" and "x \<noteq> PInf"
  shows "f_mul x y = NaN \<or> f_le (Fin 0) (f_mul x y)"
  using assms rnd_nonneg by (cases x; cases y) (auto simp: f_mul_def f_of_sign_def)

text \<open>
  A retry under an accepted policy: the retried body is the request with only its
  temperature replaced, by a finite number that is at most the policy's maximum (and 2), and
  not below the temperature it started from unless that exceeded the maximum.
\<close>

theorem bump_temperature_bounds:
  assumes "retry_ok pol" and "rp_default_temperature pol = Fin d" and "base_temperature (JObj body) pol = Fin b"
    and "is_double (Fin b)" and "attempt \<le> 2 ^ 53"
  shows "\<exists>t mx. bump_temperature (JObj body) attempt pol = Some (JObj (obj_insert ''temperature'' (JNum (Float (Fin t))) body))
    \<and> rp_max_temperature pol = Fin mx \<and> t \<le> mx \<and> mx \<le> 2 \<and> min b mx \<le> t"
proof -
  obtain mx where mx: "rp_max_temperature pol = Fin mx" "mx \<le> 2"
    using assms(1,2) by (cases "rp_max_temperature pol") (auto simp: retry_ok_def)
  let ?y = "f_mul (f_of_nat attempt) (rp_temperature_step pol)"
  have "?y = NaN \<or> f_le (Fin 0) ?y"
    using f_mul_nonneg[of "f_of_nat attempt" "rp_temperature_step pol"] assms(1,5)
    by (simp add: retry_ok_def f_of_nat_exact)
  then have "f_add (Fin b) ?y = NaN \<or> f_le (Fin b) (f_add (Fin b) ?y)"
    using f_le_add_nonneg[OF assms(4)] by auto
  then obtain t where t: "bumped_temperature (Fin b) attempt pol = Fin t" "t \<le> mx" "min b mx \<le> t"
    using f_min_Fin mx(1) by (metis bumped_temperature_def)
  then show ?thesis using mx assms(3)
    by (intro exI[of _ t] exI[of _ mx]) (simp add: bump_temperature_def num_from_f64_def Let_def)
qed

definition ex_policy :: retry_policy where
  "ex_policy = \<lparr> rp_enabled = True, rp_max_retries = 2, rp_temperature_step = Fin (1/4),
     rp_max_temperature = Fin (3/2), rp_default_temperature = Fin 0 \<rparr>"

theorem bump_temperature_bounds_witness:
  "\<exists>t mx. bump_temperature (JObj [(''temperature'', JNum (Float (Fin 1)))]) 1 ex_policy
     = Some (JObj (obj_insert ''temperature'' (JNum (Float (Fin t))) [(''temperature'', JNum (Float (Fin 1)))]))
   \<and> rp_max_temperature ex_policy = Fin mx \<and> t \<le> mx \<and> mx \<le> 2 \<and> min 1 mx \<le> t"
proof (rule bump_temperature_bounds[where d = 0])
  show "is_double (Fin 1)" using is_double_int[of 1] by simp
qed (simp_all add: base_temperature_def ex_policy_def retry_ok_def)

text \<open>An integer temperature is not used as the base: the retry starts from the policy's default.\<close>

lemma integer_temperature_ignored:
  assumes "map_of body ''temperature'' = Some (JNum n)" and "\<And>x. n \<noteq> Float x"
  shows "base_temperature (JObj body) pol = rp_default_temperature pol"
  using assms by (cases n) (auto simp: base_temperature_def)

text \<open>A body that is neither null nor an object makes the retry panic.\<close>

lemma bump_temperature_panics:
  "bump_temperature body attempt pol = None \<longleftrightarrow> body \<noteq> JNull \<and> j_as_object body = None"
  by (cases body) (auto simp: bump_temperature_def Let_def)

subsection \<open>What a frame is classified by\<close>

text \<open>The abstract view of a frame: the JSON values of its data lines, and what a single value shows.\<close>

definition payload :: "string \<Rightarrow> string" where
  "payload line = trim_ascii (strip_data_prefix line)"

definition line_value :: "(string \<Rightarrow> json option) \<Rightarrow> string \<Rightarrow> json option" where
  "line_value parse line = (if payload line = ''[DONE]'' then None else parse (payload line))"

definition frame_values :: "(string \<Rightarrow> json option) \<Rightarrow> string \<Rightarrow> json list" where
  "frame_values parse frame = List.map_filter (line_value parse) (split_lf frame)"

definition value_delta :: "json \<Rightarrow> string \<Rightarrow> json option" where
  "value_delta v k = Option.bind (Option.bind (first_choice v) (\<lambda>c. j_get c ''delta'')) (\<lambda>d. j_get d k)"

definition value_finish :: "json \<Rightarrow> string option" where
  "value_finish v = Option.bind (Option.bind (first_choice v) (\<lambda>c. j_get c ''finish_reason'')) j_as_str"

definition value_usage :: "json \<Rightarrow> bool" where
  "value_usage v \<longleftrightarrow> (case Option.bind (j_get v ''usage'') j_as_object of Some m \<Rightarrow> m \<noteq> [] | None \<Rightarrow> False)"

lemma classify_choice_fields:
  "fc_content (classify_choice c r) = (fc_content r \<or> delta_content (Option.bind (j_get c ''delta'') (\<lambda>d. j_get d ''content'')))"
  "fc_tool_calls (classify_choice c r) = (fc_tool_calls r \<or> delta_tool_calls (Option.bind (j_get c ''delta'') (\<lambda>d. j_get d ''tool_calls'')))"
  "fc_finish_reason (classify_choice c r) =
     (if fc_finish_reason r = None then Option.bind (j_get c ''finish_reason'') j_as_str else fc_finish_reason r)"
  "fc_done (classify_choice c r) = fc_done r" "fc_usage (classify_choice c r) = fc_usage r"
  "fc_error (classify_choice c r) = fc_error r"
  by (auto simp: classify_choice_def Let_def split: option.split json.split)

lemma usage_case:
  "(case u of Some (JObj m) \<Rightarrow> if m \<noteq> [] then r\<lparr>fc_usage := True\<rparr> else r | _ \<Rightarrow> r) =
     r\<lparr>fc_usage := fc_usage r \<or> (case Option.bind u j_as_object of Some m \<Rightarrow> m \<noteq> [] | None \<Rightarrow> False)\<rparr>"
  by (auto split: option.split json.split)

lemma classify_value_eq:
  "classify_value v r =
     (let r1 = (if j_get v ''error'' \<noteq> None then r\<lparr>fc_error := True\<rparr> else r);
          r2 = (case first_choice v of Some c \<Rightarrow> classify_choice c r1 | None \<Rightarrow> r1)
      in r2\<lparr>fc_usage := fc_usage r2 \<or> value_usage v\<rparr>)"
  unfolding classify_value_def Let_def usage_case value_usage_def ..

lemma classify_value_fields:
  "fc_content (classify_value v r) = (fc_content r \<or> delta_content (value_delta v ''content''))"
  "fc_tool_calls (classify_value v r) = (fc_tool_calls r \<or> delta_tool_calls (value_delta v ''tool_calls''))"
  "fc_finish_reason (classify_value v r) = (if fc_finish_reason r = None then value_finish v else fc_finish_reason r)"
  "fc_done (classify_value v r) = fc_done r"
  "fc_usage (classify_value v r) = (fc_usage r \<or> value_usage v)"
  "fc_error (classify_value v r) = (fc_error r \<or> j_get v ''error'' \<noteq> None)"
proof -
  have e: "classify_value v r = (let r1 = (if j_get v ''error'' \<noteq> None then r\<lparr>fc_error := True\<rparr> else r) in
     (case first_choice v of Some c \<Rightarrow> classify_choice c r1 | None \<Rightarrow> r1)\<lparr>fc_usage := fc_usage r \<or> value_usage v\<rparr>)"
    by (cases "first_choice v") (simp_all add: classify_value_eq Let_def classify_choice_fields)
  show "fc_content (classify_value v r) = (fc_content r \<or> delta_content (value_delta v ''content''))"
    by (cases "first_choice v") (simp_all add: e Let_def classify_choice_fields value_delta_def)
  show "fc_tool_calls (classify_value v r) = (fc_tool_calls r \<or> delta_tool_calls (value_delta v ''tool_calls''))"
    by (cases "first_choice v") (simp_all add: e Let_def classify_choice_fields value_delta_def)
  show "fc_finish_reason (classify_value v r) = (if fc_finish_reason r = None then value_finish v else fc_finish_reason r)"
    by (cases "first_choice v"; cases "fc_finish_reason r") (simp_all add: e Let_def classify_choice_fields value_finish_def)
  show "fc_done (classify_value v r) = fc_done r"
    by (cases "first_choice v") (simp_all add: e Let_def classify_choice_fields)
  show "fc_usage (classify_value v r) = (fc_usage r \<or> value_usage v)"
    by (cases "first_choice v") (simp_all add: e Let_def classify_choice_fields)
  show "fc_error (classify_value v r) = (fc_error r \<or> j_get v ''error'' \<noteq> None)"
    by (cases "first_choice v") (simp_all add: e Let_def classify_choice_fields)
qed

lemma done_payload: "starts_with t ''[DONE]'' \<and> length t = 6 \<longleftrightarrow> t = ''[DONE]''"
  by (auto simp: starts_with_def)

lemma classify_line_value:
  "classify_line parse line r = (if payload line = ''[DONE]'' then r\<lparr>fc_done := True\<rparr>
     else case line_value parse line of Some v \<Rightarrow> classify_value v r | None \<Rightarrow> r)"
  by (simp add: classify_line_def done_payload payload_def line_value_def Let_def)

lemma classify_lines:
  fixes parse defines "vs \<equiv> \<lambda>ls. List.map_filter (line_value parse) ls"
  shows "fc_content (fold (classify_line parse) ls r) \<longleftrightarrow> fc_content r \<or> list_ex (\<lambda>v. delta_content (value_delta v ''content'')) (vs ls)"
    "fc_tool_calls (fold (classify_line parse) ls r) \<longleftrightarrow> fc_tool_calls r \<or> list_ex (\<lambda>v. delta_tool_calls (value_delta v ''tool_calls'')) (vs ls)"
    "fc_finish_reason (fold (classify_line parse) ls r) =
       (if fc_finish_reason r = None then List.find (\<lambda>_. True) (List.map_filter value_finish (vs ls)) else fc_finish_reason r)"
    "fc_done (fold (classify_line parse) ls r) \<longleftrightarrow> fc_done r \<or> list_ex (\<lambda>l. payload l = ''[DONE]'') ls"
    "fc_usage (fold (classify_line parse) ls r) \<longleftrightarrow> fc_usage r \<or> list_ex value_usage (vs ls)"
    "fc_error (fold (classify_line parse) ls r) \<longleftrightarrow> fc_error r \<or> list_ex (\<lambda>v. j_get v ''error'' \<noteq> None) (vs ls)"
  by (induction ls arbitrary: r;
      auto simp: vs_def List.map_filter_simps classify_line_value classify_value_fields line_value_def split: option.split)+

text \<open>
  C28. The classification of a frame is a function of the JSON values of its data lines:
  content, tool calls, usage and error are each reported if some value shows them, the
  finish reason is the first one given, and the end marker is a data line of its own.  Lines
  that do not parse, and the end marker's content, contribute nothing.
\<close>

theorem classify_frame_by_values:
  "classify_frame parse frame =
     \<lparr> fc_content = list_ex (\<lambda>v. delta_content (value_delta v ''content'')) (frame_values parse frame),
       fc_tool_calls = list_ex (\<lambda>v. delta_tool_calls (value_delta v ''tool_calls'')) (frame_values parse frame),
       fc_finish_reason = List.find (\<lambda>_. True) (List.map_filter value_finish (frame_values parse frame)),
       fc_done = list_ex (\<lambda>l. payload l = ''[DONE]'') (split_lf frame),
       fc_usage = list_ex value_usage (frame_values parse frame),
       fc_error = list_ex (\<lambda>v. j_get v ''error'' \<noteq> None) (frame_values parse frame) \<rparr>"
  by (rule frame_class.equality)
    (simp_all add: classify_frame_def classify_lines frame_class_empty_def frame_values_def)

end
