(* ===== verification/Lifecycle.thy ===== *)
theory Lifecycle
  imports DrrProps
begin

text \<open>
  The per-request lifecycle guard (src/scheduler/lifecycle.rs): the \<open>LifecycleGuard\<close> with
  its two cells, and the accounting its drop handler reports to the scheduler.  Lemmas: the
  net effect of a whole request on the flow's credit, on the event counters and on the
  progress tracker.
\<close>

record lifecycle =
  lc_flow :: flow_id
  lc_estimated :: i64
  lc_completed :: bool
  lc_delivered :: i64
  lc_tracked :: bool

definition lifecycle_new :: "flow_id \<Rightarrow> i64 \<Rightarrow> bool \<Rightarrow> sched \<Rightarrow> lifecycle \<times> sched" where
  "lifecycle_new f est tracked s =
     (\<lparr> lc_flow = f, lc_estimated = est, lc_completed = False, lc_delivered = 0, lc_tracked = tracked \<rparr>,
      s\<lparr>sd_met := inc_event ''request_started'' (sd_met s),
        sd_progress := (if tracked then progress_register f est (sd_progress s) else sd_progress s)\<rparr>)"

definition record_token :: "sched \<Rightarrow> sched" where
  "record_token s = s\<lparr>sd_met := inc_event ''token_received'' (sd_met s)\<rparr>"

definition add_delivered_tokens :: "i64 \<Rightarrow> lifecycle \<times> sched \<Rightarrow> lifecycle \<times> sched" where
  "add_delivered_tokens n gs = (let (g, s) = gs in
     (g\<lparr>lc_delivered := wrap_i64 (lc_delivered g + n)\<rparr>,
      (if lc_tracked g then s\<lparr>sd_progress := progress_update_delivered (lc_flow g) n (sd_progress s)\<rparr> else s)))"

definition mark_completed :: "lifecycle \<Rightarrow> lifecycle" where
  "mark_completed g = g\<lparr>lc_completed := True\<rparr>"

text \<open>The report of the drop handler: exact subtraction on completion, saturating on cancellation.\<close>

definition lifecycle_report :: "lifecycle \<Rightarrow> accounting_report" where
  "lifecycle_report g =
     (if lc_completed g then
        (if 0 < lc_delivered g then Completed (lc_delivered g) (wrap_i64 (lc_estimated g - lc_delivered g))
         else Completed (lc_estimated g) 0)
      else Cancelled (sat_i64 (lc_estimated g - lc_delivered g)))"

definition lifecycle_drop :: "nat \<Rightarrow> lifecycle \<Rightarrow> sched \<Rightarrow> sched" where
  "lifecycle_drop unix g s =
     (let s1 = (if lc_tracked g
                then s\<lparr>sd_progress := progress_unregister (lc_flow g) (lc_estimated g) (lc_delivered g) (sd_progress s)\<rparr>
                else s);
          s2 = s1\<lparr>sd_met := inc_event (if lc_completed g then ''request_completed'' else ''request_cancelled'') (sd_met s1)\<rparr>
      in report_accounting unix (lc_flow g) (lifecycle_report g) s2)"

section \<open>A whole request\<close>

text \<open>Usage frames arrive one by one; each reports tokens and is recorded.\<close>

definition deliver :: "i64 \<Rightarrow> lifecycle \<times> sched \<Rightarrow> lifecycle \<times> sched" where
  "deliver n gs = (let (g, s) = add_delivered_tokens n gs in (g, record_token s))"

definition run_request :: "nat \<Rightarrow> flow_id \<Rightarrow> i64 \<Rightarrow> i64 list \<Rightarrow> bool \<Rightarrow> sched \<Rightarrow> sched" where
  "run_request unix f est ds completed s =
     (let (g, s1) = fold deliver ds (lifecycle_new f est True s)
      in lifecycle_drop unix (if completed then mark_completed g else g) s1)"

text \<open>What the request is charged in the end.\<close>

definition charged :: "i64 \<Rightarrow> i64 list \<Rightarrow> bool \<Rightarrow> int" where
  "charged est ds completed = (if completed \<and> sum_list ds \<le> 0 then est else sum_list ds)"

lemma credit_of_report:
  "credit_of (sd_reg (report_accounting u f rep s)) g =
     (if g = f then wrap_i64 (credit_of (sd_reg s) f + restore_cost rep) else credit_of (sd_reg s) g)"
proof -
  let ?r = "snd (get_or_create u f (sd_reg s))"
  have "registered ?r f" by simp
  moreover have "credit_of ?r = credit_of (sd_reg s)" by (simp add: fun_eq_iff credit_of_view[of _ _ u])
  ultimately show ?thesis
    by (auto simp: report_accounting_eq set_credit_def Let_def credit_of_view[of _ _ u] reg_view_update)
qed

lemma deliver_frame:
  "lc_flow (fst (deliver n gs)) = lc_flow (fst gs)" "lc_estimated (fst (deliver n gs)) = lc_estimated (fst gs)"
  "lc_completed (fst (deliver n gs)) = lc_completed (fst gs)" "lc_tracked (fst (deliver n gs)) = lc_tracked (fst gs)"
  "lc_delivered (fst (deliver n gs)) = wrap_i64 (lc_delivered (fst gs) + n)"
  "sd_reg (snd (deliver n gs)) = sd_reg (snd gs)"
  by (simp_all add: deliver_def add_delivered_tokens_def record_token_def split_beta)

lemma deliver_all:
  "lc_flow (fst (fold deliver ds gs)) = lc_flow (fst gs) \<and> lc_estimated (fst (fold deliver ds gs)) = lc_estimated (fst gs)
   \<and> lc_completed (fst (fold deliver ds gs)) = lc_completed (fst gs) \<and> lc_tracked (fst (fold deliver ds gs)) = lc_tracked (fst gs)
   \<and> sd_reg (snd (fold deliver ds gs)) = sd_reg (snd gs)"
  by (induction ds arbitrary: gs) (simp_all add: deliver_frame)

lemma deliver_total:
  "in_i64 (lc_delivered (fst gs)) \<Longrightarrow>
     lc_delivered (fst (fold deliver ds gs)) = wrap_i64 (lc_delivered (fst gs) + sum_list ds)"
proof (induction ds arbitrary: gs)
  case (Cons d ds)
  then show ?case by (simp add: deliver_frame add.assoc)
qed simp

text \<open>The tracker of a flow with no other request, through the whole request.\<close>

lemma deliver_progress:
  assumes "lc_tracked (fst gs)" and "hget (sd_progress (snd gs)) (lc_flow (fst gs)) = Some e"
    and "pe_delivered e = lc_delivered (fst gs)"
  shows "\<exists>e'. hget (sd_progress (snd (fold deliver ds gs))) (lc_flow (fst gs)) = Some e'
    \<and> pe_delivered e' = lc_delivered (fst (fold deliver ds gs)) \<and> pe_estimated e' = pe_estimated e"
  using assms
proof (induction ds arbitrary: gs e)
  case (Cons d ds)
  have "hget (sd_progress (snd (deliver d gs))) (lc_flow (fst gs)) = Some (e\<lparr>pe_delivered := wrap_i64 (pe_delivered e + d)\<rparr>)"
    using Cons.prems by (simp add: deliver_def add_delivered_tokens_def record_token_def progress_update_delivered_def split_beta)
  from Cons.IH[of "deliver d gs", OF _ this[folded deliver_frame(1)[of d gs]]] show ?case
    using Cons.prems by (simp add: deliver_frame)
qed simp

lemma deliver_events:
  "counter (m_events (sd_met (snd (fold deliver ds gs)))) l =
     counter (m_events (sd_met (snd gs))) l + (if l = ''token_received'' then length ds else 0)"
  by (induction ds arbitrary: gs)
    (auto simp: deliver_def add_delivered_tokens_def record_token_def split_beta)

lemma report_frame:
  "m_events (sd_met (report_accounting u f rep s)) = m_events (sd_met s)"
  "sd_progress (report_accounting u f rep s) = sd_progress s"
  by (simp_all add: report_accounting_eq set_credit_def Let_def)

lemma lifecycle_drop_effect:
  "credit_of (sd_reg (lifecycle_drop u g s)) h =
     (if h = lc_flow g then wrap_i64 (credit_of (sd_reg s) h + restore_cost (lifecycle_report g)) else credit_of (sd_reg s) h)"
  "counter (m_events (sd_met (lifecycle_drop u g s))) l = counter (m_events (sd_met s)) l
     + (if l = (if lc_completed g then ''request_completed'' else ''request_cancelled'') then 1 else 0)"
  "sd_progress (lifecycle_drop u g s) = (if lc_tracked g
     then progress_unregister (lc_flow g) (lc_estimated g) (lc_delivered g) (sd_progress s) else sd_progress s)"
  by (auto simp: lifecycle_drop_def Let_def credit_of_report report_frame)

lemma report_restores:
  assumes "lc_estimated g = est" and "lc_delivered g = n" and "in_i64 (est - n)"
  shows "restore_cost (lifecycle_report g) = est - (if lc_completed g \<and> n \<le> 0 then est else n)"
  using assms by (simp add: lifecycle_report_def restore_cost_def)

text \<open>
  C9. Net accounting of a request: whatever usage frames arrive, and whether the request
  completes or is cancelled, the estimate debited at selection and the guard's report
  together charge the flow exactly the delivered tokens - or the whole estimate when the
  request completed without usage data.  No other flow's credit changes, exactly one
  completed or cancelled event is counted, and the flow's progress entry is gone again if
  this was its only request.  A cancelled request that delivered more than its estimate is charged the excess as well:
  \<open>saturating_sub\<close> saturates at the bounds of 64 bits and not at zero, as lat.md/scheduler_policies.md has it.  The report
  loads and stores the balance with no other write of it in between (theory Races has one that is lost).
\<close>

theorem request_net_charge:
  assumes "in_i64 est" and "in_i64 (sum_list ds)" and "in_i64 (est - sum_list ds)"
    and "credit_of (sd_reg s) f = wrap_i64 (c - est)" and "hget (sd_progress s) f = None"
  shows "credit_of (sd_reg (run_request u f est ds completed s)) h =
      (if h = f then wrap_i64 (c - charged est ds completed) else credit_of (sd_reg s) h)
    \<and> counter (m_events (sd_met (run_request u f est ds completed s))) l = counter (m_events (sd_met s)) l
       + (if l = ''request_started'' then 1 else if l = ''token_received'' then length ds
          else if l = (if completed then ''request_completed'' else ''request_cancelled'') then 1 else 0)
    \<and> hget (sd_progress (run_request u f est ds completed s)) f = None"
proof -
  define gs0 where "gs0 = lifecycle_new f est True s"
  define gs where "gs = fold deliver ds gs0"
  define g where "g = (if completed then mark_completed (fst gs) else fst gs)"
  have run: "run_request u f est ds completed s = lifecycle_drop u g (snd gs)"
    by (simp add: run_request_def gs_def gs0_def g_def split_beta)
  have g: "lc_flow g = f" "lc_estimated g = est" "lc_tracked g" "lc_completed g = completed"
    "lc_delivered g = sum_list ds" "sd_reg (snd gs) = sd_reg s"
    using deliver_all[of ds gs0] deliver_total[of gs0 ds] assms(2)
    by (simp_all add: g_def gs_def gs0_def lifecycle_new_def mark_completed_def)
  have "credit_of (sd_reg (run_request u f est ds completed s)) f
      = wrap_i64 (wrap_i64 (c - est) + (est - charged est ds completed))"
    using report_restores[OF g(2,5) assms(3)] assms(4) g
    by (simp add: run lifecycle_drop_effect charged_def)
  then have credit: "credit_of (sd_reg (run_request u f est ds completed s)) f = wrap_i64 (c - charged est ds completed)"
    by simp
  have other: "credit_of (sd_reg (run_request u f est ds completed s)) h = credit_of (sd_reg s) h" if "h \<noteq> f"
    using that g by (simp add: run lifecycle_drop_effect)
  have ev: "counter (m_events (sd_met (snd gs))) l = counter (m_events (sd_met s)) l
      + (if l = ''request_started'' then 1 else 0) + (if l = ''token_received'' then length ds else 0)"
    by (simp add: gs_def deliver_events gs0_def lifecycle_new_def)
  have e0: "hget (sd_progress (snd gs0)) f = Some \<lparr> pe_estimated = est, pe_delivered = 0 \<rparr>"
    using assms(1,5) by (simp add: gs0_def lifecycle_new_def progress_register_def)
  from deliver_progress[of gs0 _ ds] obtain e where e: "hget (sd_progress (snd gs)) f = Some e"
      "pe_delivered e = sum_list ds" "pe_estimated e = est"
    using e0 deliver_total[of gs0 ds] assms(2) by (auto simp: gs_def gs0_def lifecycle_new_def)
  have "hget (sd_progress (run_request u f est ds completed s)) f = None"
    using g e by (simp add: run lifecycle_drop_effect progress_unregister_eq Let_def)
  then show ?thesis using credit other ev g by (simp add: run lifecycle_drop_effect)
qed

theorem request_net_charge_witness:
  "credit_of (sd_reg (run_request 0 ''a'' 100 [3, 4] False ((ex_sched None 1)\<lparr>sd_reg :=
     reg_update ''a'' (\<lambda>fl. fl\<lparr>fl_credit := - 100\<rparr>) (sd_reg (ex_sched None 1))\<rparr>))) ''a'' = - 7"
proof -
  let ?s = "(ex_sched None 1)\<lparr>sd_reg := reg_update ''a'' (\<lambda>fl. fl\<lparr>fl_credit := - 100\<rparr>) (sd_reg (ex_sched None 1))\<rparr>"
  have "credit_of (sd_reg ?s) ''a'' = wrap_i64 (0 - 100)" "hget (sd_progress ?s) ''a'' = None"
    by (simp_all add: ex_sched_def credit_of_def reg_update_def reg_lookup_def wrap_i64_def progress_new_def hput_def)
  from request_net_charge[OF _ _ _ this, of "[3, 4]" 0 False "''a''"] show ?thesis
    by (simp add: in_i64_def i64_min_def i64_max_def charged_def wrap_i64_def)
qed

end
