(* ===== verification/Facade.thy ===== *)
theory Facade
  imports KvAdmission Cadence Lifecycle Monitor DrrSafety
begin

text \<open>
  The scheduler facade (src/scheduler/mod.rs) over the DRR scheduler, the KV gate and the
  cadence classifier, and the two admin endpoints that read and write it
  (src/api/flows.rs, src/api/queue.rs).  \<open>admit_with_turn_boundary\<close> is cut at its awaits:
  the part before the KV gate, the gate, and what follows it.  Lemmas: what each stage
  changes and in which order the rejections come.
\<close>

section \<open>State\<close>

record scheduler =
  sc_s :: sched
  sc_delayed :: u32
  sc_snapshot :: "backend_snapshot option"
  sc_cadence :: cadence_registry
  sc_stalled :: bool

record scheduler_env =
  se_drr :: drr_cfg
  se_kv :: kv_policy
  se_interactive :: nat

text \<open>\<open>Scheduler::new\<close> distributes the configuration to the components.\<close>

definition scheduler_new :: "u32 \<Rightarrow> backpressure_mode \<Rightarrow> nat \<Rightarrow> duration \<Rightarrow> duration \<Rightarrow> duration
    \<Rightarrow> completion_bias_cfg \<Rightarrow> kv_policy_cfg \<Rightarrow> priority_policy \<Rightarrow> priorities \<Rightarrow> kv_bias_cfg \<Rightarrow> kv_pressure_cfg
    \<Rightarrow> registry \<Rightarrow> metrics \<Rightarrow> backend_snapshot option \<Rightarrow> bool \<Rightarrow> scheduler_env \<times> scheduler" where
  "scheduler_new max_active mode max_depth max_wait base starvation cb kvc pol prios kvb kvp reg met snap stalled =
     (\<lparr> se_drr = \<lparr> dc_mode = mode, dc_max_queue_depth = max_depth, dc_max_wait = max_wait,
          dc_retry_after_base = base, dc_starvation_timeout = starvation,
          dc_gate = bias_gate_new cb (unat max_active) starvation, dc_kv_bias = kvb, dc_kv_pressure = kvp,
          dc_max_active_flows = unat max_active \<rparr>,
        se_kv = kv_policy_new kvc mode max_wait base max_depth, se_interactive = pr_interactive prios \<rparr>,
      \<lparr> sc_s = \<lparr> sd_drr = drr_new max_active, sd_reg = reg, sd_met = met, sd_queue = [], sd_progress = progress_new,
          sd_usage = map_option bs_kv_usage snap \<rparr>,
        sc_delayed = 0, sc_snapshot = snap,
        sc_cadence = \<lparr> cr_inner = [], cr_policy = pol, cr_classes = prios \<rparr>, sc_stalled = stalled \<rparr>)"

definition scheduler_queue_depth :: "scheduler \<Rightarrow> u32" where
  "scheduler_queue_depth sc = drr_queue_depth (sc_s sc) + sc_delayed sc"

definition scheduler_queue_snapshot :: "scheduler \<Rightarrow> queue_snapshot" where
  "scheduler_queue_snapshot sc = (let q = drr_queue_snapshot (sc_s sc)
     in q\<lparr>qs_waiting := qs_waiting q + unat (sc_delayed sc)\<rparr>)"

definition scheduler_credit :: "nat \<Rightarrow> flow_id \<Rightarrow> scheduler \<Rightarrow> i64 \<times> scheduler" where
  "scheduler_credit unix f sc = (let (fl, r) = get_or_create unix f (sd_reg (sc_s sc))
     in (fl_credit fl, sc\<lparr>sc_s := (sc_s sc)\<lparr>sd_reg := r\<rparr>\<rparr>))"

definition scheduler_reap_idle :: "nat \<Rightarrow> nat \<Rightarrow> scheduler \<Rightarrow> nat \<times> scheduler" where
  "scheduler_reap_idle now ttl sc =
     (let (removed, r) = reap_idle now ttl (sd_reg (sc_s sc));
          c = snd (cadence_reap_idle now ttl (sc_cadence sc))
      in (removed, sc\<lparr>sc_s := (sc_s sc)\<lparr>sd_reg := r\<rparr>, sc_cadence := c\<rparr>))"

section \<open>Admission\<close>

text \<open>
  Before the KV gate: the flow is created or refreshed, the arrival is recorded in the
  cadence classifier, the heuristic priority is written, and the priority metrics are set.
\<close>

definition set_priority_metrics :: "string \<Rightarrow> nat \<Rightarrow> cadence_state \<Rightarrow> duration option \<Rightarrow> metrics \<Rightarrow> metrics" where
  "set_priority_metrics l priority st gap m =
     (let m1 = m\<lparr>m_priority_class := hput l priority (m_priority_class m),
                 m_cadence_state := hput l (state_num st) (m_cadence_state m)\<rparr>
      in (case gap of Some g \<Rightarrow> m1\<lparr>m_inter_request := m_inter_request m1 @ [(l, g)]\<rparr> | None \<Rightarrow> m1))"

definition admit_prologue :: "flow_id \<Rightarrow> instant \<Rightarrow> nat \<Rightarrow> bool \<Rightarrow> scheduler \<Rightarrow> nat \<times> scheduler" where
  "admit_prologue f now unix is_turn_boundary sc =
     (let s = sc_s sc;
          (fl, r1) = get_or_create unix f (sd_reg s);
          (gap, c1) = record_arrival f now unix is_turn_boundary (sc_cadence sc);
          (fl2, c2) = classify_and_apply unix f fl c1;
          r2 = reg_update f (\<lambda>_. fl2) r1;
          (st, c3) = state_of unix f c2
      in (fl_priority fl2,
          sc\<lparr>sc_s := s\<lparr>sd_reg := r2,
                        sd_met := set_priority_metrics (metric_label f) (fl_priority fl2) st gap (sd_met s)\<rparr>,
             sc_cadence := c3\<rparr>))"

text \<open>\<open>Entered\<close>: the request holds a guard in the DRR scheduler; \<open>InKvGate\<close>: it waits for KV pressure.\<close>

datatype admit_outcome = Entered | InKvGate | Refused duration | Crashed

definition admit_inner :: "scheduler_env \<Rightarrow> flow_id \<Rightarrow> nat \<Rightarrow> scheduler \<Rightarrow> admit_outcome \<times> scheduler" where
  "admit_inner env f unix sc = (let (r, s) = admit_enter (se_drr env) unix f (sc_s sc); sc1 = sc\<lparr>sc_s := s\<rparr> in
     (case r of None \<Rightarrow> Entered | Some (Some d) \<Rightarrow> Refused d | Some None \<Rightarrow> Crashed, sc1))"

definition stall_retry_after :: duration where "stall_retry_after = secs 5"

text \<open>After the KV gate has let the request through: the stall gate, then the DRR scheduler.\<close>

definition admit_after_kv :: "scheduler_env \<Rightarrow> flow_id \<Rightarrow> nat \<Rightarrow> scheduler \<Rightarrow> admit_outcome \<times> scheduler" where
  "admit_after_kv env f unix sc =
     (if sc_stalled sc then (Refused stall_retry_after, sc) else admit_inner env f unix sc)"

definition admit_with_turn_boundary :: "scheduler_env \<Rightarrow> flow_id \<Rightarrow> instant \<Rightarrow> nat \<Rightarrow> bool \<Rightarrow> scheduler
    \<Rightarrow> admit_outcome \<times> scheduler" where
  "admit_with_turn_boundary env f now unix is_turn_boundary sc =
     (let (priority, sc1) = admit_prologue f now unix is_turn_boundary sc;
          s = sc_s sc1;
          (r, d, m) = kv_check_start (se_kv env) (priority = se_interactive env) (sc_snapshot sc1) (sc_delayed sc1) (sd_met s);
          sc2 = sc1\<lparr>sc_s := s\<lparr>sd_met := m\<rparr>, sc_delayed := d\<rparr>
      in case r of
           None \<Rightarrow> (InKvGate, sc2)
         | Some Proceed \<Rightarrow> admit_after_kv env f unix sc2
         | Some (Rejected after) \<Rightarrow> (Refused after, sc2)
         | Some Panicked \<Rightarrow> (Crashed, sc2))"

text \<open>The wait in the KV gate ends: with a snapshot below the threshold or the closed channel, or with the timeout.\<close>

definition admit_resume :: "scheduler_env \<Rightarrow> wait_result \<Rightarrow> flow_id \<Rightarrow> nat \<Rightarrow> scheduler \<Rightarrow> admit_outcome \<times> scheduler" where
  "admit_resume env w f unix sc =
     (let (a, d) = kv_wait_end (se_kv env) w (sc_delayed sc); sc1 = sc\<lparr>sc_delayed := d\<rparr> in
      case a of Proceed \<Rightarrow> admit_after_kv env f unix sc1
      | Rejected after \<Rightarrow> (Refused after, sc1)
      | Panicked \<Rightarrow> (Crashed, sc1))"

section \<open>The admin endpoints\<close>

record register_request =
  rr_id :: string
  rr_weight :: f64
  rr_priority :: nat

record register_response =
  rs_id :: string
  rs_weight :: f64
  rs_priority :: nat
  rs_status :: string
  rs_source :: nat

definition register_handler :: "nat \<Rightarrow> register_request \<Rightarrow> scheduler
    \<Rightarrow> (nat \<times> string + nat \<times> register_response) \<times> scheduler" where
  "register_handler unix req sc =
     (if f_le (rr_weight req) (Fin 0) then (Inl (400, ''weight must be greater than 0''), sc)
      else if 100 < rr_priority req then (Inl (400, ''priority must be between 0 and 100''), sc)
      else let s = sc_s sc; f = rr_id req;
               (is_new, r) = register_flow unix \<lparr> frg_id = f, frg_weight = rr_weight req, frg_priority = rr_priority req \<rparr> (sd_reg s);
               m = (sd_met s)\<lparr>m_priority_source := inc_label (metric_label f, ''admin'') (m_priority_source (sd_met s))\<rparr>
           in (Inr (if is_new then 201 else 200,
                 \<lparr> rs_id = f, rs_weight = rr_weight req, rs_priority = rr_priority req,
                   rs_status = (if is_new then ''created'' else ''updated''), rs_source = 2 \<rparr>),
               sc\<lparr>sc_s := s\<lparr>sd_reg := r, sd_met := m\<rparr>\<rparr>))"

definition queue_handler :: "scheduler \<Rightarrow> nat \<times> nat \<times> (string \<times> nat) list" where
  "queue_handler sc = (let q = scheduler_queue_snapshot sc in (qs_active q, qs_waiting q, qs_flows q))"

end
