(* ===== verification/RetryStream.thy ===== *)
theory RetryStream
  imports Retry Facade
begin

text \<open>
  The streaming task of src/gateway/stream.rs: \<open>spawn_retry_stream\<close> forwards the frames of
  a backend stream to the client and restarts the request on premature stops, on error frames and
  on early ends.  The task is a function of its environment: an attempt's stream is the list of
  what its reads return, retry requests and the client are answered by functions of the number of
  earlier requests and of forwarded frames.  The output channel never blocks for ever, so waiting for
  its capacity is not represented.
\<close>

section \<open>Token counts of a frame\<close>

definition usage_tokens :: "json \<Rightarrow> i64" where
  "usage_tokens v = (case j_get v ''usage'' of None \<Rightarrow> 0
     | Some u \<Rightarrow> (case Option.bind (j_get u ''completion_tokens'') j_as_i64 of Some n \<Rightarrow> n
       | None \<Rightarrow> (case Option.bind (j_get u ''total_tokens'') j_as_i64 of Some n \<Rightarrow> n | None \<Rightarrow> 0)))"

definition strip_data :: "string \<Rightarrow> string" where
  "strip_data line = (if starts_with line ''data: '' then drop 6 line
     else if starts_with line ''data:'' then drop 5 line else line)"

fun first_tokens :: "(string \<Rightarrow> json option) \<Rightarrow> string list \<Rightarrow> i64" where
  "first_tokens parse [] = 0"
| "first_tokens parse (l # ls) = (case parse (trim_ascii (strip_data l)) of
       None \<Rightarrow> first_tokens parse ls
     | Some v \<Rightarrow> (let t = usage_tokens v in if 0 < t then t else first_tokens parse ls))"

definition completion_tokens_from_frame :: "(string \<Rightarrow> json option) \<Rightarrow> string \<Rightarrow> i64" where
  "completion_tokens_from_frame parse frame = first_tokens parse (split_lf frame)"

section \<open>Environment and state\<close>

text \<open>
  What one turn of the read loop sees: the stall signal is set, or the next chunk with the time
  since the attempt began.  The end of the list is the end of the stream (or a read error).
\<close>

datatype read = Stalled | Chunk string duration

text \<open>
  \<open>en_send n body\<close> answers the n-th retry request: the stream of a response with a success status,
  or \<open>None\<close>.  \<open>en_gone n\<close>: the client has disconnected when frame n is sent.  \<open>en_print\<close> is
  \<open>serde_json::to_vec\<close>.
\<close>

record stream_env =
  en_parse :: "string \<Rightarrow> json option"
  en_print :: "json \<Rightarrow> string option"
  en_policy :: retry_policy
  en_transient :: transient_retry_cfg
  en_timeout :: "duration option"
  en_body :: string
  en_send :: "nat \<Rightarrow> string \<Rightarrow> read list option"
  en_gone :: "nat \<Rightarrow> bool"

record stream_state =
  st_out :: "string list"
  st_attempt :: nat
  st_transient :: nat
  st_sends :: "string list"
  st_sleeps :: "duration list"
  st_lc :: lifecycle
  st_sched :: sched

record attempt_flags =
  sf_content :: bool
  sf_tools :: bool
  sf_accepted :: bool

definition flags_new :: attempt_flags where
  "flags_new = \<lparr> sf_content = False, sf_tools = False, sf_accepted = False \<rparr>"

definition with_met :: "(metrics \<Rightarrow> metrics) \<Rightarrow> stream_state \<Rightarrow> stream_state" where
  "with_met f st = st\<lparr>st_sched := (st_sched st)\<lparr>sd_met := f (sd_met (st_sched st))\<rparr>\<rparr>"

definition send_out :: "stream_env \<Rightarrow> string \<Rightarrow> stream_state \<Rightarrow> bool \<times> stream_state" where
  "send_out env frame st = (if en_gone env (length (st_out st)) then (False, st)
     else (True, st\<lparr>st_out := st_out st @ [frame]\<rparr>))"

definition count_frame :: "stream_env \<Rightarrow> string \<Rightarrow> bool \<Rightarrow> stream_state \<Rightarrow> stream_state" where
  "count_frame env frame has_usage st =
     (let t = completion_tokens_from_frame (en_parse env) frame in
      if has_usage \<and> 0 < t then
        (let st1 = with_met (\<lambda>m. m\<lparr>m_tokens_generated := m_tokens_generated m + t\<rparr>) st;
             (g, s) = deliver t (st_lc st1, st_sched st1)
         in st1\<lparr>st_lc := g, st_sched := s\<rparr>)
      else st)"

definition count_and_forward_frame :: "stream_env \<Rightarrow> string \<Rightarrow> bool \<Rightarrow> stream_state \<Rightarrow> bool \<times> stream_state" where
  "count_and_forward_frame env frame has_usage st = send_out env frame (count_frame env frame has_usage st)"

section \<open>Retries\<close>

fun show_nat :: "nat \<Rightarrow> string" where
  "show_nat n = (if n < 10 then [char_of (48 + n)] else show_nat (n div 10) @ [char_of (48 + n mod 10)])"

declare show_nat.simps [simp del]

definition retry_notice :: "nat \<Rightarrow> string" where
  "retry_notice attempt = '': tinyllb: premature-stop retry attempt='' @ show_nat attempt @ '' fired ''
     @ [CHR 0xE2, CHR 0x80, CHR 0x94] @ '' discarded failed reasoning, retrying'' @ [lf, lf]"

text \<open>Re-forwarding the original request after a transient failure.\<close>

definition transient_resend :: "stream_env \<Rightarrow> stream_state \<Rightarrow> read list option \<times> stream_state" where
  "transient_resend env st =
     (let st1 = (with_met (\<lambda>m. m\<lparr>m_be_retries := m_be_retries m + 1\<rparr>) st)\<lparr>st_transient := st_transient st + 1\<rparr>;
          st2 = st1\<lparr>st_sleeps := st_sleeps st1 @ [transient_backoff (st_transient st1) (en_transient env)]\<rparr>;
          answer = en_send env (length (st_sends st2)) (en_body env);
          st3 = st2\<lparr>st_sends := st_sends st2 @ [en_body env]\<rparr>
      in (answer, if answer = None then with_met (\<lambda>m. m\<lparr>m_be_exhausted := m_be_exhausted m + 1\<rparr>) st3 else st3))"

text \<open>
  What handling a frame leads to: the next frame, \<open>continue 'retry\<close> on a new stream,
  \<open>break 'retry\<close>, the return because the client is gone, or a panic of the task.
\<close>

datatype frame_result = Go_on attempt_flags | Restart "read list" | Abort | Gone | Panic

definition ps_exhausted :: "stream_state \<Rightarrow> stream_state" where
  "ps_exhausted = with_met (\<lambda>m. m\<lparr>m_ps_exhausted := m_ps_exhausted m + 1\<rparr>)"

definition premature_start :: "stream_state \<Rightarrow> stream_state" where
  "premature_start st =
     (with_met (\<lambda>m. m\<lparr>m_ps_detected := m_ps_detected m + 1, m_ps_retries := m_ps_retries m + 1\<rparr>) st)
       \<lparr>st_attempt := st_attempt st + 1\<rparr>"

definition premature_send :: "stream_env \<Rightarrow> json \<Rightarrow> stream_state \<Rightarrow> frame_result \<times> stream_state" where
  "premature_send env retry_value st = (case en_print env retry_value of
       None \<Rightarrow> (Abort, ps_exhausted st)
     | Some body \<Rightarrow>
         (let st1 = st\<lparr>st_sends := st_sends st @ [body]\<rparr> in
          case en_send env (length (st_sends st)) body of
            Some script \<Rightarrow> (Restart script, st1)
          | None \<Rightarrow> (Abort, ps_exhausted st1)))"

definition premature_retry :: "stream_env \<Rightarrow> json \<Rightarrow> stream_state \<Rightarrow> frame_result \<times> stream_state" where
  "premature_retry env fwd st =
     (let st1 = premature_start st in
      case bump_temperature fwd (st_attempt st1) (en_policy env) of
        None \<Rightarrow> (Panic, st1)
      | Some retry_value \<Rightarrow>
          (case send_out env (retry_notice (st_attempt st1)) st1 of
             (False, st2) \<Rightarrow> (Gone, st2)
           | (True, st2) \<Rightarrow> premature_send env retry_value st2))"

section \<open>Frames\<close>

text \<open>\<open>can_retry\<close>, with the parsed request body.\<close>

definition retry_body :: "stream_env \<Rightarrow> json option" where
  "retry_body env = (if rp_enabled (en_policy env) \<and> 0 < rp_max_retries (en_policy env)
     then en_parse env (en_body env) else None)"

definition go_if :: "attempt_flags \<Rightarrow> bool \<times> stream_state \<Rightarrow> frame_result \<times> stream_state" where
  "go_if fl r = (if fst r then Go_on fl else Gone, snd r)"

definition budget_left :: "stream_env \<Rightarrow> stream_state \<Rightarrow> bool" where
  "budget_left env st \<longleftrightarrow> 0 < tr_max_attempts (en_transient env) \<and> st_transient st < tr_max_attempts (en_transient env)"

text \<open>A frame with a finish reason.\<close>

definition terminal_frame :: "stream_env \<Rightarrow> string \<Rightarrow> frame_class \<Rightarrow> string \<Rightarrow> attempt_flags \<Rightarrow> stream_state
    \<Rightarrow> frame_result \<times> stream_state" where
  "terminal_frame env frame cls fr fl st =
     (let empty_turn = stop_reason fr \<and> \<not> sf_content fl \<and> \<not> sf_tools fl;
          accept = (let st1 = (if empty_turn \<and> rp_max_retries (en_policy env) \<le> st_attempt st then ps_exhausted st else st)
                    in go_if (fl\<lparr>sf_accepted := True\<rparr>) (count_and_forward_frame env frame (fc_usage cls) st1))
      in if empty_turn \<and> st_attempt st < rp_max_retries (en_policy env)
         then (case retry_body env of Some fwd \<Rightarrow> premature_retry env fwd st | None \<Rightarrow> accept)
         else accept)"

text \<open>
  A frame before the accepted one.  The end marker and usage frames are sent only to an accepted
  stream, so here they are dropped.
\<close>

definition open_frame :: "stream_env \<Rightarrow> string \<Rightarrow> attempt_flags \<Rightarrow> stream_state \<Rightarrow> frame_result \<times> stream_state" where
  "open_frame env frame fl st =
     (let cls = classify_frame (en_parse env) frame;
          fl1 = fl\<lparr>sf_content := sf_content fl \<or> fc_content cls, sf_tools := sf_tools fl \<or> fc_tool_calls cls\<rparr>
      in if fc_error cls \<and> \<not> sf_content fl1 \<and> \<not> sf_tools fl1 \<and> budget_left env st
         then (case transient_resend env st of
                 (Some script, st1) \<Rightarrow> (Restart script, st1)
               | (None, st1) \<Rightarrow> (case send_out env frame st1 of (True, st2) \<Rightarrow> (Abort, st2) | (False, st2) \<Rightarrow> (Gone, st2)))
         else case fc_finish_reason cls of
                Some fr \<Rightarrow> terminal_frame env frame cls fr fl1 st
              | None \<Rightarrow> if fc_done cls \<or> fc_usage cls then (Go_on fl1, st) else go_if fl1 (send_out env frame st))"

definition handle_frame :: "stream_env \<Rightarrow> string \<Rightarrow> attempt_flags \<Rightarrow> stream_state \<Rightarrow> frame_result \<times> stream_state" where
  "handle_frame env frame fl st =
     (if sf_accepted fl
      then go_if fl (count_and_forward_frame env frame (fc_usage (classify_frame (en_parse env) frame)) st)
      else open_frame env frame fl st)"

fun handle_frames :: "stream_env \<Rightarrow> string list \<Rightarrow> attempt_flags \<Rightarrow> stream_state \<Rightarrow> frame_result \<times> stream_state" where
  "handle_frames env [] fl st = (Go_on fl, st)"
| "handle_frames env (f # fs) fl st = (case handle_frame env f fl st of
       (Go_on fl1, st1) \<Rightarrow> handle_frames env fs fl1 st1
     | r \<Rightarrow> r)"

section \<open>An attempt\<close>

datatype outcome = Eof | Deadline | Stall

datatype read_result = Finished outcome frame_parser attempt_flags | Jump frame_result

definition deadline_passed :: "stream_env \<Rightarrow> duration \<Rightarrow> bool" where
  "deadline_passed env elapsed = (case en_timeout env of Some t \<Rightarrow> t \<le> elapsed | None \<Rightarrow> False)"

fun read_loop :: "stream_env \<Rightarrow> read list \<Rightarrow> frame_parser \<Rightarrow> attempt_flags \<Rightarrow> stream_state \<Rightarrow> read_result \<times> stream_state" where
  "read_loop env [] buf fl st = (Finished Eof buf fl, st)"
| "read_loop env (Stalled # reads) buf fl st = (Finished Stall buf fl, st)"
| "read_loop env (Chunk c elapsed # reads) buf fl st =
     (if deadline_passed env elapsed then (Finished Deadline buf fl, st)
      else let (frames, buf1) = parser_feed c buf in
        (case handle_frames env frames fl st of
           (Go_on fl1, st1) \<Rightarrow> read_loop env reads buf1 fl1 st1
         | (r, st1) \<Rightarrow> (Jump r, st1)))"

fun send_all :: "stream_env \<Rightarrow> string list \<Rightarrow> stream_state \<Rightarrow> bool \<times> stream_state" where
  "send_all env [] st = (True, st)"
| "send_all env (f # fs) st = (case send_out env f st of (True, st1) \<Rightarrow> send_all env fs st1 | r \<Rightarrow> r)"

text \<open>How an attempt ends: another one follows, the loop is left with \<open>stream_ok\<close>, or the task ends at once.\<close>

datatype attempt_exit = Again "read list" | Over bool | Client_gone | Task_panic

definition after_eof :: "stream_env \<Rightarrow> attempt_flags \<Rightarrow> stream_state \<Rightarrow> attempt_exit \<times> stream_state" where
  "after_eof env fl st =
     (if sf_content fl \<or> sf_tools fl then (Over False, st)
      else if budget_left env st
      then (case transient_resend env st of (Some script, st1) \<Rightarrow> (Again script, st1) | (None, st1) \<Rightarrow> (Over False, st1))
      else (Over False, if 0 < tr_max_attempts (en_transient env)
                        then with_met (\<lambda>m. m\<lparr>m_be_exhausted := m_be_exhausted m + 1\<rparr>) st else st))"

definition end_attempt :: "stream_env \<Rightarrow> outcome \<Rightarrow> frame_parser \<Rightarrow> attempt_flags \<Rightarrow> stream_state
    \<Rightarrow> attempt_exit \<times> stream_state" where
  "end_attempt env out buf fl st = (case send_all env (parser_finish buf) st of
       (False, st1) \<Rightarrow> (Client_gone, st1)
     | (True, st1) \<Rightarrow>
         if sf_accepted fl then (Over True, st1\<lparr>st_lc := mark_completed (st_lc st1)\<rparr>)
         else (case out of Eof \<Rightarrow> after_eof env fl st1 | _ \<Rightarrow> (Over False, st1)))"

fun leave_attempt :: "frame_result \<Rightarrow> attempt_exit" where
  "leave_attempt (Restart script) = Again script"
| "leave_attempt Abort = Over False"
| "leave_attempt Gone = Client_gone"
| "leave_attempt Panic = Task_panic"
| "leave_attempt (Go_on fl) = Over (sf_accepted fl)"

definition run_attempt :: "stream_env \<Rightarrow> read list \<Rightarrow> stream_state \<Rightarrow> attempt_exit \<times> stream_state" where
  "run_attempt env script st = (case read_loop env script parser_new flags_new st of
       (Finished out buf fl, st1) \<Rightarrow> end_attempt env out buf fl st1
     | (Jump r, st1) \<Rightarrow> (leave_attempt r, st1))"

section \<open>The retry loop ends\<close>

text \<open>The retries that are left: what every restart consumes.\<close>

definition retries_left :: "stream_env \<Rightarrow> stream_state \<Rightarrow> nat" where
  "retries_left env st = (tr_max_attempts (en_transient env) - st_transient st) + (rp_max_retries (en_policy env) - st_attempt st)"

lemma send_out_frame [simp]:
  "st_attempt (snd (send_out env f st)) = st_attempt st" "st_transient (snd (send_out env f st)) = st_transient st"
  "st_sends (snd (send_out env f st)) = st_sends st" "st_sleeps (snd (send_out env f st)) = st_sleeps st"
  "st_lc (snd (send_out env f st)) = st_lc st" "st_sched (snd (send_out env f st)) = st_sched st"
  by (simp_all add: send_out_def)

lemma with_met_frame [simp]:
  "st_out (with_met h st) = st_out st" "st_attempt (with_met h st) = st_attempt st"
  "st_transient (with_met h st) = st_transient st" "st_sends (with_met h st) = st_sends st"
  "st_sleeps (with_met h st) = st_sleeps st" "st_lc (with_met h st) = st_lc st"
  "sd_met (st_sched (with_met h st)) = h (sd_met (st_sched st))"
  by (simp_all add: with_met_def)

lemma ps_exhausted_frame [simp]:
  "st_out (ps_exhausted st) = st_out st" "st_attempt (ps_exhausted st) = st_attempt st"
  "st_transient (ps_exhausted st) = st_transient st" "st_sends (ps_exhausted st) = st_sends st"
  "st_sleeps (ps_exhausted st) = st_sleeps st" "st_lc (ps_exhausted st) = st_lc st"
  by (simp_all add: ps_exhausted_def)

lemma count_frame_frame [simp]:
  "st_out (count_frame env f u st) = st_out st" "st_attempt (count_frame env f u st) = st_attempt st"
  "st_transient (count_frame env f u st) = st_transient st" "st_sends (count_frame env f u st) = st_sends st"
  "st_sleeps (count_frame env f u st) = st_sleeps st"
  by (simp_all add: count_frame_def Let_def split_beta)

text \<open>
  How far a piece of the loop may move the retry bookkeeping: not at all, or one retry with
  its request.
\<close>

definition quiet :: "stream_state \<Rightarrow> stream_state \<Rightarrow> bool" where
  "quiet st st' \<longleftrightarrow> st_attempt st' = st_attempt st \<and> st_transient st' = st_transient st \<and> st_sends st' = st_sends st
     \<and> st_sleeps st' = st_sleeps st"

definition one_retry :: "stream_env \<Rightarrow> stream_state \<Rightarrow> stream_state \<Rightarrow> bool" where
  "one_retry env st st' \<longleftrightarrow>
     st_transient st < tr_max_attempts (en_transient env) \<and> st_transient st' = Suc (st_transient st) \<and> st_attempt st' = st_attempt st
       \<and> st_sends st' = st_sends st @ [en_body env]
       \<and> st_sleeps st' = st_sleeps st @ [transient_backoff (Suc (st_transient st)) (en_transient env)]
   \<or> st_attempt st < rp_max_retries (en_policy env) \<and> st_attempt st' = Suc (st_attempt st) \<and> st_transient st' = st_transient st
       \<and> st_sleeps st' = st_sleeps st
       \<and> (st_sends st' = st_sends st \<or> (\<exists>v b. Option.bind (retry_body env) (\<lambda>f. bump_temperature f (st_attempt st') (en_policy env)) = Some v
             \<and> en_print env v = Some b \<and> st_sends st' = st_sends st @ [b]))"

lemma quiet_refl [simp]: "quiet st st"
  by (simp add: quiet_def)

lemma quiet_trans: "quiet st st1 \<Longrightarrow> quiet st1 st2 \<Longrightarrow> quiet st st2"
  by (simp add: quiet_def)

lemma quiet_one_retry: "quiet st st1 \<Longrightarrow> one_retry env st1 st2 \<Longrightarrow> one_retry env st st2"
  by (simp add: quiet_def one_retry_def)

lemma one_retry_quiet: "one_retry env st st1 \<Longrightarrow> quiet st1 st2 \<Longrightarrow> one_retry env st st2"
  by (simp add: quiet_def one_retry_def)

lemma quiet_send_out [simp]: "quiet st (snd (send_out env f st))"
  by (simp add: quiet_def)

lemma one_retry_decreases: "one_retry env st st' \<Longrightarrow> retries_left env st' < retries_left env st"
  by (auto simp: one_retry_def retries_left_def)

lemma resend_one_retry: "budget_left env st \<Longrightarrow> one_retry env st (snd (transient_resend env st))"
  by (auto simp: transient_resend_def Let_def budget_left_def one_retry_def)

lemma premature_start_frame [simp]:
  "st_attempt (premature_start st) = Suc (st_attempt st)" "st_transient (premature_start st) = st_transient st"
  "st_sends (premature_start st) = st_sends st" "st_sleeps (premature_start st) = st_sleeps st"
  "st_out (premature_start st) = st_out st" "st_lc (premature_start st) = st_lc st"
  by (simp_all add: premature_start_def)

lemma premature_send_frame:
  "st_attempt (snd (premature_send env v st)) = st_attempt st" "st_transient (snd (premature_send env v st)) = st_transient st"
  "st_sleeps (snd (premature_send env v st)) = st_sleeps st" "st_out (snd (premature_send env v st)) = st_out st"
  "st_lc (snd (premature_send env v st)) = st_lc st"
  "st_sends (snd (premature_send env v st)) = st_sends st @ (case en_print env v of Some b \<Rightarrow> [b] | None \<Rightarrow> [])"
  by (auto simp: premature_send_def Let_def split: option.split)

lemma premature_retry_cases:
  obtains (panic) "bump_temperature fwd (Suc (st_attempt st)) (en_policy env) = None"
      "premature_retry env fwd st = (Panic, premature_start st)"
  | (gone) v where "bump_temperature fwd (Suc (st_attempt st)) (en_policy env) = Some v"
      "premature_retry env fwd st = (Gone, premature_start st)" "en_gone env (length (st_out st))"
  | (sent) v where "bump_temperature fwd (Suc (st_attempt st)) (en_policy env) = Some v" "\<not> en_gone env (length (st_out st))"
      "premature_retry env fwd st = premature_send env v
         ((premature_start st)\<lparr>st_out := st_out st @ [retry_notice (Suc (st_attempt st))]\<rparr>)"
  by (cases "bump_temperature fwd (Suc (st_attempt st)) (en_policy env)"; cases "en_gone env (length (st_out st))")
    (simp_all add: premature_retry_def send_out_def Let_def)

lemma premature_one_retry:
  assumes "st_attempt st < rp_max_retries (en_policy env)" and "retry_body env = Some fwd"
  shows "one_retry env st (snd (premature_retry env fwd st))"
  using assms
  by (cases rule: premature_retry_cases[of fwd st env])
    (auto simp: one_retry_def premature_send_frame split: option.split)

lemma count_and_forward_quiet [simp]: "quiet st (snd (count_and_forward_frame env f u st))"
  by (simp add: count_and_forward_frame_def quiet_def)

lemma go_if_snd [simp]: "snd (go_if fl r) = snd r"
  by (simp add: go_if_def)

definition frame_moves :: "stream_env \<Rightarrow> stream_state \<Rightarrow> frame_result \<times> stream_state \<Rightarrow> bool" where
  "frame_moves env st r \<longleftrightarrow> (case r of (Go_on fl, st') \<Rightarrow> quiet st st' | (Restart s, st') \<Rightarrow> one_retry env st st'
     | (_, st') \<Rightarrow> quiet st st' \<or> one_retry env st st')"

lemma frame_moves_quiet: "quiet st st1 \<Longrightarrow> frame_moves env st1 r \<Longrightarrow> frame_moves env st r"
  using quiet_trans[of st st1 "snd r"] quiet_one_retry[of st st1 env "snd r"]
  by (cases r; cases "fst r") (auto simp: frame_moves_def)

lemma frame_moves_go_on: "frame_moves env st (Go_on fl, st') \<longleftrightarrow> quiet st st'"
  by (simp add: frame_moves_def)

lemma frame_moves_go_if [simp]: "frame_moves env st (go_if fl r) \<longleftrightarrow> quiet st (snd r)"
  if "quiet st (snd r)"
  using that by (simp add: frame_moves_def go_if_def)

lemma premature_no_go_on: "fst (premature_retry env fwd st) \<noteq> Go_on fl"
  by (cases rule: premature_retry_cases[of fwd st env]) (auto simp: premature_send_def Let_def split: option.split)

lemma terminal_moves: "frame_moves env st (terminal_frame env f cls fr fl st)"
proof -
  have acc: "quiet st (snd (count_and_forward_frame env f u (if b then ps_exhausted st else st)))" for u b
    by (simp add: count_and_forward_frame_def quiet_def)
  have "frame_moves env st (premature_retry env fwd st)"
    if "st_attempt st < rp_max_retries (en_policy env)" "retry_body env = Some fwd" for fwd
    using premature_one_retry[OF that] premature_no_go_on[of env fwd st]
    by (cases "fst (premature_retry env fwd st)") (auto simp: frame_moves_def split_beta)
  then show ?thesis using acc by (auto simp: terminal_frame_def Let_def split: option.split)
qed

lemma open_moves: "frame_moves env st (open_frame env f fl st)"
proof -
  have resend: "frame_moves env st (case transient_resend env st of (Some script, st1) \<Rightarrow> (Restart script, st1)
      | (None, st1) \<Rightarrow> (case send_out env f st1 of (True, st2) \<Rightarrow> (Abort, st2) | (False, st2) \<Rightarrow> (Gone, st2)))"
    if "budget_left env st"
    using resend_one_retry[OF that] one_retry_quiet[OF resend_one_retry[OF that] quiet_send_out[of _ env f]]
    by (auto simp: frame_moves_def split: prod.split option.split bool.split)
  show ?thesis
    using resend terminal_moves by (simp add: open_frame_def Let_def frame_moves_go_on split: option.split)
qed

lemma handle_moves: "frame_moves env st (handle_frame env f fl st)"
  using open_moves by (simp add: handle_frame_def)

lemma frames_moves: "frame_moves env st (handle_frames env fs fl st)"
proof (induction fs arbitrary: fl st)
  case (Cons f fs)
  show ?case
  proof (cases "handle_frame env f fl st")
    case (Pair r st1)
    have m: "frame_moves env st (r, st1)" using handle_moves[of env st f fl] Pair by simp
    show ?thesis
    proof (cases r)
      case (Go_on fl1)
      then have q: "quiet st st1" using m by (simp add: frame_moves_def)
      have "frame_moves env st (handle_frames env fs fl1 st1)" by (rule frame_moves_quiet[OF q Cons.IH])
      then show ?thesis using Go_on Pair by simp
    qed (use m Pair in simp_all)
  qed
qed (simp add: frame_moves_def)

definition attempt_moves :: "stream_env \<Rightarrow> stream_state \<Rightarrow> attempt_exit \<times> stream_state \<Rightarrow> bool" where
  "attempt_moves env st r \<longleftrightarrow> (case r of (Again s, st') \<Rightarrow> one_retry env st st' | (_, st') \<Rightarrow> quiet st st' \<or> one_retry env st st')"

lemma attempt_moves_quiet: "quiet st st1 \<Longrightarrow> attempt_moves env st1 r \<Longrightarrow> attempt_moves env st r"
  using quiet_trans[of st st1 "snd r"] quiet_one_retry[of st st1 env "snd r"]
  by (cases r; cases "fst r") (auto simp: attempt_moves_def)

lemma read_moves:
  "case read_loop env reads buf fl st of (Finished out b fl', st') \<Rightarrow> quiet st st' | (Jump r, st') \<Rightarrow> frame_moves env st (r, st')
     \<and> (\<forall>fl. r \<noteq> Go_on fl)"
proof (induction env reads buf fl st rule: read_loop.induct)
  case (3 env c elapsed reads buf fl st)
  show ?case
  proof (cases "deadline_passed env elapsed")
    case False
    obtain frames buf1 where p: "parser_feed c buf = (frames, buf1)" by fastforce
    obtain r st1 where h: "handle_frames env frames fl st = (r, st1)" by fastforce
    have m: "frame_moves env st (r, st1)" using frames_moves[of env st frames fl] h by simp
    show ?thesis
    proof (cases r)
      case (Go_on fl1)
      then have q: "quiet st st1" using m by (simp add: frame_moves_def)
      show ?thesis using 3[OF False p[symmetric] refl h[symmetric] Go_on] False p h Go_on quiet_trans[OF q] frame_moves_quiet[OF q]
        by (auto split: prod.splits read_result.splits)
    qed (use False p h m in simp_all)
  qed simp
qed simp_all

lemma send_all_quiet: "quiet st (snd (send_all env fs st))"
proof (induction fs arbitrary: st)
  case (Cons f fs)
  then show ?case using quiet_trans[OF quiet_send_out[of st env f]]
    by (auto split: prod.split bool.split)
qed simp

lemma eof_moves: "attempt_moves env st (after_eof env fl st)"
  using resend_one_retry[of env st]
  by (auto simp: after_eof_def attempt_moves_def quiet_def split: prod.split option.split)

lemma end_moves: "attempt_moves env st (end_attempt env out buf fl st)"
proof -
  obtain ok st1 where s: "send_all env (parser_finish buf) st = (ok, st1)" by fastforce
  then have q: "quiet st st1" using send_all_quiet by (metis snd_conv)
  have "attempt_moves env st (after_eof env fl st1)"
    by (rule attempt_moves_quiet[OF q eof_moves])
  then show ?thesis using s q
    by (auto simp: end_attempt_def attempt_moves_def quiet_def split: bool.split outcome.split)
qed

lemma run_moves: "attempt_moves env st (run_attempt env script st)"
proof (cases "read_loop env script parser_new flags_new st")
  case (Pair rr st1)
  show ?thesis
  proof (cases rr)
    case (Finished out buf fl)
    then have "quiet st st1" using read_moves[where env = env and reads = script and buf = parser_new and fl = flags_new and st = st] Pair by simp
    from attempt_moves_quiet[OF this end_moves] show ?thesis using Pair Finished by (simp add: run_attempt_def)
  next
    case (Jump r)
    then show ?thesis using read_moves[where env = env and reads = script and buf = parser_new and fl = flags_new and st = st] Pair
      by (cases r) (auto simp: run_attempt_def attempt_moves_def frame_moves_def)
  qed
qed

lemma again_decreases: "run_attempt env script st = (Again script1, st1) \<Longrightarrow> retries_left env st1 < retries_left env st"
  using run_moves[of env st script] by (simp add: attempt_moves_def one_retry_decreases)

function retry_loop :: "stream_env \<Rightarrow> read list \<Rightarrow> stream_state \<Rightarrow> attempt_exit \<times> stream_state" where
  "retry_loop env script st = (case run_attempt env script st of
       (Again script1, st1) \<Rightarrow> retry_loop env script1 st1
     | r \<Rightarrow> r)"
  by pat_completeness auto
termination
proof (relation "measure (\<lambda>(env, script, st). retries_left env st)")
  fix env script st ae st1 script1
  assume "(ae, st1) = run_attempt env script st" and "ae = Again script1"
  then have "retries_left env st1 < retries_left env st" using again_decreases by metis
  then show "((env, script1, st1), env, script, st) \<in> measure (\<lambda>(env, script, st). retries_left env st)"
    by simp
qed simp

declare retry_loop.simps [simp del]

section \<open>The task\<close>

text \<open>
  How the client sees the body end: a clean close, an error, or not at all because it left.  A
  panicking task drops the channel without an error, so the body closes cleanly.
\<close>

datatype body_end = Closed | Broken | Dropped

definition body_end_of :: "stream_env \<Rightarrow> attempt_exit \<Rightarrow> stream_state \<Rightarrow> body_end" where
  "body_end_of env x st = (case x of
       Over ok \<Rightarrow> if ok then Closed else if en_gone env (length (st_out st)) then Dropped else Broken
     | Client_gone \<Rightarrow> Dropped
     | Task_panic \<Rightarrow> Closed
     | Again _ \<Rightarrow> Broken)"

definition active_guard_new :: "sched \<Rightarrow> sched" where
  "active_guard_new s = s\<lparr>sd_met := (sd_met s)\<lparr>m_requests_active := m_requests_active (sd_met s) + 1\<rparr>\<rparr>"

definition active_guard_drop :: "sched \<Rightarrow> sched" where
  "active_guard_drop s = s\<lparr>sd_met := (sd_met s)\<lparr>m_requests_active := m_requests_active (sd_met s) - 1\<rparr>\<rparr>"

text \<open>The guards are dropped in reverse order of their declaration.\<close>

definition finish_task :: "nat \<Rightarrow> lifecycle \<Rightarrow> sched \<Rightarrow> sched" where
  "finish_task unix g s = active_guard_drop (ticket_drop (lc_flow g) (lifecycle_drop unix g s))"

definition stream_start :: "lifecycle \<Rightarrow> sched \<Rightarrow> stream_state" where
  "stream_start g s = \<lparr> st_out = [], st_attempt = 0, st_transient = 0, st_sends = [], st_sleeps = [],
     st_lc = g, st_sched = active_guard_new s \<rparr>"

abbreviation task_state :: "body_end \<times> stream_state \<times> sched \<Rightarrow> stream_state" where
  "task_state r \<equiv> fst (snd r)"

abbreviation after_task :: "body_end \<times> stream_state \<times> sched \<Rightarrow> sched" where
  "after_task r \<equiv> snd (snd r)"

definition spawn_retry_stream :: "nat \<Rightarrow> stream_env \<Rightarrow> read list \<Rightarrow> lifecycle \<Rightarrow> sched
    \<Rightarrow> body_end \<times> stream_state \<times> sched" where
  "spawn_retry_stream unix env script g s =
     (let (x, st) = retry_loop env script (stream_start g s)
      in (body_end_of env x st, st, finish_task unix (st_lc st) (st_sched st)))"

end
