(* ===== verification/Request.thy ===== *)
theory Request
  imports Identify Backpressure Sse Retry RetryStream
begin

text \<open>
  The pure parts of the proxy handler (src/gateway/proxy.rs) and the error responses
  (src/gateway/error.rs): header filtering, what is read from and injected into request
  bodies, the size guard, and the mapping of errors to responses.  JSON parsing and
  printing and the joining of URLs are arguments.  Lemmas: exactly which headers are forwarded, what an
  injection changes, and which bodies are refused.
\<close>

section \<open>Headers\<close>

definition hop_by_hop :: "string list" where
  "hop_by_hop = [''connection'', ''keep-alive'', ''proxy-authenticate'', ''proxy-authorization'', ''te'',
     ''trailers'', ''transfer-encoding'', ''upgrade'']"

definition exclude_headers :: "string list" where
  "exclude_headers = [''host'']"

fun split_by :: "char \<Rightarrow> string \<Rightarrow> string list" where
  "split_by d [] = [[]]"
| "split_by d (c # cs) = (if c = d then [] # split_by d cs
     else case split_by d cs of l # ls \<Rightarrow> (c # l) # ls | [] \<Rightarrow> [[c]])"

definition connection_names :: "header_map \<Rightarrow> string list" where
  "connection_names hs = (case hdr_str hs ''connection'' of Some v \<Rightarrow> map trim (split_by (CHR '','') v) | None \<Rightarrow> [])"

definition filter_headers :: "header_map \<Rightarrow> header_map" where
  "filter_headers hs = (let exclude = hop_by_hop @ exclude_headers @ connection_names hs
     in filter (\<lambda>(n, v). n \<notin> set exclude) hs)"

definition hdr_remove :: "string \<Rightarrow> header_map \<Rightarrow> header_map" where
  "hdr_remove name hs = filter (\<lambda>(n, v). n \<noteq> name) hs"

definition hdr_insert :: "string \<Rightarrow> string \<Rightarrow> header_map \<Rightarrow> header_map" where
  "hdr_insert name v hs = hdr_remove name hs @ [(name, v)]"

definition filter_response_headers_streaming :: "header_map \<Rightarrow> header_map" where
  "filter_response_headers_streaming hs = hdr_remove ''content-length'' (filter_headers hs)"

section \<open>Bodies\<close>

definition body_wants_streaming :: "(string \<Rightarrow> json option) \<Rightarrow> string \<Rightarrow> bool" where
  "body_wants_streaming parse body = (if body = [] then False else
     case parse body of Some value \<Rightarrow> (case Option.bind (j_get value ''stream'') j_as_bool of Some b \<Rightarrow> b | None \<Rightarrow> False)
     | None \<Rightarrow> False)"

definition with_include_usage :: "(string \<times> json) list \<Rightarrow> (string \<times> json) list" where
  "with_include_usage m = (case map_of m ''stream_options'' of
       Some (JObj o1) \<Rightarrow> obj_insert ''stream_options'' (JObj (obj_insert ''include_usage'' (JBool True) o1)) m
     | Some _ \<Rightarrow> m
     | None \<Rightarrow> obj_insert ''stream_options'' (JObj [(''include_usage'', JBool True)]) m)"

definition inject_include_usage :: "(string \<Rightarrow> json option) \<Rightarrow> (json \<Rightarrow> string option) \<Rightarrow> string \<Rightarrow> string option" where
  "inject_include_usage parse print body = (case Option.bind (parse body) j_as_object of None \<Rightarrow> None
     | Some m \<Rightarrow>
         if Option.bind (map_of m ''stream'') j_as_bool \<noteq> Some True then None
         else if Option.bind (Option.bind (map_of m ''stream_options'') (\<lambda>o1. j_get o1 ''include_usage'')) j_as_bool = Some True
         then None
         else print (JObj (with_include_usage m)))"

definition inject_id_slot :: "(string \<Rightarrow> json option) \<Rightarrow> (json \<Rightarrow> string option) \<Rightarrow> string \<Rightarrow> nat \<Rightarrow> string option" where
  "inject_id_slot parse print body slot = (case Option.bind (parse body) j_as_object of None \<Rightarrow> None
     | Some m \<Rightarrow> print (JObj (obj_insert ''id_slot'' (JNum (PosInt slot)) m)))"

definition extract_max_tokens :: "(string \<Rightarrow> json option) \<Rightarrow> string \<Rightarrow> f64" where
  "extract_max_tokens parse body = (if body = [] then lit 1024 else
     case parse body of Some value \<Rightarrow> (case Option.bind (j_get value ''max_tokens'') j_as_f64 of Some x \<Rightarrow> x | None \<Rightarrow> lit 1024)
     | None \<Rightarrow> lit 1024)"

definition is_turn_boundary_request :: "(string \<Rightarrow> json option) \<Rightarrow> string \<Rightarrow> bool" where
  "is_turn_boundary_request parse body = (if body = [] then True else
     case parse body of None \<Rightarrow> True
     | Some value \<Rightarrow> (case Option.bind (j_get value ''messages'') j_as_array of
         Some m \<Rightarrow> if m = [] then True
           else (let role = (case Option.bind (j_get (last m) ''role'') j_as_str of Some r \<Rightarrow> r | None \<Rightarrow> [])
                 in role \<noteq> ''tool'' \<and> role \<noteq> ''assistant'')
       | None \<Rightarrow> True))"

definition is_inference_request :: "string \<Rightarrow> string \<Rightarrow> bool" where
  "is_inference_request http_method path \<longleftrightarrow> http_method = ''POST'' \<and> (path = ''/v1/chat/completions'' \<or> path = ''/v1/completions'')"

definition extract_completion_tokens :: "(string \<Rightarrow> json option) \<Rightarrow> string \<Rightarrow> i64" where
  "extract_completion_tokens parse body = (case parse body of Some v \<Rightarrow> usage_tokens v | None \<Rightarrow> 0)"

section \<open>Errors and responses\<close>

datatype proxy_error = Network net_error | Internal string | TooLarge | RejectedAfter duration | Timeout

record response =
  re_status :: nat
  re_headers :: header_map
  re_body :: string

definition text_response :: "nat \<Rightarrow> string \<Rightarrow> response" where
  "text_response code msg = \<lparr> re_status = code, re_headers = [(''content-type'', ''text/plain; charset=utf-8'')], re_body = msg \<rparr>"

definition into_response :: "proxy_error \<Rightarrow> response" where
  "into_response e = (case e of
       Network _ \<Rightarrow> text_response 502 ''Bad Gateway''
     | Internal msg \<Rightarrow> text_response 500 msg
     | TooLarge \<Rightarrow> text_response 413 ''Request body too large''
     | RejectedAfter d \<Rightarrow> \<lparr> re_status = 429,
         re_headers = [(''retry-after'', show_nat (as_unsigned 64 (f_ceil (as_secs_f64 d)))), (''content-type'', ''application/json'')],
         re_body = [CHR 0x7B, CHR 0x22] @ ''error'' @ [CHR 0x22, CHR '':'', CHR 0x22] @ ''queue full'' @ [CHR 0x22, CHR 0x7D] \<rparr>
     | Timeout \<Rightarrow> text_response 408 ''Request timed out'')"

text \<open>\<open>build_backend_url\<close>: joining and setting the query are library code.\<close>

definition build_backend_url :: "('u \<Rightarrow> string \<Rightarrow> string + 'u) \<Rightarrow> ('u \<Rightarrow> string \<Rightarrow> 'u) \<Rightarrow> 'u \<Rightarrow> string \<Rightarrow> string option
    \<Rightarrow> proxy_error + 'u" where
  "build_backend_url join set_query base path query = (case join base path of
       Inl e \<Rightarrow> Inl (Internal (''failed to build backend URL for '' @ [CHR 0x27] @ path @ [CHR 0x27] @ '': '' @ e))
     | Inr u \<Rightarrow> Inr (case query of Some q \<Rightarrow> set_query u q | None \<Rightarrow> u))"

section \<open>The size guard\<close>

definition max_body_size :: nat where "max_body_size = 32 * 1024 * 1024"

definition parse_u64 :: "string \<Rightarrow> nat option" where
  "parse_u64 s = (let ds = (case s of c # cs \<Rightarrow> if c = CHR ''+'' then cs else s | [] \<Rightarrow> s) in
     if ds \<noteq> [] \<and> list_all is_digit ds \<and> digits_value ds < 2 ^ 64 then Some (digits_value ds) else None)"

text \<open>What reading the request body yields: its bytes, or a failure of the connection.\<close>

datatype body_read = Body string | ReadFailed string

definition read_body :: "header_map \<Rightarrow> body_read \<Rightarrow> proxy_error + string" where
  "read_body hs body =
     (if (case Option.bind (hdr_str hs ''content-length'') parse_u64 of Some n \<Rightarrow> max_body_size < n | None \<Rightarrow> False)
      then Inl TooLarge
      else case body of
        ReadFailed e \<Rightarrow> Inl (Internal (''failed to read request body: '' @ e))
      | Body b \<Rightarrow> if max_body_size < length b then Inl TooLarge
                  else if max_body_size \<le> length b then Inl TooLarge else Inr b)"

section \<open>Properties\<close>

text \<open>
  The forwarded headers are exactly the original ones, in order and unchanged, without the
  hop-by-hop headers, \<open>host\<close>, and the names listed in the first \<open>Connection\<close> header; on the
  streaming path \<open>content-length\<close> goes too.
\<close>

theorem filter_headers_exact:
  "set (filter_headers hs) = {(n, v) \<in> set hs. n \<notin> set hop_by_hop \<and> n \<noteq> ''host'' \<and> n \<notin> set (connection_names hs)}
   \<and> filter_headers (filter_headers hs) = filter_headers hs
   \<and> filter_response_headers_streaming hs = filter (\<lambda>(n, v). n \<noteq> ''content-length'') (filter_headers hs)"
proof -
  have "hdr_get (filter_headers hs) ''connection'' = None"
    by (auto simp: hdr_get_def map_of_eq_None_iff filter_headers_def hop_by_hop_def Let_def)
  then have "connection_names (filter_headers hs) = []" by (simp add: connection_names_def hdr_str_def)
  then have "filter_headers (filter_headers hs) = filter (\<lambda>(n, v). n \<notin> set (hop_by_hop @ exclude_headers)) (filter_headers hs)"
    unfolding filter_headers_def[of "filter_headers hs"] by (simp add: Let_def)
  also have "\<dots> = filter_headers hs"
    by (auto simp: filter_headers_def Let_def intro!: filter_cong)
  finally show ?thesis
    by (auto simp: filter_headers_def exclude_headers_def filter_response_headers_streaming_def hdr_remove_def Let_def)
qed

lemma split_by_single: "d \<notin> set s \<Longrightarrow> split_by d s = [s]"
  by (induction s) auto

text \<open>The pieces of a string are what stands between two separators, or between one and an end.\<close>

lemma split_by_nonempty: "split_by d x \<noteq> []"
  by (cases x) (auto split: list.split)

lemma split_by_append: "split_by d (x @ d # y) = split_by d x @ split_by d y"
proof (induction x)
  case (Cons c x)
  then show ?case using split_by_nonempty[of d x] by (auto split: list.split)
qed simp

lemma split_by_pieces:
  "p \<in> set (split_by d s) \<longleftrightarrow> d \<notin> set p \<and> (\<exists>a b. s = a @ p @ b \<and> (a = [] \<or> last a = d) \<and> (b = [] \<or> hd b = d))"
proof
  show "p \<in> set (split_by d s) \<Longrightarrow> d \<notin> set p \<and> (\<exists>a b. s = a @ p @ b \<and> (a = [] \<or> last a = d) \<and> (b = [] \<or> hd b = d))"
  proof (induction s rule: length_induct)
    case (1 s)
    show ?case
    proof (cases "d \<in> set s")
      case False
      then show ?thesis using 1 by (intro conjI exI[of _ "[]"]) (simp_all add: split_by_single)
    next
      case True
      then obtain x y where s: "s = x @ d # y" "d \<notin> set x" by (blast dest: split_list_first)
      then consider "p = x" | "p \<in> set (split_by d y)" using 1(2) by (auto simp: split_by_append split_by_single)
      then show ?thesis
      proof cases
        case 1
        then show ?thesis using s by (intro conjI exI[of _ "[]"] exI[of _ "d # y"]) simp_all
      next
        case 2
        have "length y < length s" using s by simp
        from 1(1)[rule_format, OF this 2] obtain a b where "d \<notin> set p" "y = a @ p @ b" "a = [] \<or> last a = d" "b = [] \<or> hd b = d"
          by blast
        then show ?thesis using s by (intro conjI exI[of _ "x @ d # a"] exI[of _ b]) auto
      qed
    qed
  qed
next
  assume "d \<notin> set p \<and> (\<exists>a b. s = a @ p @ b \<and> (a = [] \<or> last a = d) \<and> (b = [] \<or> hd b = d))"
  then obtain a b where p: "split_by d p = [p]" and s: "s = a @ p @ b" "a = [] \<or> last a = d" "b = [] \<or> hd b = d"
    by (auto simp: split_by_single)
  have "p \<in> set (split_by d (p @ b))" using s(3) p by (cases b) (auto simp: split_by_append)
  moreover have "set (split_by d (p @ b)) \<subseteq> set (split_by d (a @ p @ b))"
  proof (cases a rule: rev_cases)
    case (snoc a1 c)
    then show ?thesis using s(2) split_by_append[of d a1 "p @ b"] by simp
  qed simp
  ultimately show "p \<in> set (split_by d s)" using s(1) by blast
qed

text \<open>
  Names in the Connection header are compared by case: header names are lower case, so a
  connection-specific header that the client lists with a capital letter is forwarded to the backend.
\<close>

theorem capital_connection_name_forwarded:
  assumes "hdr_str hs ''connection'' = Some tok" and "CHR '','' \<notin> set tok" and "to_ascii_lowercase (trim tok) = n"
    and "trim tok \<noteq> n" and "(n, v) \<in> set hs" and "n \<notin> set hop_by_hop" and "n \<noteq> ''host''"
  shows "(n, v) \<in> set (filter_headers hs)"
  using assms by (auto simp: filter_headers_def connection_names_def split_by_single exclude_headers_def Let_def)

theorem capital_connection_name_forwarded_witness:
  "(''x-trace'', ''1'') \<in> set (filter_headers [(''connection'', ''X-Trace''), (''x-trace'', ''1'')])"
proof (rule capital_connection_name_forwarded[of _ "''X-Trace''"])
  show "to_ascii_lowercase (trim ''X-Trace'') = ''x-trace''" "trim ''X-Trace'' \<noteq> ''x-trace''" by code_simp+
qed (simp_all add: hdr_str_def hdr_get_def hdr_to_str_def byte_of_def hop_by_hop_def)

definition asks_usage :: "(string \<times> json) list \<Rightarrow> bool" where
  "asks_usage m \<longleftrightarrow>
     Option.bind (Option.bind (map_of m ''stream_options'') (\<lambda>o1. j_get o1 ''include_usage'')) j_as_bool = Some True"

lemma inject_include_usage_core:
  "parse body = Some (JObj m) \<Longrightarrow> inject_include_usage parse print body =
      (if Option.bind (map_of m ''stream'') j_as_bool = Some True \<and> \<not> asks_usage m then print (JObj (with_include_usage m)) else None)"
  by (simp add: inject_include_usage_def asks_usage_def)

lemma with_include_usage_other: "k = ''stream_options'' \<or> map_of (with_include_usage m) k = map_of m k"
  by (auto simp: with_include_usage_def split: option.split json.split)

lemma with_include_usage_asks:
  "asks_usage (with_include_usage m) \<longleftrightarrow> (case map_of m ''stream_options'' of Some o1 \<Rightarrow> j_as_object o1 \<noteq> None | None \<Rightarrow> True)"
proof (cases "map_of m ''stream_options''")
  case (Some o1)
  then show ?thesis by (cases o1) (simp_all add: with_include_usage_def asks_usage_def)
qed (simp add: with_include_usage_def asks_usage_def)

text \<open>
  Asking the backend for usage data: a request body is rewritten exactly if it is an object with
  \<open>stream: true\<close> that does not ask for usage yet; every other key keeps its value; and the
  rewritten body asks for usage - except when \<open>stream_options\<close> is present but no
  object (\<open>null\<close>, say), which is sent as it is, so the backend reports no usage.
\<close>

theorem inject_include_usage_spec:
  assumes "parse body = Some (JObj m)"
  shows "inject_include_usage parse print body =
      (if Option.bind (map_of m ''stream'') j_as_bool = Some True \<and> \<not> asks_usage m then print (JObj (with_include_usage m)) else None)
    \<and> (k = ''stream_options'' \<or> map_of (with_include_usage m) k = map_of m k)
    \<and> (asks_usage (with_include_usage m) \<longleftrightarrow> (case map_of m ''stream_options'' of Some o1 \<Rightarrow> j_as_object o1 \<noteq> None | None \<Rightarrow> True))"
  using inject_include_usage_core[of parse body m print, OF assms] with_include_usage_other with_include_usage_asks by blast

theorem inject_include_usage_spec_witness:
  "inject_include_usage (\<lambda>_. Some (JObj [(''stream'', JBool True), (''stream_options'', JNull)])) (\<lambda>_. Some ''out'') ''in'' = Some ''out''
   \<and> \<not> asks_usage (with_include_usage [(''stream'', JBool True), (''stream_options'', JNull)])"
  using inject_include_usage_spec[of "\<lambda>_. Some (JObj [(''stream'', JBool True), (''stream_options'', JNull)])" "''in''"
      "[(''stream'', JBool True), (''stream_options'', JNull)]" "\<lambda>_. Some ''out''"]
  by (simp add: asks_usage_def)

text \<open>
  The size guard: a body is accepted exactly if it was read completely, is shorter than 32 MiB, and no
  larger size was declared; a body of exactly 32 MiB may be declared but is refused after
  it has been read, with the error for a body that is too large.
\<close>

theorem body_size_guard:
  "(read_body hs r = Inr b \<longleftrightarrow> r = Body b \<and> length b < max_body_size
      \<and> (case Option.bind (hdr_str hs ''content-length'') parse_u64 of Some n \<Rightarrow> n \<le> max_body_size | None \<Rightarrow> True))
   \<and> read_body [] (Body (replicate max_body_size c)) = Inl TooLarge"
  by (cases r) (auto simp: read_body_def hdr_str_def hdr_get_def not_le split: option.split)

lemma as_secs_f64_bounds:
  assumes "d div nanos_per_sec \<le> 2 ^ 52"
  shows "\<exists>y. as_secs_f64 d = Fin y \<and> of_nat (d div nanos_per_sec) \<le> y \<and> y \<le> of_nat (d div nanos_per_sec) + 1"
proof -
  let ?q = "d div nanos_per_sec" and ?m = "d mod nanos_per_sec"
  have m: "?m < nanos_per_sec" by (simp add: nanos_per_sec_def)
  have fr: "f_div (f_of_nat ?m) (f_of_nat nanos_per_sec) = rnd (of_nat ?m / of_nat nanos_per_sec)"
    using m by (simp add: f_of_nat_exact f_div_def nanos_per_sec_def)
  have "(of_nat ?m :: rat) / of_nat nanos_per_sec \<le> 1" using m by (simp add: nanos_per_sec_def)
  then obtain t where t: "rnd (of_nat ?m / of_nat nanos_per_sec) = Fin t" "0 \<le> t" "t \<le> 1"
    using f_le_Fin01[OF rnd_unit[of "of_nat ?m / of_nat nanos_per_sec"]] by auto
  have eq: "as_secs_f64 d = rnd (of_nat ?q + t)" using assms by (simp add: as_secs_f64_def fr t f_of_nat_exact)
  have "rnd (of_nat ?q) = Fin (of_nat ?q)" "rnd (of_nat (?q + 1)) = Fin (of_nat (?q + 1))"
    using assms f_of_nat_exact[of ?q] f_of_nat_exact[of "?q + 1"] by (simp_all add: f_of_nat_def)
  moreover have "f_le (rnd (of_nat ?q)) (rnd (of_nat ?q + t))" "f_le (rnd (of_nat ?q + t)) (rnd (of_nat (?q + 1)))"
    using t by (intro rnd_mono; simp)+
  ultimately show ?thesis unfolding eq by (cases "rnd (of_nat ?q + t)") auto
qed

text \<open>
  The error responses: each kind of failure has its own status, and a rejection carries a
  \<open>Retry-After\<close> of whole seconds, never fewer than those of the delay, at most one more,
  and exactly the delay if it is a whole number of seconds.
\<close>

theorem error_responses:
  assumes "d div nanos_per_sec \<le> 2 ^ 52"
  shows "map (\<lambda>e. re_status (into_response e)) [Network ne, Internal msg, TooLarge, RejectedAfter d, Timeout] = [502, 500, 413, 429, 408]
    \<and> (\<exists>k. hdr_get (re_headers (into_response (RejectedAfter d))) ''retry-after'' = Some (show_nat k)
          \<and> d div nanos_per_sec \<le> k \<and> k \<le> d div nanos_per_sec + 1 \<and> (0 < d mod nanos_per_sec \<or> k = d div nanos_per_sec))"
proof (rule conjI)
  show "map (\<lambda>e. re_status (into_response e)) [Network ne, Internal msg, TooLarge, RejectedAfter d, Timeout] = [502, 500, 413, 429, 408]"
    by (simp add: into_response_def text_response_def)
  let ?q = "d div nanos_per_sec"
  obtain y where y: "as_secs_f64 d = Fin y" "of_nat ?q \<le> y" "y \<le> of_nat ?q + 1" using as_secs_f64_bounds[OF assms] by blast
  define k where "k = nat \<lceil>y\<rceil>"
  have c: "int ?q \<le> \<lceil>y\<rceil>" "\<lceil>y\<rceil> \<le> int ?q + 1" using y by (auto simp: le_ceiling_iff ceiling_le_iff intro: le_less_trans)
  have "?q + 1 < 2 ^ 64" using assms by simp
  then have k: "as_unsigned 64 (f_ceil (as_secs_f64 d)) = k" using c by (simp add: y(1) k_def)
  have "k = ?q" if "d mod nanos_per_sec = 0"
  proof -
    have "d = secs ?q" using that div_mult_mod_eq[of d nanos_per_sec] by (simp add: secs_def nanos_per_sec_def)
    then have "y = of_nat ?q" using as_secs_f64_whole[of ?q] assms y(1) by simp
    then show ?thesis by (simp add: k_def)
  qed
  then show "\<exists>k. hdr_get (re_headers (into_response (RejectedAfter d))) ''retry-after'' = Some (show_nat k)
      \<and> ?q \<le> k \<and> k \<le> ?q + 1 \<and> (0 < d mod nanos_per_sec \<or> k = ?q)"
    using c k by (intro exI[of _ k]) (auto simp: into_response_def hdr_get_def k_def)
qed

theorem error_responses_witness:
  "re_status (into_response (RejectedAfter 1500000000)) = 429"
  using error_responses[of 1500000000 "\<lparr> ne_connect = True, ne_chain = [] \<rparr>" "[]"] by (simp add: nanos_per_sec_def)

end
