(* ===== verification/RetryStreamProps.thy ===== *)
theory RetryStreamProps
  imports RetryStream
begin

text \<open>
  Properties of the streaming task.  Two locales carry an invariant through an attempt and through
  the retry loop; their interpretations bound the retries, tie a clean close of the body to a
  terminal frame, and show what a restarted attempt may have sent.
\<close>

section \<open>Invariants of an attempt and of the loop\<close>

locale attempt_rule =
  fixes env :: stream_env
    and I :: "attempt_flags \<Rightarrow> stream_state \<Rightarrow> bool"
    and E :: "attempt_exit \<Rightarrow> stream_state \<Rightarrow> bool"
  assumes frame: "I fl st \<Longrightarrow> handle_frame env f fl st = (Go_on fl1, st1) \<Longrightarrow> I fl1 st1"
    and jump: "I fl st \<Longrightarrow> handle_frame env f fl st = (r, st1) \<Longrightarrow> (\<And>fl1. r \<noteq> Go_on fl1) \<Longrightarrow> E (leave_attempt r) st1"
    and finish: "I fl st \<Longrightarrow> find_delimiter buf = None \<Longrightarrow> end_attempt env out buf fl st = (x, st1) \<Longrightarrow> E x st1"
begin

lemma frames:
  "I fl st \<Longrightarrow> handle_frames env fs fl st = (r, st1) \<Longrightarrow>
     (case r of Go_on fl1 \<Rightarrow> I fl1 st1 | _ \<Rightarrow> E (leave_attempt r) st1)"
proof (induction fs arbitrary: fl st)
  case (Cons f fs)
  obtain r0 st0 where h: "handle_frame env f fl st = (r0, st0)" by fastforce
  show ?case
  proof (cases r0)
    case (Go_on fl0)
    then have "I fl0 st0" using frame Cons.prems(1) h by blast
    then show ?thesis using Cons.IH[of fl0 st0] Cons.prems(2) h Go_on by simp
  qed (use jump[OF Cons.prems(1) h] Cons.prems(2) h in auto)
qed auto

lemma reads:
  "I fl st \<Longrightarrow> find_delimiter buf = None \<Longrightarrow> read_loop env script buf fl st = (r, st1) \<Longrightarrow>
     (case r of Finished out b fl1 \<Rightarrow> I fl1 st1 \<and> find_delimiter b = None | Jump j \<Rightarrow> E (leave_attempt j) st1)"
proof (induction script arbitrary: buf fl st)
  case (Cons rd script)
  show ?case
  proof (cases rd)
    case Stalled
    then show ?thesis using Cons.prems by auto
  next
    case (Chunk c elapsed)
    obtain fs b where p: "parser_feed c buf = (fs, b)" by fastforce
    then have "find_delimiter b = None" using extract_rest[of "buf @ c"] by (simp add: parser_feed_def)
    moreover obtain j st0 where h: "handle_frames env fs fl st = (j, st0)" by fastforce
    ultimately show ?thesis using frames[OF Cons.prems(1) h] Cons Chunk p by (cases j) (auto split: if_splits)
  qed
qed auto

lemma attempt: "I flags_new st \<Longrightarrow> run_attempt env script st = (x, st1) \<Longrightarrow> E x st1"
  using reads[of flags_new st parser_new script] finish
  by (cases "read_loop env script parser_new flags_new st"; cases "fst (read_loop env script parser_new flags_new st)")
    (auto simp: run_attempt_def parser_new_def)

end

locale loop_rule = attempt_rule +
  assumes restart: "E (Again script) st \<Longrightarrow> I flags_new st"
begin

lemma loop: "I flags_new st \<Longrightarrow> retry_loop env script st = (x, st1) \<Longrightarrow> E x st1 \<and> (\<forall>s. x \<noteq> Again s)"
proof (induction "retries_left env st" arbitrary: script st rule: less_induct)
  case less
  obtain y st2 where r: "run_attempt env script st = (y, st2)" by fastforce
  note e = attempt[OF less.prems(1) r]
  show ?case
  proof (cases y)
    case (Again script2)
    have "retry_loop env script2 st2 = (x, st1)"
      using less.prems(2) r Again by (simp add: retry_loop.simps[of env script st])
    with less.hyps[OF again_decreases[OF r[unfolded Again]] restart[OF e[unfolded Again]]] show ?thesis by blast
  qed (use less.prems(2) r e in \<open>auto simp: retry_loop.simps[of env script st]\<close>)
qed

end

section \<open>The retry budget\<close>

text \<open>The request bodies a retry may send, and the bookkeeping of the retries so far.\<close>

definition retry_request :: "stream_env \<Rightarrow> string \<Rightarrow> bool" where
  "retry_request env b \<longleftrightarrow> b = en_body env
     \<or> (\<exists>fwd k v. retry_body env = Some fwd \<and> k \<le> rp_max_retries (en_policy env)
          \<and> bump_temperature fwd k (en_policy env) = Some v \<and> en_print env v = Some b)"

definition book_ok :: "stream_env \<Rightarrow> stream_state \<Rightarrow> bool" where
  "book_ok env st \<longleftrightarrow> st_transient st \<le> tr_max_attempts (en_transient env) \<and> st_attempt st \<le> rp_max_retries (en_policy env)
     \<and> length (st_sends st) \<le> st_transient st + st_attempt st
     \<and> st_sleeps st = map (\<lambda>k. transient_backoff (Suc k) (en_transient env)) [0..<st_transient st]
     \<and> list_all (retry_request env) (st_sends st)"

lemma retry_request_body [simp]: "retry_request env (en_body env)"
  by (simp add: retry_request_def)

lemma retry_request_bumped:
  "retry_body env = Some fwd \<Longrightarrow> k < rp_max_retries (en_policy env) \<Longrightarrow> bump_temperature fwd (Suc k) (en_policy env) = Some v
     \<Longrightarrow> en_print env v = Some b \<Longrightarrow> retry_request env b"
  unfolding retry_request_def using Suc_leI by blast

lemma book_quiet: "book_ok env st \<Longrightarrow> quiet st st' \<Longrightarrow> book_ok env st'"
  by (simp add: book_ok_def quiet_def)

lemma book_one_retry: "book_ok env st \<Longrightarrow> one_retry env st st' \<Longrightarrow> book_ok env st'"
  by (auto simp: book_ok_def one_retry_def bind_eq_Some_conv intro: retry_request_bumped)

lemma book_frame: "book_ok env st \<Longrightarrow> frame_moves env st (r, st') \<Longrightarrow> book_ok env st'"
  using book_quiet[of env st st'] book_one_retry[of env st st'] by (cases r) (auto simp: frame_moves_def)

lemma book_attempt: "book_ok env st \<Longrightarrow> attempt_moves env st (x, st') \<Longrightarrow> book_ok env st'"
  using book_quiet[of env st st'] book_one_retry[of env st st'] by (cases x) (auto simp: attempt_moves_def)

interpretation book: loop_rule env "\<lambda>_. book_ok env" "\<lambda>_. book_ok env" for env
  by unfold_locales (metis book_frame handle_moves, metis book_frame handle_moves, metis book_attempt end_moves)

text \<open>
  C12. The retries of a stream are bounded: however the backend and the client behave, the
  task ends, with at most \<open>max_retries + max_attempts\<close> requests beyond the first; each
  sends the original body or one with a bumped temperature, and the pauses before the
  transient ones are the backoff sequence from its start.
\<close>

theorem stream_retries_bounded:
  "let st = task_state (spawn_retry_stream unix env script g s) in
     length (st_sends st) \<le> rp_max_retries (en_policy env) + tr_max_attempts (en_transient env)
     \<and> st_attempt st \<le> rp_max_retries (en_policy env) \<and> st_transient st \<le> tr_max_attempts (en_transient env)
     \<and> list_all (retry_request env) (st_sends st)
     \<and> st_sleeps st = map (\<lambda>k. transient_backoff (Suc k) (en_transient env)) [0..<st_transient st]"
proof -
  obtain x st where r: "retry_loop env script (stream_start g s) = (x, st)" by fastforce
  have "book_ok env (stream_start g s)" by (simp add: book_ok_def stream_start_def)
  from book.loop[OF this r] have "book_ok env st" by simp
  then show ?thesis using r by (auto simp: book_ok_def spawn_retry_stream_def)
qed

section \<open>Closing the body\<close>

definition is_terminal :: "stream_env \<Rightarrow> string \<Rightarrow> bool" where
  "is_terminal env f \<longleftrightarrow> fc_finish_reason (classify_frame (en_parse env) f) \<noteq> None"

text \<open>No accounting has happened yet: only metrics of the retries themselves have moved.\<close>

definition frozen :: "lifecycle \<Rightarrow> sched \<Rightarrow> stream_state \<Rightarrow> bool" where
  "frozen g s st \<longleftrightarrow> st_lc st = g \<and> (\<exists>m. st_sched st = s\<lparr>sd_met := m\<rparr>
     \<and> m_tokens_generated m = m_tokens_generated (sd_met s) \<and> m_events m = m_events (sd_met s))"

definition bumpable :: "stream_env \<Rightarrow> bool" where
  "bumpable env \<longleftrightarrow> (case retry_body env of None \<Rightarrow> True | Some v \<Rightarrow> v = JNull \<or> j_as_object v \<noteq> None)"

definition closing_inv :: "stream_env \<Rightarrow> lifecycle \<Rightarrow> sched \<Rightarrow> attempt_flags \<Rightarrow> stream_state \<Rightarrow> bool" where
  "closing_inv env g s fl st \<longleftrightarrow> lc_completed (st_lc st) = lc_completed g
     \<and> (if sf_accepted fl then list_ex (is_terminal env) (st_out st) else frozen g s st)"

definition closing_end :: "stream_env \<Rightarrow> lifecycle \<Rightarrow> sched \<Rightarrow> attempt_exit \<Rightarrow> stream_state \<Rightarrow> bool" where
  "closing_end env g s x st \<longleftrightarrow> (case x of
       Again _ \<Rightarrow> frozen g s st
     | Over ok \<Rightarrow> if ok then lc_completed (st_lc st) \<and> list_ex (is_terminal env) (st_out st) else frozen g s st
     | Client_gone \<Rightarrow> lc_completed (st_lc st) = lc_completed g
     | Task_panic \<Rightarrow> frozen g s st \<and> \<not> bumpable env)"

lemma frozen_with_met:
  "frozen g s st \<Longrightarrow> m_tokens_generated (h (sd_met (st_sched st))) = m_tokens_generated (sd_met (st_sched st))
     \<Longrightarrow> m_events (h (sd_met (st_sched st))) = m_events (sd_met (st_sched st)) \<Longrightarrow> frozen g s (with_met h st)"
  by (auto simp: frozen_def with_met_def)

lemma frozen_fields [simp]:
  "frozen g s (st\<lparr>st_out := a\<rparr>) = frozen g s st" "frozen g s (st\<lparr>st_sends := b\<rparr>) = frozen g s st"
  "frozen g s (st\<lparr>st_sleeps := c\<rparr>) = frozen g s st" "frozen g s (st\<lparr>st_transient := d\<rparr>) = frozen g s st"
  "frozen g s (st\<lparr>st_attempt := d\<rparr>) = frozen g s st"
  by (simp_all add: frozen_def)

lemma frozen_pieces:
  assumes "frozen g s st"
  shows "frozen g s (ps_exhausted st)" "frozen g s (premature_start st)" "frozen g s (snd (send_out env f st))"
    "frozen g s (snd (transient_resend env st))"
  using assms by (simp_all add: ps_exhausted_def premature_start_def send_out_def transient_resend_def Let_def frozen_with_met)

lemma frozen_premature_send: "frozen g s st \<Longrightarrow> frozen g s (snd (premature_send env v st))"
  by (auto simp: premature_send_def Let_def frozen_pieces split: option.split)

lemma frozen_premature: "frozen g s st \<Longrightarrow> frozen g s (snd (premature_retry env fwd st))"
  by (cases rule: premature_retry_cases[of fwd st env]) (simp_all add: frozen_pieces frozen_premature_send)

lemma deliver_completed: "lc_completed (fst (deliver n gs)) = lc_completed (fst gs)"
  by (simp add: deliver_frame)

lemma count_frame_completed [simp]: "lc_completed (st_lc (count_frame env f u st)) = lc_completed (st_lc st)"
  by (simp add: count_frame_def Let_def split_beta deliver_completed)

lemma forward_out:
  "count_and_forward_frame env f u st = (ok, st1) \<Longrightarrow> lc_completed (st_lc st1) = lc_completed (st_lc st)
     \<and> st_out st1 = st_out st @ (if ok then [f] else [])"
  by (auto simp: count_and_forward_frame_def send_out_def split: if_splits)

text \<open>The invariant through the pieces of a frame.\<close>

definition closing_frame :: "stream_env \<Rightarrow> lifecycle \<Rightarrow> sched \<Rightarrow> frame_result \<times> stream_state \<Rightarrow> bool" where
  "closing_frame env g s r \<longleftrightarrow> (case r of (Go_on fl, st) \<Rightarrow> closing_inv env g s fl st
     | (j, st) \<Rightarrow> closing_end env g s (leave_attempt j) st)"

lemma closing_open:
  "\<not> sf_accepted fl \<Longrightarrow> closing_frame env g s (Go_on fl, st) \<longleftrightarrow> lc_completed (st_lc st) = lc_completed g \<and> frozen g s st"
  by (simp add: closing_frame_def closing_inv_def)

lemma closing_forward:
  assumes "lc_completed (st_lc st) = lc_completed g" and "list_ex (is_terminal env) (st_out st @ [f])"
  shows "closing_frame env g s (go_if (fl\<lparr>sf_accepted := True\<rparr>) (count_and_forward_frame env f u st))"
proof -
  obtain ok st1 where c: "count_and_forward_frame env f u st = (ok, st1)" by fastforce
  from forward_out[OF c] assms show ?thesis
    by (cases ok) (simp_all add: c go_if_def closing_frame_def closing_inv_def closing_end_def)
qed

lemma closing_premature:
  assumes "frozen g s st" and "retry_body env = Some fwd"
  shows "closing_frame env g s (premature_retry env fwd st)"
proof -
  note fz = frozen_premature[OF assms(1), of env fwd]
  have g: "frozen g s st1 \<Longrightarrow> lc_completed (st_lc st1) = lc_completed g" for st1 by (simp add: frozen_def)
  have np: "fst (premature_send env v st1) \<noteq> Panic" for v st1
    by (auto simp: premature_send_def Let_def split: option.split)
  have b: "\<not> bumpable env" if "bump_temperature fwd k (en_policy env) = None" for k
    using that assms(2) by (simp add: bumpable_def bump_temperature_panics)
  show ?thesis
  proof (cases rule: premature_retry_cases[of fwd st env])
    case panic
    then show ?thesis using fz b by (simp add: closing_frame_def closing_end_def)
  next
    case (gone v)
    then show ?thesis using g[OF assms(1)] by (simp add: closing_frame_def closing_end_def)
  next
    case (sent v)
    let ?r = "premature_retry env fwd st"
    have "fst ?r \<noteq> Panic" using sent(3) np by simp
    then show ?thesis using fz g[OF fz] premature_no_go_on[of env fwd st]
      by (cases ?r; cases "fst ?r") (simp_all add: closing_frame_def closing_end_def)
  qed
qed

lemma closing_terminal:
  assumes "frozen g s st" and "\<not> sf_accepted fl" and "is_terminal env f"
  shows "closing_frame env g s (terminal_frame env f cls fr fl st)"
proof -
  have "closing_frame env g s (go_if (fl\<lparr>sf_accepted := True\<rparr>)
      (count_and_forward_frame env f u (if b then ps_exhausted st else st)))" for u b
    using assms(1,3) by (intro closing_forward) (auto simp: frozen_def)
  from this[where b = True] this[where b = False] show ?thesis using closing_premature[OF assms(1)]
    by (simp add: terminal_frame_def Let_def split: option.split)
qed

lemma closing_send:
  assumes "frozen g s st" and "\<not> sf_accepted fl"
  shows "closing_frame env g s (go_if fl (send_out env f st))"
  using assms by (auto simp: go_if_def send_out_def closing_frame_def closing_inv_def closing_end_def frozen_def)

lemma closing_resend:
  assumes "frozen g s st"
  shows "closing_frame env g s (case transient_resend env st of (Some script, st1) \<Rightarrow> (Restart script, st1)
      | (None, st1) \<Rightarrow> (case send_out env f st1 of (True, st2) \<Rightarrow> (Abort, st2) | (False, st2) \<Rightarrow> (Gone, st2)))"
proof -
  obtain a st1 where r: "transient_resend env st = (a, st1)" by fastforce
  then have fz: "frozen g s st1" using frozen_pieces(4)[OF assms, of env] by simp
  then have "st_lc st1 = g" by (simp add: frozen_def)
  then show ?thesis using r fz
    by (cases a; cases "en_gone env (length (st_out st1))") (simp_all add: send_out_def closing_frame_def closing_end_def)
qed

lemma closing_handle:
  assumes "closing_inv env g s fl st"
  shows "closing_frame env g s (handle_frame env f fl st)"
proof (cases "sf_accepted fl")
  case True
  have "fl\<lparr>sf_accepted := True\<rparr> = fl" using True by simp
  note fwd = closing_forward[of st g env f s fl, unfolded this]
  show ?thesis using True assms fwd by (simp add: handle_frame_def closing_inv_def)
next
  case False
  let ?fl = "fl\<lparr>sf_content := a, sf_tools := b\<rparr>"
  have fz: "frozen g s st" using assms False by (simp add: closing_inv_def)
  have "closing_frame env g s (open_frame env f fl st)"
    using closing_resend[OF fz] closing_terminal[OF fz] closing_send[OF fz] False fz
    by (auto simp: open_frame_def Let_def closing_open is_terminal_def frozen_def split: option.split)
  then show ?thesis using False by (simp add: handle_frame_def)
qed

lemma frozen_send_all: "send_all env fs st = (ok, st1) \<Longrightarrow> st_lc st1 = st_lc st \<and> st_sched st1 = st_sched st
    \<and> (\<exists>out. st_out st1 = st_out st @ out)"
proof (induction fs arbitrary: st)
  case (Cons f fs)
  show ?case using Cons.prems Cons.IH
    by (cases "en_gone env (length (st_out st))") (fastforce simp: send_out_def)+
qed simp

lemma closing_finish:
  assumes "closing_inv env g s fl st" and "end_attempt env out buf fl st = (x, st1)"
  shows "closing_end env g s x st1"
proof -
  obtain ok st0 where sa: "send_all env (parser_finish buf) st = (ok, st0)" by fastforce
  then obtain more where e: "st_lc st0 = st_lc st" "st_sched st0 = st_sched st" "st_out st0 = st_out st @ more"
    using frozen_send_all by blast
  have inv0: "closing_inv env g s fl st0" using assms(1) e by (auto simp: closing_inv_def frozen_def split: if_splits)
  show ?thesis
  proof (cases "ok \<and> \<not> sf_accepted fl")
    case True
    then have fz: "frozen g s st0" using inv0 by (simp add: closing_inv_def)
    have "frozen g s (with_met (\<lambda>m. m\<lparr>m_be_exhausted := m_be_exhausted m + 1\<rparr>) st0)" by (rule frozen_with_met[OF fz]) simp_all
    then have "case after_eof env fl st0 of (y, st2) \<Rightarrow> (y = Over False \<or> (\<exists>sc. y = Again sc)) \<and> frozen g s st2"
      using fz frozen_pieces(4)[OF fz, of env] by (auto simp: after_eof_def split: prod.split option.split)
    then show ?thesis using assms(2) sa True fz
      by (auto simp: end_attempt_def closing_end_def split: outcome.splits)
  next
    case False
    then show ?thesis using assms(2) sa inv0
      by (cases ok) (auto simp: end_attempt_def closing_end_def closing_inv_def mark_completed_def)
  qed
qed

interpretation closing: loop_rule env "closing_inv env g s" "closing_end env g s" for env g s
proof unfold_locales
  fix fl st f fl1 st1
  assume "closing_inv env g s fl st" and "handle_frame env f fl st = (Go_on fl1, st1)"
  then show "closing_inv env g s fl1 st1" using closing_handle[of env g s fl st f] by (simp add: closing_frame_def)
next
  fix fl st f r st1
  assume "closing_inv env g s fl st" and "handle_frame env f fl st = (r, st1)" and "\<And>fl1. r \<noteq> Go_on fl1"
  then show "closing_end env g s (leave_attempt r) st1"
    using closing_handle[of env g s fl st f] by (cases r) (auto simp: closing_frame_def)
next
  fix fl st out buf x st1
  assume "closing_inv env g s fl st" and "find_delimiter buf = None" and "end_attempt env out buf fl st = (x, st1)"
  then show "closing_end env g s x st1" by (metis closing_finish)
next
  fix script st
  assume "closing_end env g s (Again script) st"
  then show "closing_inv env g s flags_new st" by (simp add: closing_end_def closing_inv_def frozen_def flags_new_def)
qed

lemma stream_run:
  fixes unix env script g s
  obtains x st where "spawn_retry_stream unix env script g s = (body_end_of env x st, st, finish_task unix (st_lc st) (st_sched st))"
    and "closing_end env g (active_guard_new s) x st" and "\<forall>sc. x \<noteq> Again sc"
proof -
  obtain x st where r: "retry_loop env script (stream_start g s) = (x, st)" by fastforce
  have "closing_inv env g (active_guard_new s) flags_new (stream_start g s)"
    by (auto simp: closing_inv_def frozen_def stream_start_def flags_new_def intro: exI[of _ "sd_met (active_guard_new s)"])
  from closing.loop[OF this r] r show ?thesis
    by (intro that[of x st]) (auto simp: spawn_retry_stream_def)
qed

text \<open>
  C10. A truncated stream never looks complete: if the body of the request, where a retry may have to change it, is null or
  a JSON object (any other value makes that retry panic, and then the body just closes), the client's body is closed cleanly exactly when the
  request is marked completed, and then a frame with a finish reason has been forwarded; in
  every other case the body ends with an error (or the client left first) and the request counts
  as cancelled.
\<close>

theorem stream_closes_honestly:
  assumes "\<not> lc_completed g" and "bumpable env"
  shows "(fst (spawn_retry_stream unix env script g s) = Closed
           \<longleftrightarrow> lc_completed (st_lc (task_state (spawn_retry_stream unix env script g s))))
    \<and> (fst (spawn_retry_stream unix env script g s) = Closed
           \<longrightarrow> list_ex (is_terminal env) (st_out (task_state (spawn_retry_stream unix env script g s))))"
proof -
  obtain x st where r: "spawn_retry_stream unix env script g s = (body_end_of env x st, st, finish_task unix (st_lc st) (st_sched st))"
    "closing_end env g (active_guard_new s) x st" "\<forall>sc. x \<noteq> Again sc" by (rule stream_run[of unix env script g s])
  then show ?thesis using assms
    by (cases x) (auto simp: body_end_of_def closing_end_def frozen_def)
qed

lemma finish_effect:
  "credit_of (sd_reg (finish_task u g s)) = credit_of (sd_reg (lifecycle_drop u g s))"
  "m_events (sd_met (finish_task u g s)) = m_events (sd_met (lifecycle_drop u g s))"
  "m_tokens_generated (sd_met (finish_task u g s)) = m_tokens_generated (sd_met s)"
  by (auto simp: finish_task_def active_guard_drop_def ticket_drop_def release_permit_def Let_def
      lifecycle_drop_def report_accounting_eq set_credit_def inc_event_def set_flow_credit_def
      fun_eq_iff credit_of_def reg_update_def reg_lookup_def dec_active_def split: option.split)

text \<open>
  C13. An aborted stream costs nothing: if the body ends with an error, the request's whole
  estimate is credited back to its flow, no generated token has been counted, whatever usage the
  failed attempts reported, and exactly one cancellation is recorded.
\<close>

theorem broken_stream_refunds:
  assumes "fst (spawn_retry_stream unix env script g s) = Broken"
    and "\<not> lc_completed g" and "lc_delivered g = 0" and "in_i64 (lc_estimated g)"
  shows "credit_of (sd_reg (after_task (spawn_retry_stream unix env script g s))) h =
      (if h = lc_flow g then wrap_i64 (credit_of (sd_reg s) h + lc_estimated g) else credit_of (sd_reg s) h)
    \<and> m_tokens_generated (sd_met (after_task (spawn_retry_stream unix env script g s))) = m_tokens_generated (sd_met s)
    \<and> counter (m_events (sd_met (after_task (spawn_retry_stream unix env script g s)))) l =
        counter (m_events (sd_met s)) l + (if l = ''request_cancelled'' then 1 else 0)"
proof -
  obtain x st where r: "spawn_retry_stream unix env script g s = (body_end_of env x st, st, finish_task unix (st_lc st) (st_sched st))"
    "closing_end env g (active_guard_new s) x st" "\<forall>sc. x \<noteq> Again sc" by (rule stream_run[of unix env script g s])
  then have "x = Over False" using assms(1) by (cases x) (auto simp: body_end_of_def split: if_splits)
  then have "frozen g (active_guard_new s) st" using r(2) by (simp add: closing_end_def)
  then obtain m where st: "st_lc st = g" "st_sched st = (active_guard_new s)\<lparr>sd_met := m\<rparr>"
    "m_tokens_generated m = m_tokens_generated (sd_met s)" "m_events m = m_events (sd_met s)"
    by (auto simp: frozen_def active_guard_new_def)
  have "restore_cost (lifecycle_report g) = lc_estimated g" using assms(2-4) by (simp add: lifecycle_report_def restore_cost_def)
  then show ?thesis using st assms(2) by (simp add: r(1) finish_effect lifecycle_drop_effect active_guard_new_def)
qed

section \<open>What a restarted attempt has sent\<close>

definition silent :: "stream_env \<Rightarrow> string \<Rightarrow> bool" where
  "silent env f \<longleftrightarrow> \<not> fc_content (classify_frame (en_parse env) f) \<and> \<not> fc_tool_calls (classify_frame (en_parse env) f)"

text \<open>What may follow the silent frames: nothing, the notice of a retry, or an unfinished frame.\<close>

definition restart_tail :: "string list \<Rightarrow> bool" where
  "restart_tail left \<longleftrightarrow> left = [] \<or> (\<exists>k. left = [retry_notice k]) \<or> (\<exists>p. left = [p] \<and> find_delimiter p = None)"

definition sent_inv :: "stream_env \<Rightarrow> string list \<Rightarrow> attempt_flags \<Rightarrow> stream_state \<Rightarrow> bool" where
  "sent_inv env out0 fl st \<longleftrightarrow> sf_accepted fl \<or> sf_content fl \<or> sf_tools fl
     \<or> (\<exists>new. st_out st = out0 @ new \<and> list_all (silent env) new)"

definition sent_end :: "stream_env \<Rightarrow> string list \<Rightarrow> attempt_exit \<Rightarrow> stream_state \<Rightarrow> bool" where
  "sent_end env out0 x st \<longleftrightarrow> (case x of
       Again _ \<Rightarrow> \<exists>new left. st_out st = out0 @ new @ left \<and> list_all (silent env) new \<and> restart_tail left
     | _ \<Rightarrow> True)"

lemma resend_out: "st_out (snd (transient_resend env st)) = st_out st"
  by (simp add: transient_resend_def Let_def)

lemma go_if_results: "go_if fl r \<noteq> (Restart sc, st1)" "go_if fl r = (Go_on fl1, st1) \<longleftrightarrow> fst r \<and> fl1 = fl \<and> st1 = snd r"
  by (auto simp: go_if_def)

lemma terminal_restart:
  "terminal_frame env f cls fr fl st = (Restart sc, st1) \<Longrightarrow>
     \<not> sf_content fl \<and> \<not> sf_tools fl \<and> (\<exists>fwd. premature_retry env fwd st = (Restart sc, st1))"
  by (auto simp: terminal_frame_def Let_def go_if_results split: if_splits option.splits)

lemma terminal_go_on: "terminal_frame env f cls fr fl st = (Go_on fl1, st1) \<Longrightarrow> sf_accepted fl1"
  using premature_no_go_on[of env _ st fl1]
  by (auto simp: terminal_frame_def Let_def go_if_results split: if_splits option.splits) (metis fst_conv)

definition seen :: "stream_env \<Rightarrow> string \<Rightarrow> attempt_flags \<Rightarrow> attempt_flags" where
  "seen env f fl = fl\<lparr>sf_content := sf_content fl \<or> fc_content (classify_frame (en_parse env) f),
     sf_tools := sf_tools fl \<or> fc_tool_calls (classify_frame (en_parse env) f)\<rparr>"

lemma seen_fields [simp]:
  "sf_content (seen env f fl) = (sf_content fl \<or> fc_content (classify_frame (en_parse env) f))"
  "sf_tools (seen env f fl) = (sf_tools fl \<or> fc_tool_calls (classify_frame (en_parse env) f))"
  "sf_accepted (seen env f fl) = sf_accepted fl"
  by (simp_all add: seen_def)

lemma open_frame_seen:
  "open_frame env f fl st =
     (let cls = classify_frame (en_parse env) f; fl1 = seen env f fl
      in if fc_error cls \<and> \<not> sf_content fl1 \<and> \<not> sf_tools fl1 \<and> budget_left env st
         then (case transient_resend env st of
                 (Some script, st1) \<Rightarrow> (Restart script, st1)
               | (None, st1) \<Rightarrow> (case send_out env f st1 of (True, st2) \<Rightarrow> (Abort, st2) | (False, st2) \<Rightarrow> (Gone, st2)))
         else case fc_finish_reason cls of
                Some fr \<Rightarrow> terminal_frame env f cls fr fl1 st
              | None \<Rightarrow> if fc_done cls \<or> fc_usage cls then (Go_on fl1, st) else go_if fl1 (send_out env f st))"
  by (simp only: open_frame_def seen_def Let_def)

lemma resend_results:
  "(case transient_resend env st of (Some script, st1) \<Rightarrow> (Restart script, st1)
      | (None, st1) \<Rightarrow> (case send_out env f st1 of (True, st2) \<Rightarrow> (Abort, st2) | (False, st2) \<Rightarrow> (Gone, st2))) = (r, st2) \<Longrightarrow>
   r = Abort \<or> r = Gone \<or> (\<exists>sc. r = Restart sc \<and> transient_resend env st = (Some sc, st2))"
  by (auto split: prod.splits option.splits bool.splits)

lemma open_restart:
  assumes "open_frame env f fl st = (Restart sc, st1)"
  shows "\<not> sf_content fl \<and> \<not> sf_tools fl
    \<and> (transient_resend env st = (Some sc, st1) \<or> (\<exists>fwd. premature_retry env fwd st = (Restart sc, st1)))"
  using assms terminal_restart[of env f _ _ "seen env f fl" st sc st1] resend_results[of env f st "Restart sc" st1]
  by (auto simp: open_frame_seen Let_def go_if_results split: if_splits option.splits)

lemma open_go_on:
  assumes "open_frame env f fl st = (Go_on fl1, st1)"
  shows "sf_accepted fl1 \<or> fl1 = seen env f fl \<and> (st_out st1 = st_out st \<or> st_out st1 = st_out st @ [f])"
  using assms terminal_go_on[of env f _ _ "seen env f fl" st fl1 st1] resend_results[of env f st "Go_on fl1" st1]
  by (auto simp: open_frame_seen Let_def go_if_results send_out_def split: if_splits option.splits)

lemma sent_restart:
  assumes "\<not> sf_accepted fl" and "sent_inv env out0 fl st" and "open_frame env f fl st = (Restart sc, st1)"
  shows "sent_end env out0 (Again sc) st1"
proof -
  have o: "\<not> sf_content fl" "\<not> sf_tools fl"
    and alt: "transient_resend env st = (Some sc, st1) \<or> (\<exists>fwd. premature_retry env fwd st = (Restart sc, st1))"
    using open_restart[OF assms(3)] by simp_all
  then obtain new where new: "st_out st = out0 @ new" "list_all (silent env) new"
    using assms(1,2) by (auto simp: sent_inv_def)
  have "\<exists>left. st_out st1 = st_out st @ left \<and> restart_tail left"
    using alt
  proof
    assume "transient_resend env st = (Some sc, st1)"
    then have "st_out st1 = st_out st" using resend_out[of env st] by simp
    then show ?thesis by (simp add: restart_tail_def)
  next
    assume "\<exists>fwd. premature_retry env fwd st = (Restart sc, st1)"
    then obtain fwd where p: "premature_retry env fwd st = (Restart sc, st1)" ..
    have "st_out st1 = st_out st @ [retry_notice (Suc (st_attempt st))]"
    proof (cases rule: premature_retry_cases[of fwd st env])
      case (sent v)
      then show ?thesis using p premature_send_frame(4)[of env v] by (metis snd_conv stream_state.select_convs(1) stream_state.surjective stream_state.update_convs(1))
    qed (use p in simp_all)
    then show ?thesis by (auto simp: restart_tail_def)
  qed
  then show ?thesis using new by (auto simp: sent_end_def)
qed

interpretation sent: attempt_rule env "sent_inv env out0" "sent_end env out0" for env out0
proof unfold_locales
  fix fl st f fl1 st1
  assume i: "sent_inv env out0 fl st" and h: "handle_frame env f fl st = (Go_on fl1, st1)"
  show "sent_inv env out0 fl1 st1"
  proof (cases "sf_accepted fl")
    case True
    then show ?thesis using h by (auto simp: handle_frame_def go_if_results sent_inv_def)
  next
    case False
    then show ?thesis using h i open_go_on[of env f fl st fl1 st1]
      by (auto simp: handle_frame_def sent_inv_def silent_def)
  qed
next
  fix fl st f r st1
  assume i: "sent_inv env out0 fl st" and h: "handle_frame env f fl st = (r, st1)" and r: "\<And>fl1. r \<noteq> Go_on fl1"
  show "sent_end env out0 (leave_attempt r) st1"
  proof (cases r)
    case (Restart sc)
    then have "\<not> sf_accepted fl" using h by (auto simp: handle_frame_def go_if_results split: if_splits)
    then show ?thesis using sent_restart[OF _ i, of f sc st1] h Restart by (simp add: handle_frame_def)
  qed (use r in \<open>simp_all add: sent_end_def\<close>)
next
  fix fl st out buf x st1
  assume i: "sent_inv env out0 fl st" and b: "find_delimiter buf = None" and h: "end_attempt env out buf fl st = (x, st1)"
  show "sent_end env out0 x st1"
  proof (cases x)
    case (Again sc)
    obtain st0 where s: "send_all env (parser_finish buf) st = (True, st0)" "after_eof env fl st0 = (Again sc, st1)" "\<not> sf_accepted fl"
      using h Again by (auto simp: end_attempt_def split: prod.splits bool.splits if_splits outcome.splits)
    then have c: "\<not> sf_content fl" "\<not> sf_tools fl" "transient_resend env st0 = (Some sc, st1)"
      by (auto simp: after_eof_def split: if_splits prod.splits option.splits)
    then obtain new where new: "st_out st = out0 @ new" "list_all (silent env) new" using i s(3) by (auto simp: sent_inv_def)
    have "st_out st0 = st_out st @ parser_finish buf"
      using s(1) by (auto simp: parser_finish_def send_out_def split: if_splits)
    moreover have "st_out st1 = st_out st0" using resend_out[of env st0] c(3) by simp
    moreover have "restart_tail (parser_finish buf)" using b by (simp add: parser_finish_def restart_tail_def)
    ultimately show ?thesis using new Again by (auto simp: sent_end_def)
  qed (simp_all add: sent_end_def)
qed

text \<open>
  C11. No restart after a complete frame with content: when an attempt is abandoned for another one, the complete
  frames of its stream that the client has seen carry no content and no tool calls; behind them comes at
  most the notice of the retry or one unfinished frame, whatever content that has.
\<close>

theorem no_restart_after_content:
  assumes "run_attempt env script st = (Again script1, st1)"
  shows "\<exists>new left. st_out st1 = st_out st @ new @ left \<and> list_all (silent env) new \<and> restart_tail left"
proof -
  have "sent_inv env (st_out st) flags_new st" by (simp add: sent_inv_def)
  from sent.attempt[OF this assms] show ?thesis by (simp add: sent_end_def)
qed

text \<open>
  An unfinished frame is sent before the retry: if the backend's stream ends inside a frame
  and a transient retry is due, the client gets the bytes of the broken frame, with whatever
  content is in them, and behind them, without a delimiter, the stream of the retried
  request.
\<close>

theorem unfinished_frame_before_retry:
  assumes "find_delimiter c = None" and "c \<noteq> []" and "\<not> deadline_passed env e" and "\<not> en_gone env (length (st_out st))"
    and "budget_left env st" and "en_send env (length (st_sends st)) (en_body env) = Some script1"
  shows "\<exists>st1. run_attempt env [Chunk c e] st = (Again script1, st1) \<and> st_out st1 = st_out st @ [c]"
proof -
  have p: "parser_feed c parser_new = ([], c)"
    using assms(1) by (simp add: parser_feed_def parser_new_def extract_events.simps[of c])
  let ?st = "st\<lparr>st_out := st_out st @ [c]\<rparr>"
  have "budget_left env ?st" using assms(5) by (simp add: budget_left_def)
  then show ?thesis using assms resend_out[of env ?st]
    by (auto simp: run_attempt_def p end_attempt_def parser_finish_def send_out_def flags_new_def after_eof_def
        transient_resend_def Let_def)
qed

section \<open>A healthy stream\<close>

text \<open>A frame that is forwarded live, and a terminal frame that ends the turn regularly.\<close>

definition plain_frame :: "stream_env \<Rightarrow> string \<Rightarrow> bool" where
  "plain_frame env f \<longleftrightarrow> (let c = classify_frame (en_parse env) f in
     \<not> fc_error c \<and> fc_finish_reason c = None \<and> \<not> fc_done c \<and> \<not> fc_usage c)"

definition healthy :: "stream_env \<Rightarrow> string list \<Rightarrow> string \<Rightarrow> bool" where
  "healthy env pre t \<longleftrightarrow> list_all (plain_frame env) pre \<and> is_terminal env t
     \<and> \<not> fc_error (classify_frame (en_parse env) t)
     \<and> (\<not> list_all (silent env) (pre @ [t]) \<or> retry_body env = None)"

lemma frames_append:
  "handle_frames env (fs @ gs) fl st = (case handle_frames env fs fl st of
     (Go_on fl1, st1) \<Rightarrow> handle_frames env gs fl1 st1 | r \<Rightarrow> r)"
  by (induction fs arbitrary: fl st) (auto split: prod.split frame_result.split)

text \<open>Reading chunk by chunk handles the frames of the whole stream.\<close>

lemma read_chunks:
  assumes "\<not> deadline_passed env 0"
  shows "read_loop env (map (\<lambda>c. Chunk c 0) cs) buf fl st = (case handle_frames env (fst (parser_run cs buf)) fl st of
     (Go_on fl1, st1) \<Rightarrow> (Finished Eof (snd (parser_run cs buf)) fl1, st1) | (r, st1) \<Rightarrow> (Jump r, st1))"
proof (induction cs arbitrary: buf fl st)
  case (Cons c cs)
  obtain fs b where p: "parser_feed c buf = (fs, b)" by fastforce
  show ?case using assms Cons
    by (auto simp: p frames_append split_beta split: prod.split frame_result.split)
qed simp

lemma plain_frames:
  assumes "\<And>n. \<not> en_gone env n" and "list_all (plain_frame env) fs" and "\<not> sf_accepted fl"
  shows "handle_frames env fs fl st = (Go_on (fold (seen env) fs fl), st\<lparr>st_out := st_out st @ fs\<rparr>)"
  using assms(2,3)
proof (induction fs arbitrary: fl st)
  case (Cons f fs)
  then have "handle_frame env f fl st = (Go_on (seen env f fl), st\<lparr>st_out := st_out st @ [f]\<rparr>)"
    using assms(1) by (simp add: handle_frame_def open_frame_seen plain_frame_def go_if_def send_out_def Let_def)
  then show ?case using Cons by simp
qed simp

lemma seen_fold:
  "sf_accepted (fold (seen env) fs fl) = sf_accepted fl"
  "sf_content (fold (seen env) fs fl) \<or> sf_tools (fold (seen env) fs fl)
     \<longleftrightarrow> sf_content fl \<or> sf_tools fl \<or> \<not> list_all (silent env) fs"
  by (induction fs arbitrary: fl) (auto simp: silent_def)

text \<open>The token counts of the usage frames among some frames.\<close>

definition usage_counts :: "stream_env \<Rightarrow> string list \<Rightarrow> i64 list" where
  "usage_counts env fs = filter (\<lambda>n. 0 < n) (map (completion_tokens_from_frame (en_parse env))
     (filter (\<lambda>f. fc_usage (classify_frame (en_parse env) f)) fs))"

lemma usage_counts_simps [simp]:
  "usage_counts env [] = []" "usage_counts env (fs @ gs) = usage_counts env fs @ usage_counts env gs"
  by (simp_all add: usage_counts_def)

text \<open>From the terminal frame on everything is forwarded, and exactly the counts of the usage frames are delivered.\<close>

definition forwarded :: "stream_env \<Rightarrow> stream_state \<Rightarrow> string list \<Rightarrow> stream_state \<Rightarrow> bool" where
  "forwarded env st fs st1 \<longleftrightarrow> st_out st1 = st_out st @ fs \<and> quiet st st1
     \<and> (lc_flow (st_lc st1), lc_estimated (st_lc st1)) = (lc_flow (st_lc st), lc_estimated (st_lc st))
     \<and> sd_reg (st_sched st1) = sd_reg (st_sched st)
     \<and> m_tokens_generated (sd_met (st_sched st1)) = m_tokens_generated (sd_met (st_sched st)) + sum_list (usage_counts env fs)
     \<and> (in_i64 (lc_delivered (st_lc st)) \<longrightarrow>
          lc_delivered (st_lc st1) = wrap_i64 (lc_delivered (st_lc st) + sum_list (usage_counts env fs)))"

lemma forwarded_refl: "forwarded env st [] st"
  by (simp add: forwarded_def)

lemma forwarded_trans:
  assumes "forwarded env st fs st1" and "forwarded env st1 gs st2"
  shows "forwarded env st (fs @ gs) st2"
  using assms by (auto simp: forwarded_def quiet_def add.assoc)

lemma deliver_metrics: "m_tokens_generated (sd_met (snd (deliver n gs))) = m_tokens_generated (sd_met (snd gs))"
  by (simp add: deliver_def add_delivered_tokens_def record_token_def split_beta inc_event_def)

lemma count_frame_effect:
  "forwarded env st [f] ((count_frame env f (fc_usage (classify_frame (en_parse env) f)) st)\<lparr>st_out := st_out st @ [f]\<rparr>)"
  by (simp add: forwarded_def quiet_def count_frame_def usage_counts_def Let_def split_beta deliver_frame deliver_metrics with_met_def)

lemma forward_one:
  assumes "\<And>n. \<not> en_gone env n"
  shows "\<exists>st1. count_and_forward_frame env f (fc_usage (classify_frame (en_parse env) f)) st = (True, st1) \<and> forwarded env st [f] st1"
  using assms count_frame_effect[of env st f] by (simp add: count_and_forward_frame_def send_out_def)

lemma forward_rest:
  assumes "\<And>n. \<not> en_gone env n" and "sf_accepted fl"
  shows "\<exists>st1. handle_frames env fs fl st = (Go_on fl, st1) \<and> forwarded env st fs st1"
proof (induction fs arbitrary: st)
  case (Cons f fs)
  obtain st1 where 1: "handle_frame env f fl st = (Go_on fl, st1)" "forwarded env st [f] st1"
    using forward_one[OF assms(1), of f st] assms(2) by (auto simp: handle_frame_def go_if_def)
  obtain st2 where 2: "handle_frames env fs fl st1 = (Go_on fl, st2)" "forwarded env st1 fs st2" using Cons.IH by blast
  show ?case using 1 2 forwarded_trans[OF 1(2) 2(2)] by simp
qed (simp add: forwarded_refl)

lemma terminal_accepted:
  assumes "\<And>n. \<not> en_gone env n" and "healthy env pre t" and "\<not> sf_accepted fl0" and "\<not> sf_content fl0" and "\<not> sf_tools fl0"
  defines "fl \<equiv> fold (seen env) pre fl0"
  shows "\<exists>st1. handle_frame env t fl st = (Go_on ((seen env t fl)\<lparr>sf_accepted := True\<rparr>), st1) \<and> forwarded env st [t] st1"
proof -
  let ?cls = "classify_frame (en_parse env) t"
  obtain fr where fr: "fc_finish_reason ?cls = Some fr" using assms(2) by (auto simp: healthy_def is_terminal_def)
  have "sf_content (seen env t fl) \<or> sf_tools (seen env t fl) \<or> retry_body env = None"
    using assms(2,4,5) seen_fold(2)[of env pre fl0] by (auto simp: fl_def healthy_def silent_def)
  then have "\<exists>stx. terminal_frame env t ?cls fr (seen env t fl) st =
       go_if ((seen env t fl)\<lparr>sf_accepted := True\<rparr>) (count_and_forward_frame env t (fc_usage ?cls) stx)
     \<and> (stx = st \<or> stx = ps_exhausted st)"
    unfolding terminal_frame_def Let_def by (cases "retry_body env") auto
  then obtain stx where x: "terminal_frame env t ?cls fr (seen env t fl) st =
       go_if ((seen env t fl)\<lparr>sf_accepted := True\<rparr>) (count_and_forward_frame env t (fc_usage ?cls) stx)"
     "stx = st \<or> stx = ps_exhausted st" by blast
  obtain st1 where c: "count_and_forward_frame env t (fc_usage ?cls) stx = (True, st1)" "forwarded env stx [t] st1"
    using forward_one[OF assms(1)] by blast
  have "forwarded env st [] stx" using x(2) by (auto simp: forwarded_def quiet_def ps_exhausted_def with_met_def)
  then have "forwarded env st [t] st1" using forwarded_trans[OF _ c(2)] by fastforce
  moreover have "\<not> sf_accepted fl" using assms(3) by (simp add: fl_def seen_fold)
  moreover have "handle_frame env t fl st = terminal_frame env t ?cls fr (seen env t fl) st"
    if "\<not> sf_accepted fl" using that fr assms(2) by (simp add: handle_frame_def open_frame_seen Let_def healthy_def)
  ultimately show ?thesis using x(1) c(1) by (simp add: go_if_def)
qed

text \<open>The whole attempt, and the state in which the task ends.\<close>

lemma healthy_attempt:
  assumes "\<And>n. \<not> en_gone env n" and "\<not> deadline_passed env 0"
    and "fst (extract_events (concat chunks)) = pre @ t # post" and "healthy env pre t"
  shows "\<exists>st fs st0. run_attempt env (map (\<lambda>c. Chunk c 0) chunks) (stream_start g s) = (Over True, st)
    \<and> st = st0\<lparr>st_out := fs, st_lc := mark_completed (st_lc st0)\<rparr> \<and> concat fs = concat chunks
    \<and> forwarded env ((stream_start g s)\<lparr>st_out := pre\<rparr>) (t # post) st0"
proof -
  let ?st0 = "stream_start g s"
  obtain rest where run: "parser_run chunks parser_new = (pre @ t # post, rest)"
    using assms(3) parser_run_eq[of "[]" chunks] by (cases "extract_events (concat chunks)") (simp add: parser_new_def)
  have whole: "concat (pre @ t # post) @ concat (parser_finish rest) = concat chunks"
    using extract_concat[of "concat chunks"] assms(3) run parser_run_eq[of "[]" chunks]
    by (cases "rest = []") (auto simp: parser_finish_def parser_new_def)
  define fl where "fl = fold (seen env) pre flags_new"
  define fl1 where "fl1 = (seen env t fl)\<lparr>sf_accepted := True\<rparr>"
  have fl0: "\<not> sf_accepted flags_new" "\<not> sf_content flags_new" "\<not> sf_tools flags_new" by (simp_all add: flags_new_def)
  have pre: "handle_frames env pre flags_new ?st0 = (Go_on fl, ?st0\<lparr>st_out := pre\<rparr>)"
    using plain_frames[OF assms(1) _ fl0(1)] assms(4) by (simp add: fl_def healthy_def stream_start_def)
  obtain st1 where t: "handle_frame env t fl (?st0\<lparr>st_out := pre\<rparr>) = (Go_on fl1, st1)" "forwarded env (?st0\<lparr>st_out := pre\<rparr>) [t] st1"
    using terminal_accepted[OF assms(1,4) fl0] unfolding fl_def fl1_def by blast
  obtain st2 where post: "handle_frames env post fl1 st1 = (Go_on fl1, st2)" "forwarded env st1 post st2"
    using forward_rest[OF assms(1), of fl1] by (auto simp: fl1_def)
  have fwd: "forwarded env (?st0\<lparr>st_out := pre\<rparr>) (t # post) st2" using forwarded_trans[OF t(2) post(2)] by simp
  then have out: "st_out st2 = pre @ t # post" by (simp add: forwarded_def)
  have "handle_frames env (pre @ t # post) flags_new ?st0 = (Go_on fl1, st2)"
    using frames_append[of env pre "t # post" flags_new ?st0] pre t(1) post(1) by simp
  then have loop: "read_loop env (map (\<lambda>c. Chunk c 0) chunks) parser_new flags_new ?st0 = (Finished Eof rest fl1, st2)"
    using read_chunks[OF assms(2), of chunks parser_new flags_new ?st0] run by simp
  have "run_attempt env (map (\<lambda>c. Chunk c 0) chunks) ?st0 =
      (Over True, st2\<lparr>st_out := st_out st2 @ parser_finish rest, st_lc := mark_completed (st_lc st2)\<rparr>)"
    using assms(1) by (simp add: run_attempt_def loop end_attempt_def parser_finish_def send_out_def fl1_def)
  then show ?thesis using fwd out whole by (intro exI[of _ st2] exI conjI) (assumption, rule refl, simp_all)
qed

text \<open>
  C14. A healthy stream passes unchanged and is charged its usage: if the client stays, the frames before the first
  finish reason are ordinary deltas, and the turn is not degenerate, then however the backend's bytes are
  cut into chunks the client receives exactly them, the body closes cleanly, no request
  is repeated, and the flow is charged the token counts of the usage frames from the frame with the finish reason on - the
  estimate if there are none - which are also what the generated-tokens counter grows by; no other flow's credit changes.
\<close>

theorem healthy_stream_passes:
  assumes "\<And>n. \<not> en_gone env n" and "\<not> deadline_passed env 0"
    and "fst (extract_events (concat chunks)) = pre @ t # post" and "healthy env pre t"
    and "lc_delivered g = 0" and "in_i64 (sum_list (usage_counts env (t # post)))"
    and "in_i64 (lc_estimated g - sum_list (usage_counts env (t # post)))"
  shows "fst (spawn_retry_stream unix env (map (\<lambda>c. Chunk c 0) chunks) g s) = Closed
    \<and> concat (st_out (task_state (spawn_retry_stream unix env (map (\<lambda>c. Chunk c 0) chunks) g s))) = concat chunks
    \<and> st_sends (task_state (spawn_retry_stream unix env (map (\<lambda>c. Chunk c 0) chunks) g s)) = []
    \<and> credit_of (sd_reg (after_task (spawn_retry_stream unix env (map (\<lambda>c. Chunk c 0) chunks) g s))) h =
        (if h = lc_flow g then wrap_i64 (credit_of (sd_reg s) h
           + (lc_estimated g - charged (lc_estimated g) (usage_counts env (t # post)) True)) else credit_of (sd_reg s) h)
    \<and> m_tokens_generated (sd_met (after_task (spawn_retry_stream unix env (map (\<lambda>c. Chunk c 0) chunks) g s)))
        = m_tokens_generated (sd_met s) + sum_list (usage_counts env (t # post))"
proof -
  obtain st fs st0 where r: "run_attempt env (map (\<lambda>c. Chunk c 0) chunks) (stream_start g s) = (Over True, st)"
    and st: "st = st0\<lparr>st_out := fs, st_lc := mark_completed (st_lc st0)\<rparr>" "concat fs = concat chunks"
    and fwd: "forwarded env ((stream_start g s)\<lparr>st_out := pre\<rparr>) (t # post) st0"
    using healthy_attempt[OF assms(1-4)] by blast
  have run: "spawn_retry_stream unix env (map (\<lambda>c. Chunk c 0) chunks) g s = (Closed, st, finish_task unix (st_lc st) (st_sched st))"
    by (simp add: spawn_retry_stream_def retry_loop.simps[of env "map (\<lambda>c. Chunk c 0) chunks"] r body_end_of_def)
  have lc: "lc_flow (st_lc st) = lc_flow g" "lc_estimated (st_lc st) = lc_estimated g" "lc_completed (st_lc st)"
    "lc_delivered (st_lc st) = sum_list (usage_counts env (t # post))"
    and same: "st_sends st = []" "sd_reg (st_sched st) = sd_reg s"
    "m_tokens_generated (sd_met (st_sched st)) = m_tokens_generated (sd_met s) + sum_list (usage_counts env (t # post))"
    using fwd assms(5,6) by (simp_all add: st forwarded_def quiet_def stream_start_def active_guard_new_def mark_completed_def)
  show ?thesis using report_restores[OF lc(2,4) assms(7)] lc same st(2)
    by (simp add: run finish_effect lifecycle_drop_effect charged_def st(1))
qed

section \<open>Concrete runs\<close>

text \<open>A parser for three payloads: a content delta \<open>C\<close>, a terminal frame with content \<open>T\<close> and a usage frame \<open>U\<close>.\<close>

definition ex_parse :: "string \<Rightarrow> json option" where
  "ex_parse t = (if t = ''C'' then Some (JObj [(''choices'', JArr [JObj [(''delta'', JObj [(''content'', JStr ''hi'')])]])])
     else if t = ''T'' then Some (JObj [(''choices'', JArr [JObj [(''delta'', JObj [(''content'', JStr ''hi'')]),
       (''finish_reason'', JStr ''stop'')]])])
     else if t = ''U'' then Some (JObj [(''usage'', JObj [(''completion_tokens'', JNum (PosInt 7))])])
     else None)"

definition ex_stream_env :: "nat \<Rightarrow> stream_env" where
  "ex_stream_env n = \<lparr> en_parse = ex_parse, en_print = (\<lambda>_. None), en_policy = ex_policy,
     en_transient = \<lparr> tr_max_attempts = n, tr_backoff_start = 1, tr_backoff_max = 4 \<rparr>, en_timeout = None,
     en_body = [], en_send = (\<lambda>_ _. Some []), en_gone = (\<lambda>_. False) \<rparr>"

definition ex_guard :: lifecycle where
  "ex_guard = \<lparr> lc_flow = ''a'', lc_estimated = 100, lc_completed = False, lc_delivered = 0, lc_tracked = True \<rparr>"

definition ex_frame :: "char \<Rightarrow> string" where
  "ex_frame c = ''data: '' @ [c, lf, lf]"

lemma ex_stream_simps:
  "en_parse (ex_stream_env n) = ex_parse" "en_transient (ex_stream_env n) = \<lparr> tr_max_attempts = n, tr_backoff_start = 1, tr_backoff_max = 4 \<rparr>"
  "en_timeout (ex_stream_env n) = None" "en_body (ex_stream_env n) = []" "en_send (ex_stream_env n) = (\<lambda>_ _. Some [])"
  "en_gone (ex_stream_env n) = (\<lambda>_. False)" "en_policy (ex_stream_env n) = ex_policy" "retry_body (ex_stream_env n) = None"
  by (simp_all add: ex_stream_env_def retry_body_def ex_parse_def)

theorem stream_closes_honestly_witness:
  "fst (spawn_retry_stream 0 (ex_stream_env 0) [] ex_guard (ex_sched None 1)) = Closed
     \<longleftrightarrow> lc_completed (st_lc (task_state (spawn_retry_stream 0 (ex_stream_env 0) [] ex_guard (ex_sched None 1))))"
  by (rule conjunct1[OF stream_closes_honestly]) (simp_all add: ex_guard_def bumpable_def ex_stream_simps)

theorem broken_stream_refunds_witness:
  "m_tokens_generated (sd_met (after_task (spawn_retry_stream 0 (ex_stream_env 0) [] ex_guard (ex_sched None 1)))) =
     m_tokens_generated (sd_met (ex_sched None 1))"
proof -
  have "fst (spawn_retry_stream 0 (ex_stream_env 0) [] ex_guard (ex_sched None 1)) = Broken"
    by (simp add: spawn_retry_stream_def retry_loop.simps[of "ex_stream_env 0" "[]"] run_attempt_def end_attempt_def parser_finish_def
        parser_new_def flags_new_def after_eof_def budget_left_def ex_stream_simps body_end_of_def)
  from broken_stream_refunds[OF this] show ?thesis by (simp add: ex_guard_def in_i64_def i64_min_def i64_max_def)
qed

lemma ex_unfinished: "find_delimiter ''data: C'' = None"
  by (simp add: cr_def lf_def)

theorem unfinished_frame_before_retry_witness:
  "\<exists>st1. run_attempt (ex_stream_env 1) [Chunk ''data: C'' 0] (stream_start ex_guard (ex_sched None 1)) = (Again [], st1)
     \<and> st_out st1 = [''data: C'']"
  using unfinished_frame_before_retry[OF ex_unfinished, of "ex_stream_env 1" 0 "stream_start ex_guard (ex_sched None 1)" "[]"]
  by (simp add: ex_stream_simps deadline_passed_def stream_start_def budget_left_def)

theorem no_restart_after_content_witness:
  "\<exists>st1 new left. run_attempt (ex_stream_env 1) [] (stream_start ex_guard (ex_sched None 1)) = (Again [], st1)
     \<and> st_out st1 = new @ left \<and> list_all (silent (ex_stream_env 1)) new \<and> restart_tail left"
proof -
  obtain st1 where r: "run_attempt (ex_stream_env 1) [] (stream_start ex_guard (ex_sched None 1)) = (Again [], st1)"
    by (simp add: run_attempt_def end_attempt_def parser_finish_def parser_new_def flags_new_def after_eof_def
        budget_left_def ex_stream_simps transient_resend_def Let_def stream_start_def)
  from no_restart_after_content[OF this] r show ?thesis by (simp add: stream_start_def)
qed

theorem healthy_stream_passes_witness:
  "m_tokens_generated (sd_met (after_task (spawn_retry_stream 0 (ex_stream_env 0)
      (map (\<lambda>c. Chunk c 0) [''data: '', ''T'' @ [lf, lf] @ ''data: U'', [lf, lf]]) ex_guard (ex_sched None 1))))
     = m_tokens_generated (sd_met (ex_sched None 1)) + 7"
proof -
  let ?chunks = "[''data: '', ''T'' @ [lf, lf] @ ''data: U'', [lf, lf]]"
  note eval = ex_frame_def classify_frame_def frame_class_empty_def classify_line_def strip_data_prefix_def starts_with_def
    trim_ascii_def is_ascii_ws_def cr_def lf_def ex_parse_def classify_value_def first_choice_def classify_choice_def Let_def
  have cls: "classify_frame ex_parse (ex_frame CHR ''T'') =
      \<lparr> fc_content = True, fc_tool_calls = False, fc_finish_reason = Some ''stop'', fc_done = False, fc_usage = False, fc_error = False \<rparr>"
    by (simp add: eval)
  have clu: "fc_usage (classify_frame ex_parse (ex_frame CHR ''U''))" by (simp add: eval)
  have tok: "completion_tokens_from_frame ex_parse (ex_frame CHR ''U'') = 7"
    by (simp add: completion_tokens_from_frame_def strip_data_def usage_tokens_def i64_max_def eval)
  have "extract_events (concat ?chunks) = ([ex_frame CHR ''T'', ex_frame CHR ''U''], [])"
    by (simp add: extract_events.simps[of "CHR ''d'' # cs" for cs] extract_events.simps[of "[]"] ex_frame_def cr_def lf_def Let_def)
  then have fst: "fst (extract_events (concat ?chunks)) = [] @ ex_frame CHR ''T'' # [ex_frame CHR ''U'']" by simp
  have "healthy (ex_stream_env 0) [] (ex_frame CHR ''T'')"
    by (simp add: healthy_def is_terminal_def ex_stream_simps cls)
  moreover have "usage_counts (ex_stream_env 0) [ex_frame CHR ''T'', ex_frame CHR ''U''] = [7]"
    by (simp add: usage_counts_def ex_stream_simps cls clu tok)
  ultimately show ?thesis using healthy_stream_passes[OF _ _ fst, of "ex_stream_env 0" ex_guard 0 "ex_sched None 1"]
    by (simp add: ex_stream_simps deadline_passed_def ex_guard_def in_i64_def i64_min_def i64_max_def)
qed

end
