(* ===== verification/MetricStream.thy ===== *)
theory MetricStream
  imports RetryStreamProps
begin

text \<open>
  The plain streaming path: \<open>MetricStream\<close> of src/gateway/stream.rs, which hands the
  backend's chunks through and counts tokens on the way.  A poll sees the deadline passed, a chunk, a read error
  or the end.  Lemmas: the client gets the chunks unchanged, and what the request is charged.
\<close>

datatype poll = Late | Data string | Failed | Finish

datatype poll_item = Item string | Error | Done

record metric_stream =
  ms_buffer :: string
  ms_lc :: lifecycle
  ms_sched :: sched

definition metric_stream_new :: "lifecycle \<Rightarrow> sched \<Rightarrow> metric_stream" where
  "metric_stream_new g s = \<lparr> ms_buffer = [], ms_lc = g, ms_sched = active_guard_new s \<rparr>"

definition count_tokens :: "i64 \<Rightarrow> metric_stream \<Rightarrow> metric_stream" where
  "count_tokens t st = (if 0 < t then
     (let s = ms_sched st; m = sd_met s;
          (g, s1) = deliver t (ms_lc st, s\<lparr>sd_met := m\<lparr>m_tokens_generated := m_tokens_generated m + t\<rparr>\<rparr>)
      in st\<lparr>ms_lc := g, ms_sched := s1\<rparr>)
     else st)"

fun poll_next :: "poll \<Rightarrow> metric_stream \<Rightarrow> poll_item \<times> metric_stream" where
  "poll_next Late st = (Error, st)"
| "poll_next (Data chunk) st = (let (tokens, b) = accumulator_feed chunk (ms_buffer st)
     in (Item chunk, count_tokens tokens (st\<lparr>ms_buffer := b\<rparr>)))"
| "poll_next Failed st = (Error, st)"
| "poll_next Finish st = (Done, st\<lparr>ms_lc := mark_completed (ms_lc st)\<rparr>)"

text \<open>The server polls until the end or an error; the client leaving is the end of the list.\<close>

fun poll_all :: "poll list \<Rightarrow> metric_stream \<Rightarrow> string list \<times> body_end \<times> metric_stream" where
  "poll_all [] st = ([], Dropped, st)"
| "poll_all (p # ps) st = (case poll_next p st of
       (Item c, st1) \<Rightarrow> (let (out, e, st2) = poll_all ps st1 in (c # out, e, st2))
     | (Error, st1) \<Rightarrow> ([], Broken, st1)
     | (Done, st1) \<Rightarrow> ([], Closed, st1))"

text \<open>The fields are dropped in the order of their declaration.\<close>

definition metric_stream_drop :: "nat \<Rightarrow> metric_stream \<Rightarrow> sched" where
  "metric_stream_drop unix st = lifecycle_drop unix (ms_lc st)
     (ticket_drop (lc_flow (ms_lc st)) (active_guard_drop (ms_sched st)))"

definition run_metric_stream :: "nat \<Rightarrow> poll list \<Rightarrow> lifecycle \<Rightarrow> sched \<Rightarrow> string list \<times> body_end \<times> sched" where
  "run_metric_stream unix ps g s = (let (out, e, st) = poll_all ps (metric_stream_new g s)
     in (out, e, metric_stream_drop unix st))"

section \<open>Properties\<close>

text \<open>The token counts of the chunks that count: the positive ones.\<close>

fun kept_tokens :: "string list \<Rightarrow> string \<Rightarrow> i64 list" where
  "kept_tokens [] b = []"
| "kept_tokens (c # cs) b = (let (t, b1) = accumulator_feed c b in (if 0 < t then [t] else []) @ kept_tokens cs b1)"

definition same_credit :: "metric_stream \<Rightarrow> metric_stream \<Rightarrow> bool" where
  "same_credit st st1 \<longleftrightarrow> sd_reg (ms_sched st1) = sd_reg (ms_sched st) \<and> lc_flow (ms_lc st1) = lc_flow (ms_lc st)
     \<and> lc_estimated (ms_lc st1) = lc_estimated (ms_lc st)"

lemma count_tokens_effect:
  "same_credit st (count_tokens t st)" "lc_completed (ms_lc (count_tokens t st)) = lc_completed (ms_lc st)"
  "in_i64 (lc_delivered (ms_lc st)) \<Longrightarrow>
     lc_delivered (ms_lc (count_tokens t st)) = wrap_i64 (lc_delivered (ms_lc st) + (if 0 < t then t else 0))"
  "ms_buffer (count_tokens t st) = ms_buffer st"
  by (simp_all add: count_tokens_def same_credit_def Let_def split_beta deliver_frame)

lemma poll_chunks:
  assumes "in_i64 (lc_delivered (ms_lc st))"
  shows "\<exists>st1. poll_all (map Data cs @ ps) st = (let (out, e, st2) = poll_all ps st1 in (cs @ out, e, st2))
    \<and> same_credit st st1 \<and> lc_completed (ms_lc st1) = lc_completed (ms_lc st) \<and> in_i64 (lc_delivered (ms_lc st1))
    \<and> lc_delivered (ms_lc st1) = wrap_i64 (lc_delivered (ms_lc st) + sum_list (kept_tokens cs (ms_buffer st)))"
  using assms
proof (induction cs arbitrary: st)
  case (Cons c cs)
  obtain t b where f: "accumulator_feed c (ms_buffer st) = (t, b)" by fastforce
  let ?st = "count_tokens t (st\<lparr>ms_buffer := b\<rparr>)"
  have d: "lc_delivered (ms_lc ?st) = wrap_i64 (lc_delivered (ms_lc st) + (if 0 < t then t else 0))"
    using count_tokens_effect(3)[of "st\<lparr>ms_buffer := b\<rparr>" t] Cons.prems by simp
  then have "in_i64 (lc_delivered (ms_lc ?st))" by simp
  from Cons.IH[OF this] obtain st1 where IH: "poll_all (map Data cs @ ps) ?st = (let (out, e, st2) = poll_all ps st1 in (cs @ out, e, st2))"
    "same_credit ?st st1" "lc_completed (ms_lc st1) = lc_completed (ms_lc ?st)" "in_i64 (lc_delivered (ms_lc st1))"
    "lc_delivered (ms_lc st1) = wrap_i64 (lc_delivered (ms_lc ?st) + sum_list (kept_tokens cs b))"
    using count_tokens_effect(4)[of t "st\<lparr>ms_buffer := b\<rparr>"] by auto
  show ?case
  proof (intro exI[of _ st1] conjI)
    show "same_credit st st1" "lc_completed (ms_lc st1) = lc_completed (ms_lc st)" "in_i64 (lc_delivered (ms_lc st1))"
      using IH(2-4) count_tokens_effect(1)[of "st\<lparr>ms_buffer := b\<rparr>" t]
        count_tokens_effect(2)[of t "st\<lparr>ms_buffer := b\<rparr>"] by (simp_all add: same_credit_def)
    show "lc_delivered (ms_lc st1) = wrap_i64 (lc_delivered (ms_lc st) + sum_list (kept_tokens (c # cs) (ms_buffer st)))"
      using IH(5) by (simp add: d f add.assoc)
  qed (simp add: f IH(1) split_beta Let_def)
next
  case Nil
  then show ?case by (intro exI[of _ st]) (simp add: same_credit_def)
qed

definition last_end :: "poll list \<Rightarrow> body_end" where
  "last_end ps = (case ps of [] \<Rightarrow> Dropped | Finish # _ \<Rightarrow> Closed | _ \<Rightarrow> Broken)"

text \<open>
  C15. The plain stream: the client gets the backend's chunks unchanged and in order up to the
  deadline, an error, the end, or its own leaving; the body closes cleanly only at the end of the backend's stream;
  and the flow is charged the tokens counted in the chunks - the estimate when it completed without
  any - while no other flow's credit changes.  As in C9 a stream that breaks off after more tokens than the
  estimate is charged them all.
\<close>

theorem plain_stream_passes:
  assumes "list_all (\<lambda>p. \<forall>c. p \<noteq> Data c) (take 1 ps)" and "\<not> lc_completed g" and "lc_delivered g = 0"
    and "in_i64 (sum_list (kept_tokens cs []))" and "in_i64 (lc_estimated g - sum_list (kept_tokens cs []))"
  shows "fst (run_metric_stream unix (map Data cs @ ps) g s) = cs
    \<and> fst (snd (run_metric_stream unix (map Data cs @ ps) g s)) = last_end ps
    \<and> credit_of (sd_reg (snd (snd (run_metric_stream unix (map Data cs @ ps) g s)))) h =
        (if h = lc_flow g then wrap_i64 (credit_of (sd_reg s) h
           + (lc_estimated g - charged (lc_estimated g) (kept_tokens cs []) (last_end ps = Closed)))
         else credit_of (sd_reg s) h)"
proof -
  let ?st = "metric_stream_new g s"
  have st: "ms_buffer ?st = []" "ms_lc ?st = g" "sd_reg (ms_sched ?st) = sd_reg s"
    by (simp_all add: metric_stream_new_def active_guard_new_def)
  obtain st1 where r: "poll_all (map Data cs @ ps) ?st = (let (out, e, st2) = poll_all ps st1 in (cs @ out, e, st2))"
    and st1: "same_credit ?st st1" "\<not> lc_completed (ms_lc st1)" "lc_delivered (ms_lc st1) = sum_list (kept_tokens cs [])"
    using poll_chunks[of ?st cs ps] assms(2-4) by (auto simp: st)
  define g1 where "g1 = (if last_end ps = Closed then mark_completed (ms_lc st1) else ms_lc st1)"
  have last: "poll_all ps st1 = ([], last_end ps, st1\<lparr>ms_lc := g1\<rparr>)"
    using assms(1) by (cases ps; cases "hd ps") (auto simp: last_end_def g1_def)
  have g1: "lc_flow g1 = lc_flow g" "lc_estimated g1 = lc_estimated g" "lc_delivered g1 = sum_list (kept_tokens cs [])"
    "lc_completed g1 \<longleftrightarrow> last_end ps = Closed"
    using st1 by (auto simp: g1_def mark_completed_def same_credit_def st)
  let ?s1 = "ticket_drop (lc_flow g1) (active_guard_drop (ms_sched st1))"
  have "credit_of (sd_reg ?s1) = credit_of (sd_reg s)"
    using st1(1) by (auto simp: same_credit_def st ticket_drop_def release_permit_def active_guard_drop_def fun_eq_iff
        credit_of_def reg_update_def reg_lookup_def dec_active_def split: option.split)
  then show ?thesis using report_restores[OF g1(2,3)] assms(5) g1
    by (simp add: run_metric_stream_def r last metric_stream_drop_def lifecycle_drop_effect charged_def)
qed

theorem plain_stream_passes_witness:
  "run_metric_stream 0 [Data ''data: hi'', Finish] ex_guard (ex_sched None 1) =
     ([''data: hi''], Closed, snd (snd (run_metric_stream 0 [Data ''data: hi'', Finish] ex_guard (ex_sched None 1))))"
proof -
  have k: "kept_tokens [''data: hi''] [] = []"
    by (simp add: accumulator_feed_def extract_tokens_absent find_key_absent del: find_sub.simps)
  show ?thesis using plain_stream_passes[of "[Finish]" ex_guard "[''data: hi'']" 0 "ex_sched None 1"]
    by (simp add: k ex_guard_def in_i64_def i64_min_def i64_max_def last_end_def prod_eq_iff del: kept_tokens.simps)
qed

end
