(* ===== verification/FacadeProps.thy ===== *)
theory FacadeProps
  imports Facade
begin

text \<open>
  Properties of the scheduler facade and the admin endpoints: the depth accounting of an
  admission, when a request is refused, and what registering a flow does.
\<close>

section \<open>Depth accounting\<close>

lemma sum_depths_hput:
  "sum_list (map (\<lambda>(i, f). fl_depth f) (hput k v m)) =
     sum_list (map (\<lambda>(i, f). fl_depth f) m) - (case hget m k of Some f \<Rightarrow> fl_depth f | None \<Rightarrow> 0) + fl_depth v"
  by (induction m) (auto simp: hput_def)

lemma sum_depths_get_or_create [simp]: "sum_depths (snd (get_or_create u f r)) = sum_depths r"
  by (simp add: sum_depths_def get_or_create_def Let_def sum_depths_hput flow_new_def split: option.split)

lemma sum_depths_reg_update:
  assumes "reg_lookup r f = Some fl"
  shows "sum_depths (reg_update f h r) = sum_depths r - fl_depth fl + fl_depth (h fl)"
  using assms by (simp add: sum_depths_def reg_update_def reg_lookup_def sum_depths_hput)

lemma sum_depths_touch_update:
  "sum_depths (reg_update f h (snd (get_or_create u f r))) =
     sum_depths r - fl_depth (reg_flow u r f) + fl_depth (h ((reg_flow u r f)\<lparr>fl_last_seen := u\<rparr>))"
proof -
  have "reg_lookup (snd (get_or_create u f r)) f = Some ((reg_flow u r f)\<lparr>fl_last_seen := u\<rparr>)" by simp
  from sum_depths_reg_update[OF this] show ?thesis by simp
qed

lemma enter_depth:
  "drr_queue_depth (snd (admit_enter cfg u f s)) = drr_queue_depth s + (if fst (admit_enter cfg u f s) = None then 1 else 0)"
proof -
  let ?r = "snd (get_or_create u f (sd_reg s))"
  have "sum_depths (reg_update f (\<lambda>fl. fl\<lparr>fl_depth := fl_depth fl + 1\<rparr>) ?r) = sum_depths ?r + 1"
    by (simp add: sum_depths_touch_update)
  then show ?thesis by (simp add: admit_enter_def drr_queue_depth_def guard_new_def Let_def)
qed

lemma enter_refused:
  assumes "fst (admit_enter cfg u f s) \<noteq> None"
  shows "sd_drr (snd (admit_enter cfg u f s)) = sd_drr s" "sd_queue (snd (admit_enter cfg u f s)) = sd_queue s"
  using assms by (auto simp: admit_enter_def Let_def split: if_splits)

text \<open>What the stages of an admission share: only an entry touches the DRR scheduler.\<close>

definition depth_change :: "admit_outcome \<Rightarrow> u32" where
  "depth_change out = (case out of Entered \<Rightarrow> 1 | InKvGate \<Rightarrow> 1 | _ \<Rightarrow> 0)"

definition queues_kept :: "scheduler \<Rightarrow> scheduler \<Rightarrow> bool" where
  "queues_kept sc sc' \<longleftrightarrow> sd_drr (sc_s sc') = sd_drr (sc_s sc) \<and> sd_queue (sc_s sc') = sd_queue (sc_s sc)"

section \<open>What a refused request leaves behind\<close>

text \<open>
  The registry changes only at one flow: at most its slot, and in its record - a new default one if it had none - the
  priority with its source and the time it was last seen.
\<close>

definition touches_only :: "flow_id \<Rightarrow> registry \<Rightarrow> registry \<Rightarrow> bool" where
  "touches_only f r r1 \<longleftrightarrow> rg_default_weight r1 = rg_default_weight r \<and> rg_default_priority r1 = rg_default_priority r
     \<and> (\<forall>g. g \<noteq> f \<longrightarrow> reg_lookup r1 g = reg_lookup r g \<and> hget (assignments (rg_slots r1)) g = hget (assignments (rg_slots r)) g)
     \<and> (\<exists>p q t. reg_flow 0 r1 f = (reg_flow 0 r f)\<lparr>fl_priority := p, fl_priority_source := q, fl_last_seen := t\<rparr>)"

lemma record_kept: "\<exists>p q t. fl = fl\<lparr>fl_priority := p, fl_priority_source := q, fl_last_seen := t\<rparr>"
  by (intro exI[of _ "fl_priority fl"] exI[of _ "fl_priority_source fl"] exI[of _ "fl_last_seen fl"]) simp

lemma touches_refl [simp]: "touches_only f r r"
  by (simp add: touches_only_def record_kept)

lemma touches_trans: "touches_only f a b \<Longrightarrow> touches_only f b c \<Longrightarrow> touches_only f a c"
  by (fastforce simp: touches_only_def)

lemma touches_create: "touches_only f r (snd (get_or_create u f r))"
  unfolding touches_only_def
  by (intro conjI exI[of _ "fl_priority (reg_flow 0 r f)"] exI[of _ "fl_priority_source (reg_flow 0 r f)"] exI[of _ u])
    (simp_all add: reg_flow_def flow_new_def split: option.split)

lemma touches_update:
  assumes "\<exists>p q t. h (reg_flow 0 r f) = (reg_flow 0 r f)\<lparr>fl_priority := p, fl_priority_source := q, fl_last_seen := t\<rparr>"
  shows "touches_only f r (reg_update f h r)"
proof (cases "reg_lookup r f")
  case None
  then have "reg_update f h r = r" by (simp add: reg_update_def reg_lookup_def)
  then show ?thesis by simp
next
  case (Some fl)
  then show ?thesis using assms by (simp add: touches_only_def reg_flow_def)
qed

lemma touches_slot: "touches_only f r (snd (assign_slot f n r))"
proof -
  have "hget (assignments (snd (slot_assign f n a))) g = hget (assignments a) g" if "g \<noteq> f" for g a
    using that by (simp add: slot_assign_def slot_place_def Let_def split: option.split)
  moreover have "reg_lookup (snd (assign_slot f n r)) = reg_lookup r" "rg_slots (snd (assign_slot f n r)) = snd (slot_assign f n (rg_slots r))"
    "rg_default_weight (snd (assign_slot f n r)) = rg_default_weight r" "rg_default_priority (snd (assign_slot f n r)) = rg_default_priority r"
    by (simp_all add: fun_eq_iff assign_slot_def reg_lookup_def split_beta Let_def)
  moreover from this have "reg_flow 0 (snd (assign_slot f n r)) f = reg_flow 0 r f" by (simp add: reg_flow_def split: option.split)
  ultimately show ?thesis by (simp add: touches_only_def record_kept)
qed

lemma touches_override: "touches_only f r (apply_priority_override u f cls unset classes r)"
proof -
  let ?r = "snd (get_or_create u f r)"
  have "touches_only f ?r (reg_update f (\<lambda>fl. fl\<lparr>fl_priority_source := q, fl_priority := p\<rparr>) ?r)"
    "touches_only f ?r (reg_update f (\<lambda>fl. fl\<lparr>fl_priority := p, fl_priority_source := q\<rparr>) ?r)" for p q
    by (intro touches_update exI[of _ p] exI[of _ q] exI[of _ "fl_last_seen (reg_flow 0 ?r f)"], simp)+
  note upd = this[THEN touches_trans[OF touches_create]]
  show ?thesis by (cases unset; cases cls) (simp_all add: apply_priority_override_def upd touches_create)
qed

text \<open>What is accounted for elsewhere in the metrics.\<close>

definition same_counts :: "metrics \<Rightarrow> metrics \<Rightarrow> bool" where
  "same_counts m m1 \<longleftrightarrow> m_active_flows m1 = m_active_flows m \<and> m_requests_active m1 = m_requests_active m
     \<and> m_events m1 = m_events m \<and> m_tokens_generated m1 = m_tokens_generated m \<and> m_queue_depth m1 = m_queue_depth m"

text \<open>
  The whole trace: the scheduler's tables with permits and queues, the reporting queue, the number of requests in the KV gate, the
  monitor's readings and the progress of running requests are unchanged, the registry and the cadence
  heuristic know one flow's arrival more.
\<close>

definition refusal_trace :: "flow_id \<Rightarrow> scheduler \<Rightarrow> scheduler \<Rightarrow> bool" where
  "refusal_trace f sc sc1 \<longleftrightarrow> sd_drr (sc_s sc1) = sd_drr (sc_s sc) \<and> sd_queue (sc_s sc1) = sd_queue (sc_s sc)
     \<and> sd_progress (sc_s sc1) = sd_progress (sc_s sc) \<and> sd_usage (sc_s sc1) = sd_usage (sc_s sc)
     \<and> sc_delayed sc1 = sc_delayed sc \<and> sc_snapshot sc1 = sc_snapshot sc \<and> sc_stalled sc1 = sc_stalled sc
     \<and> same_counts (sd_met (sc_s sc)) (sd_met (sc_s sc1)) \<and> touches_only f (sd_reg (sc_s sc)) (sd_reg (sc_s sc1))
     \<and> cr_policy (sc_cadence sc1) = cr_policy (sc_cadence sc) \<and> cr_classes (sc_cadence sc1) = cr_classes (sc_cadence sc)
     \<and> (\<forall>g. g \<noteq> f \<longrightarrow> hget (cr_inner (sc_cadence sc1)) g = hget (cr_inner (sc_cadence sc)) g)"

lemma refusal_trans: "refusal_trace f a b \<Longrightarrow> refusal_trace f b c \<Longrightarrow> refusal_trace f a c"
  using touches_trans[of f "sd_reg (sc_s a)" "sd_reg (sc_s b)" "sd_reg (sc_s c)"] by (simp add: refusal_trace_def same_counts_def)

lemma refusal_prologue: "refusal_trace f sc (snd (admit_prologue f now u tb sc))"
proof -
  let ?r = "snd (get_or_create u f (sd_reg (sc_s sc)))" and ?fl = "fst (get_or_create u f (sd_reg (sc_s sc)))"
  let ?c = "classify_and_apply u f ?fl (snd (record_arrival f now u tb (sc_cadence sc)))"
  have "\<exists>p. fst ?c = ?fl\<lparr>fl_priority := p\<rparr>"
    by (intro exI[of _ "fl_priority (fst ?c)"]) (simp add: classify_and_apply_def Let_def)
  then obtain p where p: "fst ?c = ?fl\<lparr>fl_priority := p\<rparr>" ..
  have "reg_flow 0 ?r f = ?fl" by (simp add: reg_flow_def get_or_create_fst)
  then have "touches_only f ?r (reg_update f (\<lambda>_. fst ?c) ?r)"
    by (intro touches_update exI[of _ p] exI[of _ "fl_priority_source ?fl"] exI[of _ "fl_last_seen ?fl"]) (simp add: p)
  from touches_trans[OF touches_create this]
  have "touches_only f (sd_reg (sc_s sc)) (sd_reg (sc_s (snd (admit_prologue f now u tb sc))))"
    by (simp add: admit_prologue_def Let_def split_beta)
  then show ?thesis
    by (auto simp: refusal_trace_def admit_prologue_def same_counts_def set_priority_metrics_def record_arrival_def
        classify_and_apply_def state_of_def Let_def split_beta split: option.split)
qed

lemma refusal_kv:
  assumes "kv_check_start pol ia snap d m = (r, d1, m1)" and "r \<noteq> None"
  shows "d1 = d \<and> same_counts m m1"
  using assms by (auto simp: kv_check_start_def inc_decision_def same_counts_def split: if_splits option.splits kvm_decision.splits)

lemma refusal_after_kv:
  assumes "admit_after_kv env f u sc = (Refused d, sc1)"
  shows "refusal_trace f sc sc1"
proof (cases "sc_stalled sc")
  case True
  then have "sc1 = sc" using assms by (simp add: admit_after_kv_def)
  then show ?thesis by (simp add: refusal_trace_def same_counts_def)
next
  case False
  then have "sc1 = sc\<lparr>sc_s := (sc_s sc)\<lparr>sd_reg := snd (get_or_create u f (sd_reg (sc_s sc)))\<rparr>\<rparr>"
    using assms by (auto simp: admit_after_kv_def admit_inner_def admit_enter_def Let_def split: if_splits)
  then show ?thesis using touches_create by (simp add: refusal_trace_def same_counts_def)
qed

lemma refusal_admit:
  assumes "admit_with_turn_boundary env f now u tb sc = (Refused d, sc1)"
  shows "refusal_trace f sc sc1"
proof -
  obtain p sc0 where pro: "admit_prologue f now u tb sc = (p, sc0)" by fastforce
  then have p: "refusal_trace f sc sc0" using refusal_prologue[of f sc now u tb] by simp
  obtain r e m where kv: "kv_check_start (se_kv env) (p = se_interactive env) (sc_snapshot sc0) (sc_delayed sc0) (sd_met (sc_s sc0))
      = (r, e, m)" by (metis prod_cases3)
  let ?sc2 = "sc0\<lparr>sc_s := (sc_s sc0)\<lparr>sd_met := m\<rparr>, sc_delayed := e\<rparr>"
  have res: "(Refused d, sc1) = (case r of None \<Rightarrow> (InKvGate, ?sc2) | Some Proceed \<Rightarrow> admit_after_kv env f u ?sc2
      | Some (Rejected after) \<Rightarrow> (Refused after, ?sc2) | Some Panicked \<Rightarrow> (Crashed, ?sc2))"
    using assms unfolding admit_with_turn_boundary_def pro kv Let_def prod.case by (rule sym)
  then have "r \<noteq> None" by (cases r) auto
  from refusal_kv[OF kv this] have 2: "refusal_trace f sc0 ?sc2" by (simp add: refusal_trace_def)
  have "sc1 = ?sc2 \<or> refusal_trace f ?sc2 sc1"
    using res refusal_after_kv[of env f u ?sc2 d sc1] by (auto split: option.splits admission.splits)
  then show ?thesis using refusal_trans[OF p 2] refusal_trans by blast
qed

section \<open>Stages of an admission\<close>

lemma prologue_effect:
  assumes "admit_prologue f now unix tb sc = (p, sc')"
  shows "queues_kept sc sc'" "drr_queue_depth (sc_s sc') = drr_queue_depth (sc_s sc)" "sc_delayed sc' = sc_delayed sc"
    "sc_stalled sc' = sc_stalled sc" "sc_snapshot sc' = sc_snapshot sc"
proof -
  let ?fr = "get_or_create unix f (sd_reg (sc_s sc))"
  let ?fl = "fst (classify_and_apply unix f (fst ?fr) (snd (record_arrival f now unix tb (sc_cadence sc))))"
  have reg: "sd_reg (sc_s sc') = reg_update f (\<lambda>_. ?fl) (snd ?fr)"
    using assms by (auto simp: admit_prologue_def Let_def split_beta)
  have "fl_depth ?fl = fl_depth (fst ?fr)" by (simp add: classify_and_apply_def Let_def)
  then have "sum_depths (sd_reg (sc_s sc')) = sum_depths (sd_reg (sc_s sc))"
    unfolding reg by (simp add: sum_depths_touch_update get_or_create_fst)
  then show "drr_queue_depth (sc_s sc') = drr_queue_depth (sc_s sc)" by (simp add: drr_queue_depth_def)
  show "queues_kept sc sc'" "sc_delayed sc' = sc_delayed sc" "sc_stalled sc' = sc_stalled sc" "sc_snapshot sc' = sc_snapshot sc"
    using assms by (auto simp: admit_prologue_def Let_def split_beta queues_kept_def)
qed

lemma after_kv_effect:
  assumes "admit_after_kv env f unix sc = (out, sc')"
  shows "sc_delayed sc' = sc_delayed sc" "out \<noteq> InKvGate"
    "drr_queue_depth (sc_s sc') = drr_queue_depth (sc_s sc) + depth_change out"
    "out \<noteq> Entered \<Longrightarrow> queues_kept sc sc'"
proof -
  have "sc_delayed sc' = sc_delayed sc \<and> out \<noteq> InKvGate
    \<and> drr_queue_depth (sc_s sc') = drr_queue_depth (sc_s sc) + depth_change out \<and> (out \<noteq> Entered \<longrightarrow> queues_kept sc sc')"
  proof (cases "sc_stalled sc")
    case True
    then show ?thesis using assms by (auto simp: admit_after_kv_def depth_change_def queues_kept_def)
  next
    case False
    let ?e = "admit_enter (se_drr env) unix f (sc_s sc)"
    have "out = (case fst ?e of None \<Rightarrow> Entered | Some (Some d) \<Rightarrow> Refused d | Some None \<Rightarrow> Crashed)" "sc' = sc\<lparr>sc_s := snd ?e\<rparr>"
      using assms False by (auto simp: admit_after_kv_def admit_inner_def split_beta Let_def)
    then show ?thesis using enter_depth[of "se_drr env" unix f "sc_s sc"] enter_refused[of "se_drr env" unix f "sc_s sc"]
      by (auto simp: depth_change_def queues_kept_def split: option.splits)
  qed
  then show "sc_delayed sc' = sc_delayed sc" "out \<noteq> InKvGate"
    "drr_queue_depth (sc_s sc') = drr_queue_depth (sc_s sc) + depth_change out"
    "out \<noteq> Entered \<Longrightarrow> queues_kept sc sc'" by auto
qed

lemma kv_start_effect:
  assumes "kv_check_start pol ia snap d m = (r, d', m')"
  shows "d' = d + (if r = None then 1 else 0)"
  using assms by (auto simp: kv_check_start_def split: if_splits option.splits kvm_decision.splits)

lemma admission_depth_accounting_core:
  assumes "admit_with_turn_boundary env f now unix tb sc = (out, sc')"
    and "admit_resume env w f unix sd = (out2, sd')"
  shows "scheduler_queue_depth sc' = scheduler_queue_depth sc + depth_change out
    \<and> (out \<noteq> Entered \<longrightarrow> queues_kept sc sc')
    \<and> scheduler_queue_depth sd' = scheduler_queue_depth sd - 1 + depth_change out2 \<and> out2 \<noteq> InKvGate
    \<and> (out2 \<noteq> Entered \<longrightarrow> queues_kept sd sd')"
proof -
  obtain p sc1 where pro: "admit_prologue f now unix tb sc = (p, sc1)" by fastforce
  note P = prologue_effect[OF pro]
  obtain r d m where kv: "kv_check_start (se_kv env) (p = se_interactive env) (sc_snapshot sc1) (sc_delayed sc1) (sd_met (sc_s sc1))
      = (r, d, m)" by (metis prod_cases3)
  let ?sc2 = "sc1\<lparr>sc_s := (sc_s sc1)\<lparr>sd_met := m\<rparr>, sc_delayed := d\<rparr>"
  have res: "(out, sc') = (case r of None \<Rightarrow> (InKvGate, ?sc2) | Some Proceed \<Rightarrow> admit_after_kv env f unix ?sc2
      | Some (Rejected after) \<Rightarrow> (Refused after, ?sc2) | Some Panicked \<Rightarrow> (Crashed, ?sc2))"
    using assms(1) unfolding admit_with_turn_boundary_def pro kv Let_def prod.case by (rule sym)
  have d: "d = sc_delayed sc + (if r = None then 1 else 0)" using kv_start_effect[OF kv] P(3) by simp
  have s2: "queues_kept sc ?sc2" "drr_queue_depth (sc_s ?sc2) = drr_queue_depth (sc_s sc)"
    using P(1,2) by (auto simp: queues_kept_def drr_queue_depth_def)
  have one: "scheduler_queue_depth sc' = scheduler_queue_depth sc + depth_change out \<and> (out \<noteq> Entered \<longrightarrow> queues_kept sc sc')"
  proof (cases "r = Some Proceed")
    case True
    then have "admit_after_kv env f unix ?sc2 = (out, sc')" using res by simp
    from after_kv_effect[OF this] show ?thesis using s2 d True
      by (auto simp: scheduler_queue_depth_def queues_kept_def)
  next
    case False
    then have "sc' = ?sc2" "depth_change out = (if r = None then 1 else 0)" "out \<noteq> Entered"
      using res by (auto simp: depth_change_def split: option.splits admission.splits)
    then show ?thesis using s2 d by (simp add: scheduler_queue_depth_def)
  qed
  obtain a e where w: "kv_wait_end (se_kv env) w (sc_delayed sd) = (a, e)" by fastforce
  then have e: "e = sc_delayed sd - 1" by (auto simp: kv_wait_end_def split: wait_result.splits)
  have two: "scheduler_queue_depth sd' = scheduler_queue_depth sd - 1 + depth_change out2 \<and> out2 \<noteq> InKvGate
      \<and> (out2 \<noteq> Entered \<longrightarrow> queues_kept sd sd')"
  proof (cases "a = Proceed")
    case True
    then have "admit_after_kv env f unix (sd\<lparr>sc_delayed := e\<rparr>) = (out2, sd')" using assms(2) by (simp add: admit_resume_def w)
    from after_kv_effect[OF this] show ?thesis using e by (auto simp: scheduler_queue_depth_def queues_kept_def)
  next
    case False
    then have "sd' = sd\<lparr>sc_delayed := e\<rparr>" "depth_change out2 = 0" "out2 \<noteq> Entered" "out2 \<noteq> InKvGate"
      using assms(2) by (cases a; auto simp: admit_resume_def w depth_change_def Let_def)+
    then show ?thesis using e by (simp add: scheduler_queue_depth_def queues_kept_def)
  qed
  from one two show ?thesis by blast
qed

text \<open>
  Admission keeps the reported depth and leaves no trace of a refusal: calling
  \<open>admit_with_turn_boundary\<close> raises \<open>queue_depth()\<close> by one exactly if the request enters
  the scheduler or waits in the KV gate; a refused request (KV gate, stall gate or
  fail-fast limit) leaves queues, cursor, permits, reporting queue and depth as they were;
  and when the wait in the KV gate ends the depth drops by one unless the request enters.
\<close>

theorem admission_depth_accounting:
  assumes "admit_with_turn_boundary env f now unix tb sc = (out, sc')"
    and "admit_resume env w f unix sd = (out2, sd')"
  shows "scheduler_queue_depth sc' = scheduler_queue_depth sc + depth_change out
    \<and> (out \<noteq> Entered \<longrightarrow> queues_kept sc sc')
    \<and> scheduler_queue_depth sd' = scheduler_queue_depth sd - 1 + depth_change out2 \<and> out2 \<noteq> InKvGate
    \<and> (out2 \<noteq> Entered \<longrightarrow> queues_kept sd sd')"
  using assms by (rule admission_depth_accounting_core)

text \<open>A blocking scheduler with two permits and an idle, healthy or stalled backend.\<close>

definition ex_env :: scheduler_env where
  "ex_env = \<lparr> se_drr = ex_cfg, se_kv = pol_default Blocking, se_interactive = 100 \<rparr>"

definition ex_scheduler :: "bool \<Rightarrow> scheduler" where
  "ex_scheduler stalled = \<lparr> sc_s = sy_s run0, sc_delayed = 0, sc_snapshot = Some snapshot_default,
     sc_cadence = \<lparr> cr_inner = [], cr_policy = priority_policy_default, cr_classes = priorities_default \<rparr>,
     sc_stalled = stalled \<rparr>"

theorem admission_depth_accounting_witness:
  "scheduler_queue_depth (snd (admit_with_turn_boundary ex_env ''a'' 0 0 True (ex_scheduler True))) = 0"
proof -
  let ?r = "admit_with_turn_boundary ex_env ''a'' 0 0 True (ex_scheduler True)"
  have "fst ?r = Refused stall_retry_after"
    by (simp add: admit_with_turn_boundary_def ex_env_def split_beta kv_check_start_def pol_default_def
        admit_prologue_def Let_def ex_scheduler_def effective_decision_def decide_def snapshot_default_def admit_after_kv_def)
  then have r: "?r = (Refused stall_retry_after, snd ?r)" by (metis prod.collapse)
  have "scheduler_queue_depth (ex_scheduler True) = 0"
    by (simp add: scheduler_queue_depth_def ex_scheduler_def run0_def sys_new_def drr_queue_depth_def sum_depths_def registry_new_def)
  with admission_depth_accounting[OF r prod.collapse[symmetric]] show ?thesis by (simp add: depth_change_def)
qed

section \<open>Who is refused\<close>

text \<open>
  In blocking mode only a stalled backend refuses requests: if the KV gate and the
  DRR scheduler run in blocking mode, a request is refused only while the stall signal is
  up, always with the 5 second delay, and never by a panic; and while the signal is up no
  request enters the scheduler, neither directly nor out of the KV gate.
\<close>

theorem blocking_refuses_only_stalled:
  assumes "kv_mode (se_kv env) = Blocking" and "dc_mode (se_drr env) = Blocking"
    and "admit_with_turn_boundary env f now unix tb sc = (out, sc')" and "w \<noteq> WaitTimeout"
    and "admit_resume env w f unix sd = (out2, sd')"
  shows "(out = Refused d \<longrightarrow> sc_stalled sc \<and> d = stall_retry_after) \<and> out \<noteq> Crashed
    \<and> (sc_stalled sc \<longrightarrow> out \<in> {InKvGate, Refused stall_retry_after})
    \<and> out2 = (if sc_stalled sd then Refused stall_retry_after else Entered)"
proof -
  have inner: "admit_after_kv env f unix s0 = (o0, s1) \<Longrightarrow> o0 = (if sc_stalled s0 then Refused stall_retry_after else Entered)" for s0 o0 s1
    using assms(2) by (auto simp: admit_after_kv_def admit_inner_def admit_enter_def Let_def)
  obtain p sc1 where pro: "admit_prologue f now unix tb sc = (p, sc1)" by fastforce
  obtain r dd m where kv: "kv_check_start (se_kv env) (p = se_interactive env) (sc_snapshot sc1) (sc_delayed sc1) (sd_met (sc_s sc1))
      = (r, dd, m)" by (metis prod_cases3)
  then have r: "r = None \<or> r = Some Proceed" using assms(1)
    by (auto simp: kv_check_start_def effective_decision_def split: if_splits option.splits kvm_decision.splits)
  let ?sc2 = "sc1\<lparr>sc_s := (sc_s sc1)\<lparr>sd_met := m\<rparr>, sc_delayed := dd\<rparr>"
  have "out = InKvGate \<or> admit_after_kv env f unix ?sc2 = (out, sc')"
    using assms(3) r unfolding admit_with_turn_boundary_def pro kv Let_def prod.case by auto
  moreover have "sc_stalled ?sc2 = sc_stalled sc" using prologue_effect(4)[OF pro] by simp
  ultimately have one: "out = InKvGate \<or> out = (if sc_stalled sc then Refused stall_retry_after else Entered)"
    using inner by metis
  have "\<exists>e. kv_wait_end (se_kv env) w (sc_delayed sd) = (Proceed, e)"
    using assms(4) by (cases w) (simp_all add: kv_wait_end_def)
  then obtain e where "admit_after_kv env f unix (sd\<lparr>sc_delayed := e\<rparr>) = (out2, sd')"
    using assms(5) by (auto simp: admit_resume_def Let_def)
  from inner[OF this] one show ?thesis by (auto split: if_splits)
qed

theorem blocking_refuses_only_stalled_witness:
  "fst (admit_resume ex_env WaitDone ''a'' 0 (ex_scheduler False)) = Entered"
  using blocking_refuses_only_stalled[OF _ _ prod.collapse[symmetric] _ prod.collapse[symmetric], of ex_env WaitDone]
  by (simp add: ex_env_def pol_default_def ex_cfg_def ex_scheduler_def)

text \<open>
  Delayed requests are not seen by the fail-fast check: the scheduler lets a request in, or refuses it, by
  the requests in the DRR scheduler alone, whatever the number of requests that the KV gate holds back,
  although \<open>queue_depth()\<close> and GET /queue count them.
\<close>

theorem fail_fast_ignores_delayed:
  assumes "dc_mode (se_drr env) = FailFast" and "\<not> sc_stalled sc"
  shows "(fst (admit_after_kv env f unix sc) = Entered \<longleftrightarrow> unat (drr_queue_depth (sc_s sc)) \<le> dc_max_queue_depth (se_drr env))
    \<and> fst (admit_after_kv env f unix (sc\<lparr>sc_delayed := d\<rparr>)) = fst (admit_after_kv env f unix sc)
    \<and> scheduler_queue_depth (sc\<lparr>sc_delayed := d\<rparr>) = drr_queue_depth (sc_s sc) + d"
  using assms by (auto simp: admit_after_kv_def admit_inner_def admit_enter_def drr_queue_depth_def scheduler_queue_depth_def
      Let_def split: option.split)

theorem fail_fast_ignores_delayed_witness:
  "fst (admit_after_kv (ex_env\<lparr>se_drr := ex_cfg\<lparr>dc_mode := FailFast, dc_max_queue_depth := 0\<rparr>\<rparr>) ''a'' 0
     ((ex_scheduler False)\<lparr>sc_delayed := 7\<rparr>)) = Entered"
  using fail_fast_ignores_delayed[of "ex_env\<lparr>se_drr := ex_cfg\<lparr>dc_mode := FailFast, dc_max_queue_depth := 0\<rparr>\<rparr>" "ex_scheduler False" "''a''" 0 7]
  by (simp add: ex_scheduler_def run0_def sys_new_def drr_queue_depth_def sum_depths_def registry_new_def)

section \<open>Registering flows\<close>

text \<open>
  \<open>POST /flows\<close> validates and pins: it answers 400 and changes nothing exactly when the
  weight is not positive or the priority is above 100; otherwise it answers 201 for a new
  and 200 for a known flow, stores weight and priority with the admin source (so the
  cadence heuristic no longer writes the priority), keeps the flow's depth, credit and
  activity, and touches no other flow.
\<close>

theorem register_handler_spec:
  assumes "rr_weight req \<noteq> NaN"
  shows "case register_handler unix req sc of
      (Inl (code, msg), sc') \<Rightarrow> code = 400 \<and> sc' = sc \<and> (f_le (rr_weight req) (Fin 0) \<or> 100 < rr_priority req)
    | (Inr (code, resp), sc') \<Rightarrow> f_lt (Fin 0) (rr_weight req) \<and> rr_priority req \<le> 100
        \<and> (code = 201 \<longleftrightarrow> reg_lookup (sd_reg (sc_s sc)) (rr_id req) = None) \<and> code \<in> {200, 201}
        \<and> (\<exists>fl. reg_lookup (sd_reg (sc_s sc')) (rr_id req) = Some fl
             \<and> fl_weight fl = rr_weight req \<and> fl_priority fl = rr_priority req \<and> fl_priority_source fl = 2
             \<and> fst (classify_and_apply u (rr_id req) fl c) = fl
             \<and> fl_depth fl = fl_depth (reg_flow unix (sd_reg (sc_s sc)) (rr_id req))
             \<and> fl_credit fl = fl_credit (reg_flow unix (sd_reg (sc_s sc)) (rr_id req))
             \<and> fl_active fl = fl_active (reg_flow unix (sd_reg (sc_s sc)) (rr_id req)))
        \<and> (g \<noteq> rr_id req \<longrightarrow> reg_lookup (sd_reg (sc_s sc')) g = reg_lookup (sd_reg (sc_s sc)) g)"
proof (cases "f_le (rr_weight req) (Fin 0) \<or> 100 < rr_priority req")
  case True
  then show ?thesis by (auto simp: register_handler_def)
next
  case False
  then have w: "f_lt (Fin 0) (rr_weight req)" using assms by (cases "rr_weight req") auto
  show ?thesis
  proof (cases "reg_lookup (sd_reg (sc_s sc)) (rr_id req)")
    case None
    then show ?thesis using False w
      by (simp add: register_handler_def register_flow_eq Let_def reg_lookup_def reg_flow_def classify_and_apply_def)
  next
    case (Some fl)
    then show ?thesis using False w
      by (simp add: register_handler_def register_flow_eq Let_def reg_lookup_def reg_flow_def classify_and_apply_def)
  qed
qed

definition ex_register :: "f64 \<Rightarrow> register_request" where
  "ex_register w = \<lparr> rr_id = ''b'', rr_weight = w, rr_priority = 70 \<rparr>"

theorem register_handler_spec_witness:
  "case register_handler 1 (ex_register (Fin 2)) (ex_scheduler False) of
     (Inl e, sc') \<Rightarrow> False | (Inr (code, resp), sc') \<Rightarrow> code = 201"
proof -
  have "rr_weight (ex_register (Fin 2)) \<noteq> NaN" by (simp add: ex_register_def)
  from register_handler_spec[OF this, where unix = 1 and sc = "ex_scheduler False"] show ?thesis
    by (auto simp: ex_register_def ex_scheduler_def run0_def sys_new_def register_handler_def Let_def split_beta)
qed

text \<open>
  A fractional weight is accepted and starves the flow: the handler accepts every
  positive weight, but the scheduler accrues \<open>weight as i64\<close>, which is 0 below 1.  Whatever
  is queued for such a flow and whatever deficit it has, it is never eligible; only the
  starvation timeout can select it.
\<close>

theorem fractional_weight_never_eligible:
  assumes "rr_weight req = Fin w" and "0 < w" and "w < 1" and "rr_priority req \<le> 100"
  shows "\<exists>code resp sc'. register_handler unix req sc = (Inr (code, resp), sc')
    \<and> \<not> eligible_in u ((sc_s sc')\<lparr>sd_drr := d\<rparr>) (rr_id req)"
proof -
  obtain code resp sc' where h: "register_handler unix req sc = (Inr (code, resp), sc')"
    "\<exists>fl. reg_lookup (sd_reg (sc_s sc')) (rr_id req) = Some fl \<and> fl_weight fl = Fin w"
    using assms by (cases "reg_lookup (sd_reg (sc_s sc)) (rr_id req)")
      (auto simp: register_handler_def register_flow_eq Let_def reg_lookup_def)
  have "\<lfloor>w\<rfloor> = 0" using assms by (simp add: floor_eq_iff)
  then have "weight_i64 (reg_view u (sd_reg (sc_s sc')) (rr_id req)) = 0"
    using h(2) assms(2) by (auto simp: weight_i64_def reg_view_def reg_flow_def trunc_def)
  then have "\<not> eligible_in u ((sc_s sc')\<lparr>sd_drr := d\<rparr>) (rr_id req)" by (simp add: eligible_in_def accrues_def)
  with h(1) show ?thesis by blast
qed

theorem fractional_weight_never_eligible_witness:
  "fst (register_handler 1 (ex_register (Fin (1 / 2))) (ex_scheduler False))
     = Inr (201, \<lparr> rs_id = ''b'', rs_weight = Fin (1 / 2), rs_priority = 70, rs_status = ''created'', rs_source = 2 \<rparr>)
   \<and> \<not> eligible_in 1 (sc_s (snd (register_handler 1 (ex_register (Fin (1 / 2))) (ex_scheduler False)))) ''b''"
proof -
  let ?r = "register_handler 1 (ex_register (Fin (1 / 2))) (ex_scheduler False)"
  have "\<not> eligible_in 1 ((sc_s (snd ?r))\<lparr>sd_drr := sd_drr (sc_s (snd ?r))\<rparr>) ''b''"
    using fractional_weight_never_eligible[of "ex_register (Fin (1 / 2))" "1 / 2" 1 "ex_scheduler False" 1 "sd_drr (sc_s (snd ?r))"]
    by (auto simp: ex_register_def)
  then show ?thesis
    by (simp add: ex_register_def ex_scheduler_def run0_def sys_new_def register_handler_def register_flow_eq Let_def)
      (simp add: registry_new_def)
qed

end
