(* ===== verification/Proxy.thy ===== *)
theory Proxy
  imports Request MetricStream FacadeProps
begin

text \<open>
  The proxy handler of src/gateway/proxy.rs, cut at its one wait for admission:
  \<open>proxy_start\<close> is everything up to it, \<open>proxy_admitted\<close> everything after the ticket has been
  received.  The backend is a function from the number of earlier requests and the request sent to an
  answer; the guards are dropped where the code drops them.
\<close>

section \<open>The backend's answers\<close>

text \<open>A body that is collected: it arrives, fails, or arrives after the request timeout.\<close>

datatype collected = Collected string | CollectFailed net_error | Slow string

definition body_text :: "collected \<Rightarrow> net_error + string" where
  "body_text c = (case c of Collected b \<Rightarrow> Inr b | Slow b \<Rightarrow> Inr b | CollectFailed e \<Rightarrow> Inl e)"

record answer =
  an_status :: nat
  an_headers :: header_map
  an_body :: collected
  an_reads :: "read list"
  an_read_error :: bool

datatype sent = Answered answer | NoAnswer net_error | TimedOut

definition is_success :: "nat \<Rightarrow> bool" where "is_success code \<longleftrightarrow> 200 \<le> code \<and> code < 300"
definition is_client_error :: "nat \<Rightarrow> bool" where "is_client_error code \<longleftrightarrow> 400 \<le> code \<and> code < 500"
definition is_server_error :: "nat \<Rightarrow> bool" where "is_server_error code \<longleftrightarrow> 500 \<le> code \<and> code < 600"

text \<open>A request as it goes out to the backend.\<close>

record outgoing =
  og_method :: string
  og_url :: string
  og_headers :: header_map
  og_body :: string

record app_env =
  ap_parse :: "string \<Rightarrow> json option"
  ap_print :: "json \<Rightarrow> string option"
  ap_retry :: retry_policy
  ap_transient :: transient_retry_cfg
  ap_mode :: backpressure_mode
  ap_priorities :: priorities
  ap_timeout :: "duration option"
  ap_sched :: scheduler_env
  ap_answer :: "nat \<Rightarrow> outgoing \<Rightarrow> sent"
  ap_gone :: "nat \<Rightarrow> bool"

text \<open>What the handler has worked out about a request before it is admitted.\<close>

record request =
  rq_id :: string
  rq_method :: string
  rq_path :: string
  rq_url :: string
  rq_flow :: flow_id
  rq_headers :: header_map
  rq_body :: string
  rq_streaming :: bool
  rq_work :: f64
  rq_boundary :: bool

text \<open>The first send takes the headers as they are; a send of a retry leaves out the content length.\<close>

definition first_request :: "request \<Rightarrow> outgoing" where
  "first_request rq = \<lparr> og_method = rq_method rq, og_url = rq_url rq, og_headers = rq_headers rq, og_body = rq_body rq \<rparr>"

definition send_retry_request :: "request \<Rightarrow> string \<Rightarrow> outgoing" where
  "send_retry_request rq body =
     \<lparr> og_method = rq_method rq, og_url = rq_url rq, og_headers = hdr_remove ''content-length'' (rq_headers rq), og_body = body \<rparr>"

definition send_retry_request_with_error :: "request \<Rightarrow> string \<Rightarrow> outgoing" where
  "send_retry_request_with_error rq body =
     \<lparr> og_method = rq_method rq, og_url = rq_url rq, og_headers = hdr_remove ''content-length'' (rq_headers rq), og_body = body \<rparr>"

text \<open>The state an admitted request works on.\<close>

record handler =
  hd_lc :: lifecycle
  hd_sched :: sched
  hd_sends :: "outgoing list"
  hd_sleeps :: "duration list"

definition hd_met :: "(metrics \<Rightarrow> metrics) \<Rightarrow> handler \<Rightarrow> handler" where
  "hd_met f h = h\<lparr>hd_sched := (hd_sched h)\<lparr>sd_met := f (sd_met (hd_sched h))\<rparr>\<rparr>"

definition hd_send :: "app_env \<Rightarrow> outgoing \<Rightarrow> handler \<Rightarrow> sent \<times> handler" where
  "hd_send env og h = (ap_answer env (length (hd_sends h)) og, h\<lparr>hd_sends := hd_sends h @ [og]\<rparr>)"

section \<open>Transient re-forwarding\<close>

definition build_error_response :: "nat \<Rightarrow> string \<Rightarrow> header_map \<Rightarrow> string \<Rightarrow> handler \<Rightarrow> response \<times> handler" where
  "build_error_response code body hs req_id h =
     (let h1 = (if is_server_error code then hd_met (\<lambda>m. m\<lparr>m_errors := m_errors m + 1\<rparr>) h else h)
      in (\<lparr> re_status = code, re_headers = hdr_insert ''x-request-id'' req_id (filter_headers hs), re_body = body \<rparr>,
          h1\<lparr>hd_lc := mark_completed (hd_lc h1)\<rparr>))"

datatype retry_outcome = RetrySuccess answer | FinalResponse response | RetryFailed proxy_error

definition backend_exhausted :: "handler \<Rightarrow> handler" where
  "backend_exhausted = hd_met (\<lambda>m. m\<lparr>m_be_exhausted := m_be_exhausted m + 1\<rparr>)"

definition final_response :: "nat \<Rightarrow> string \<Rightarrow> header_map \<Rightarrow> string \<Rightarrow> handler \<Rightarrow> retry_outcome \<times> handler" where
  "final_response code body hs req_id h = (let (r, h1) = build_error_response code body hs req_id h in (FinalResponse r, h1))"

definition pause_and_send :: "app_env \<Rightarrow> outgoing \<Rightarrow> nat \<Rightarrow> handler \<Rightarrow> sent \<times> handler" where
  "pause_and_send env og attempt h =
     (let h1 = h\<lparr>hd_sleeps := hd_sleeps h @ [transient_backoff attempt (ap_transient env)]\<rparr>
      in hd_send env og (hd_met (\<lambda>m. m\<lparr>m_be_retries := m_be_retries m + 1\<rparr>) h1))"

function transient_loop :: "app_env \<Rightarrow> string \<Rightarrow> outgoing \<Rightarrow> nat \<Rightarrow> handler \<Rightarrow> retry_outcome \<times> handler" where
  "transient_loop env req_id og attempt h =
     (let n = attempt + 1; more = (n < tr_max_attempts (ap_transient env)); (ans, h1) = pause_and_send env og n h in
      case ans of
        Answered a \<Rightarrow>
          if is_success (an_status a) then (RetrySuccess a, h1)
          else (case body_text (an_body a) of
             Inl e \<Rightarrow> (RetryFailed (Network e), h1)
           | Inr b \<Rightarrow>
               if classify_llamacpp_error (ap_parse env) b = Transient
               then if more then transient_loop env req_id og n h1
                    else final_response (an_status a) b (an_headers a) req_id (backend_exhausted h1)
               else final_response (an_status a) b (an_headers a) req_id h1)
      | TimedOut \<Rightarrow> (RetryFailed Timeout, h1)
      | NoAnswer e \<Rightarrow>
          if is_transient_network_error e
          then if more then transient_loop env req_id og n h1 else (RetryFailed (Network e), backend_exhausted h1)
          else (RetryFailed (Network e), h1))"
  by pat_completeness auto
termination
  by (relation "measure (\<lambda>(env, req_id, og, attempt, h). tr_max_attempts (ap_transient env) - attempt)") auto

declare transient_loop.simps [simp del]

definition transient_retry :: "app_env \<Rightarrow> request \<Rightarrow> handler \<Rightarrow> retry_outcome \<times> handler" where
  "transient_retry env rq h = transient_loop env (rq_id rq) (send_retry_request_with_error rq (rq_body rq)) 0 h"

section \<open>The premature-stop loop of the non-streaming path\<close>

definition premature_body :: "app_env \<Rightarrow> string \<Rightarrow> bool" where
  "premature_body env body \<longleftrightarrow> (case ap_parse env body of Some v \<Rightarrow> is_premature_stop v | None \<Rightarrow> False)"

text \<open>The result: the number of retries and the body to return; \<open>None\<close> when the bump panics.\<close>

function premature_loop :: "app_env \<Rightarrow> request \<Rightarrow> json \<Rightarrow> nat \<Rightarrow> string \<Rightarrow> handler \<Rightarrow> (nat \<times> string) option \<times> handler" where
  "premature_loop env rq fwd attempts body h =
     (if premature_body env body \<and> attempts < rp_max_retries (ap_retry env)
      then (let h1 = hd_met (\<lambda>m. m\<lparr>m_ps_detected := m_ps_detected m + 1, m_ps_retries := m_ps_retries m + 1\<rparr>) h; n = attempts + 1
            in case bump_temperature fwd n (ap_retry env) of
                 None \<Rightarrow> (None, h1)
               | Some retry_value \<Rightarrow>
                   (case ap_print env retry_value of
                      None \<Rightarrow> (Some (n, body), h1)
                    | Some retry_bytes \<Rightarrow>
                        (let (ans, h2) = hd_send env (send_retry_request rq retry_bytes) h1 in
                         case ans of
                           Answered a \<Rightarrow>
                             if is_success (an_status a)
                             then (case body_text (an_body a) of
                                Inr b \<Rightarrow> premature_loop env rq fwd n b h2
                              | Inl e \<Rightarrow> (Some (n, body), h2))
                             else (Some (n, body), h2)
                         | _ \<Rightarrow> (Some (n, body), h2))))
      else (Some (attempts, body), h))"
  by pat_completeness auto
termination
  by (relation "measure (\<lambda>(env, rq, fwd, attempts, body, h). rp_max_retries (ap_retry env) - attempts)") auto

declare premature_loop.simps [simp del]

definition retry_policy_applies :: "app_env \<Rightarrow> request \<Rightarrow> bool" where
  "retry_policy_applies env rq \<longleftrightarrow>
     rp_enabled (ap_retry env) \<and> 0 < rp_max_retries (ap_retry env) \<and> rq_path rq = ''/v1/chat/completions''"

definition premature_retries :: "app_env \<Rightarrow> request \<Rightarrow> string \<Rightarrow> handler \<Rightarrow> (nat \<times> string) option \<times> handler" where
  "premature_retries env rq body h =
     (if retry_policy_applies env rq
      then (case ap_parse env (rq_body rq) of
              None \<Rightarrow> (Some (0, body), h)
            | Some fwd \<Rightarrow>
                (case premature_loop env rq fwd 0 body h of
                   (None, h1) \<Rightarrow> (None, h1)
                 | (Some (n, b), h1) \<Rightarrow>
                     (Some (n, b), if rp_max_retries (ap_retry env) \<le> n \<and> premature_body env b
                                   then hd_met (\<lambda>m. m\<lparr>m_ps_exhausted := m_ps_exhausted m + 1\<rparr>) h1 else h1)))
      else (Some (0, body), h))"

section \<open>After admission\<close>

text \<open>
  What the client gets: a complete response, a streamed one (its status, headers, chunks and how the body
  ends), an error, or nothing because the handler panicked.
\<close>

datatype reply = Respond response | Stream nat header_map "string list" body_end | Fail proxy_error | Crash

text \<open>Lifecycle guard and ticket are dropped in this order.\<close>

definition release :: "nat \<Rightarrow> handler \<Rightarrow> sched" where
  "release unix h = ticket_drop (lc_flow (hd_lc h)) (lifecycle_drop unix (hd_lc h) (hd_sched h))"

definition hd_active :: "(sched \<Rightarrow> sched) \<Rightarrow> handler \<Rightarrow> handler" where
  "hd_active f h = h\<lparr>hd_sched := f (hd_sched h)\<rparr>"

definition response_headers :: "string \<Rightarrow> header_map \<Rightarrow> header_map" where
  "response_headers req_id hs = hdr_insert ''x-request-id'' req_id (filter_headers hs)"

definition is_sse :: "answer \<Rightarrow> bool" where
  "is_sse a \<longleftrightarrow> (case hdr_str (an_headers a) ''content-type'' of Some v \<Rightarrow> starts_with v ''text/event-stream'' | None \<Rightarrow> False)"

text \<open>The non-streaming path.\<close>

definition collect_in_time :: "app_env \<Rightarrow> collected \<Rightarrow> proxy_error + string" where
  "collect_in_time env c = (case c of
       Collected b \<Rightarrow> Inr b
     | CollectFailed e \<Rightarrow> Inl (Network e)
     | Slow b \<Rightarrow> if ap_timeout env = None then Inr b else Inl Timeout)"

definition count_completion :: "i64 \<Rightarrow> handler \<Rightarrow> handler" where
  "count_completion tokens h = (if 0 < tokens then
     (let h1 = hd_met (\<lambda>m. m\<lparr>m_tokens_generated := m_tokens_generated m + tokens\<rparr>) h;
          (g, s) = add_delivered_tokens tokens (hd_lc h1, hd_sched h1)
      in h1\<lparr>hd_lc := g, hd_sched := s\<rparr>)
     else h)"

definition full_response :: "app_env \<Rightarrow> request \<Rightarrow> answer \<Rightarrow> nat \<Rightarrow> string \<Rightarrow> handler \<Rightarrow> reply \<times> handler" where
  "full_response env rq a retries body h =
     (let h1 = count_completion (extract_completion_tokens (ap_parse env) body) h;
          h2 = h1\<lparr>hd_lc := mark_completed (hd_lc h1)\<rparr>
      in (Respond \<lparr> re_status = an_status a,
            re_headers = hdr_insert ''x-tinyllb-premature-stop-retries'' (show_nat retries) (response_headers (rq_id rq) (an_headers a)),
            re_body = body \<rparr>, h2))"

definition non_streaming :: "app_env \<Rightarrow> request \<Rightarrow> answer \<Rightarrow> handler \<Rightarrow> reply \<times> handler" where
  "non_streaming env rq a h =
     (case collect_in_time env (an_body a) of
        Inl e \<Rightarrow> (Fail e, h)
      | Inr body \<Rightarrow>
          (case premature_retries env rq body h of
             (None, h1) \<Rightarrow> (Crash, h1)
           | (Some (n, b), h1) \<Rightarrow> full_response env rq a n b h1))"

text \<open>
  The streaming paths: the retrying task, or the plain wrapper.  The task's two ways to send a retry
  build the same request.
\<close>

definition stream_env_of :: "app_env \<Rightarrow> request \<Rightarrow> nat \<Rightarrow> stream_env" where
  "stream_env_of env rq k = \<lparr> en_parse = ap_parse env, en_print = ap_print env, en_policy = ap_retry env,
     en_transient = ap_transient env, en_timeout = ap_timeout env, en_body = rq_body rq,
     en_send = (\<lambda>n b. case ap_answer env (k + n) (send_retry_request rq b) of
        Answered a \<Rightarrow> if is_success (an_status a) then Some (an_reads a) else None | _ \<Rightarrow> None),
     en_gone = ap_gone env \<rparr>"

definition poll_of :: "app_env \<Rightarrow> read \<Rightarrow> poll list" where
  "poll_of env r = (case r of Stalled \<Rightarrow> []
     | Chunk c elapsed \<Rightarrow> (case ap_timeout env of Some t \<Rightarrow> if t \<le> elapsed then [Late] else [Data c] | None \<Rightarrow> [Data c]))"

fun until_gone :: "(nat \<Rightarrow> bool) \<Rightarrow> nat \<Rightarrow> poll list \<Rightarrow> poll list" where
  "until_gone gone n [] = []"
| "until_gone gone n (p # ps) = (if gone n then [] else p # until_gone gone (Suc n) ps)"

definition polls_of :: "app_env \<Rightarrow> answer \<Rightarrow> poll list" where
  "polls_of env a = until_gone (ap_gone env) 0
     (concat (map (poll_of env) (an_reads a)) @ [if an_read_error a then Failed else Finish])"

definition streaming :: "nat \<Rightarrow> app_env \<Rightarrow> request \<Rightarrow> answer \<Rightarrow> handler \<Rightarrow> reply \<times> sched" where
  "streaming unix env rq a h =
     (let hs = hdr_insert ''x-request-id'' (rq_id rq) (filter_response_headers_streaming (an_headers a)) in
      if retry_policy_applies env rq
      then (let (e, st, s) = spawn_retry_stream unix (stream_env_of env rq (length (hd_sends h))) (an_reads a) (hd_lc h) (hd_sched h)
            in (Stream (an_status a) hs (st_out st) e, s))
      else (let (out, e, s) = run_metric_stream unix (polls_of env a) (hd_lc h) (hd_sched h)
            in (Stream (an_status a) hs out e, s)))"

text \<open>A response that is no error: the ticket moves into the stream, or stays with the handler.\<close>

definition dispatch :: "nat \<Rightarrow> app_env \<Rightarrow> request \<Rightarrow> answer \<Rightarrow> handler \<Rightarrow> reply \<times> sched" where
  "dispatch unix env rq a h =
     (if is_sse a \<or> rq_streaming rq then streaming unix env rq a h
      else (let (r, h1) = non_streaming env rq a (hd_active active_guard_new h)
            in (r, release unix (hd_active active_guard_drop h1))))"

text \<open>An outcome of the re-forward loop that is not a success ends the handler.\<close>

definition after_retry :: "nat \<Rightarrow> app_env \<Rightarrow> request \<Rightarrow> handler \<Rightarrow> (answer \<Rightarrow> handler \<Rightarrow> reply \<times> sched) \<Rightarrow> reply \<times> sched" where
  "after_retry unix env rq h k = (case transient_retry env rq h of
       (RetrySuccess a, h1) \<Rightarrow> k a h1
     | (FinalResponse r, h1) \<Rightarrow> (Respond r, release unix h1)
     | (RetryFailed e, h1) \<Rightarrow> (Fail e, release unix h1))"

definition check_status :: "nat \<Rightarrow> app_env \<Rightarrow> request \<Rightarrow> answer \<Rightarrow> handler \<Rightarrow> reply \<times> sched" where
  "check_status unix env rq a h =
     (if is_client_error (an_status a) \<or> is_server_error (an_status a)
      then (case body_text (an_body a) of
              Inl e \<Rightarrow> (Fail (Network e), release unix h)
            | Inr b \<Rightarrow>
                if classify_llamacpp_error (ap_parse env) b = Transient \<and> 0 < tr_max_attempts (ap_transient env)
                then after_retry unix env rq h (dispatch unix env rq)
                else (let (r, h1) = build_error_response (an_status a) b (an_headers a) (rq_id rq) h in (Respond r, release unix h1)))
      else dispatch unix env rq a h)"

definition proxy_admitted :: "nat \<Rightarrow> app_env \<Rightarrow> request \<Rightarrow> sched \<Rightarrow> reply \<times> sched" where
  "proxy_admitted unix env rq s =
     (let (g, s1) = lifecycle_new (rq_flow rq) (as_i64 (rq_work rq)) True s;
          (ans, h) = hd_send env (first_request rq) \<lparr> hd_lc = g, hd_sched = s1, hd_sends = [], hd_sleeps = [] \<rparr>
      in case ans of
           Answered a \<Rightarrow> check_status unix env rq a h
         | TimedOut \<Rightarrow> (Fail Timeout, release unix h)
         | NoAnswer e \<Rightarrow>
             (let h1 = hd_met (\<lambda>m. m\<lparr>m_errors := m_errors m + 1\<rparr>) h in
              if is_transient_network_error e \<and> 0 < tr_max_attempts (ap_transient env)
              then after_retry unix env rq h1 (check_status unix env rq)
              else (Fail (Network e), release unix h1)))"

section \<open>Up to admission\<close>

text \<open>
  The request as the server hands it over.  \<open>rw_uuid\<close> is the fresh request id, \<open>rw_flow_uuid\<close>
  the id of an ephemeral flow, and \<open>rw_url\<close> the result of building the backend's URL.
\<close>

record raw_request =
  rw_method :: string
  rw_path :: string
  rw_headers :: header_map
  rw_body :: body_read
  rw_uuid :: string
  rw_flow_uuid :: string
  rw_url :: "proxy_error + string"

datatype start = Refuse proxy_error | Direct request | Wait request admit_outcome

definition choose_slot :: "raw_request \<Rightarrow> flow_id \<Rightarrow> scheduler \<Rightarrow> nat option \<times> scheduler" where
  "choose_slot rw f sc =
     (case (is_inference_request (rw_method rw) (rw_path rw), is_ephemeral f, Option.bind (sc_snapshot sc) bs_slot_count) of
        (True, False, Some n) \<Rightarrow>
          if 1 \<le> n then (let (k, r) = assign_slot f n (sd_reg (sc_s sc)) in (Some k, sc\<lparr>sc_s := (sc_s sc)\<lparr>sd_reg := r\<rparr>\<rparr>))
          else (None, sc)
      | _ \<Rightarrow> (None, sc))"

definition forwarded_body :: "app_env \<Rightarrow> string \<Rightarrow> nat option \<Rightarrow> string" where
  "forwarded_body env body slot =
     (let b1 = (case inject_include_usage (ap_parse env) (ap_print env) body of Some b \<Rightarrow> b | None \<Rightarrow> body)
      in case slot of None \<Rightarrow> b1
         | Some k \<Rightarrow> (case inject_id_slot (ap_parse env) (ap_print env) b1 k of Some b \<Rightarrow> b | None \<Rightarrow> b1))"

definition make_request :: "app_env \<Rightarrow> raw_request \<Rightarrow> string \<Rightarrow> flow_id \<Rightarrow> string \<Rightarrow> nat option \<Rightarrow> request" where
  "make_request env rw url f body slot =
     (let fwd = forwarded_body env body slot; hs = filter_headers (rw_headers rw)
      in \<lparr> rq_id = rw_uuid rw, rq_method = rw_method rw, rq_path = rw_path rw, rq_url = url, rq_flow = f,
           rq_headers = (if fwd \<noteq> body then hdr_remove ''content-length'' hs else hs), rq_body = fwd,
           rq_streaming = body_wants_streaming (ap_parse env) body,
           rq_work = extract_max_tokens (ap_parse env) body,
           rq_boundary = is_turn_boundary_request (ap_parse env) body \<rparr>)"

definition count_source :: "resolved_flow \<Rightarrow> metrics \<Rightarrow> metrics" where
  "count_source rf m =
     (if rf_unset_override rf then m\<lparr>m_priority_source := inc_label (metric_label (rf_flow_id rf), ''auto'') (m_priority_source m)\<rparr>
      else if rf_priority_override rf \<noteq> None
      then m\<lparr>m_priority_source := inc_label (metric_label (rf_flow_id rf), ''header'') (m_priority_source m)\<rparr>
      else m)"

definition override_priority :: "nat \<Rightarrow> app_env \<Rightarrow> resolved_flow \<Rightarrow> scheduler \<Rightarrow> scheduler" where
  "override_priority unix env rf sc = (let s = sc_s sc in
     sc\<lparr>sc_s := s\<lparr>sd_reg := apply_priority_override unix (rf_flow_id rf) (rf_priority_override rf) (rf_unset_override rf)
                            (ap_priorities env) (sd_reg s),
                 sd_met := count_source rf (sd_met s)\<rparr>\<rparr>)"

definition count_rejection :: "app_env \<Rightarrow> scheduler \<Rightarrow> scheduler" where
  "count_rejection env sc = (let s = sc_s sc; m = sd_met s in
     sc\<lparr>sc_s := s\<lparr>sd_met := m\<lparr>m_bp_rejections := inc_label (mode_label (ap_mode env)) (m_bp_rejections m)\<rparr>\<rparr>\<rparr>)"

definition settle_admission :: "app_env \<Rightarrow> request \<Rightarrow> admit_outcome \<times> scheduler \<Rightarrow> start \<times> scheduler" where
  "settle_admission env rq r = (case r of
       (Refused d, sc) \<Rightarrow> (Refuse (RejectedAfter d), count_rejection env sc)
     | (out, sc) \<Rightarrow> (Wait rq out, sc))"

definition proxy_start :: "app_env \<Rightarrow> instant \<Rightarrow> nat \<Rightarrow> raw_request \<Rightarrow> scheduler \<Rightarrow> start \<times> scheduler" where
  "proxy_start env now unix rw sc =
     (case read_body (rw_headers rw) (rw_body rw) of
        Inl e \<Rightarrow> (Refuse e, sc)
      | Inr body \<Rightarrow>
          (let rf = resolve (ap_parse env) (rw_flow_uuid rw) (rw_headers rw) body;
               f = rf_flow_id rf;
               (slot, sc1) = choose_slot rw f sc
           in case rw_url rw of
                Inl e \<Rightarrow> (Refuse e, sc1)
              | Inr url \<Rightarrow>
                  (let rq = make_request env rw url f body slot in
                   if \<not> is_inference_request (rw_method rw) (rw_path rw) then (Direct rq, sc1)
                   else settle_admission env rq
                          (admit_with_turn_boundary (ap_sched env) f now unix (rq_boundary rq) (override_priority unix env rf sc1)))))"

text \<open>Requests that bypass the scheduler.\<close>

definition proxy_direct :: "app_env \<Rightarrow> request \<Rightarrow> reply" where
  "proxy_direct env rq = (case ap_answer env 0 (first_request rq) of
       Answered a \<Rightarrow> (case body_text (an_body a) of
           Inl e \<Rightarrow> Fail (Network e)
         | Inr b \<Rightarrow> Respond \<lparr> re_status = an_status a, re_headers = response_headers (rq_id rq) (an_headers a), re_body = b \<rparr>)
     | NoAnswer e \<Rightarrow> Fail (Network e)
     | TimedOut \<Rightarrow> Fail Timeout)"

end
