(* ===== verification/ProxyProps.thy ===== *)
theory ProxyProps
  imports Proxy
begin

text \<open>
  Properties of the proxy handler: what an admitted request does to permits, gauges and
  events whatever the backend answers, the bounds of its retries, which outcome is charged,
  and that refused and bypassing requests leave the scheduler alone.
\<close>

section \<open>What the stages keep\<close>

text \<open>How many requests have ended, completed or cancelled.\<close>

definition ended :: "sched \<Rightarrow> nat" where
  "ended s = counter (m_events (sd_met s)) ''request_completed'' + counter (m_events (sd_met s)) ''request_cancelled''"

text \<open>Permits, gauges, the flow registry and ended requests are as before.\<close>

definition kept :: "sched \<Rightarrow> sched \<Rightarrow> bool" where
  "kept s s1 \<longleftrightarrow> sd_drr s1 = sd_drr s \<and> sd_reg s1 = sd_reg s \<and> sd_queue s1 = sd_queue s \<and> m_requests_active (sd_met s1) = m_requests_active (sd_met s)
     \<and> m_active_flows (sd_met s1) = m_active_flows (sd_met s) \<and> ended s1 = ended s"

lemma kept_refl [simp]: "kept s s"
  by (simp add: kept_def)

lemma kept_trans: "kept s s1 \<Longrightarrow> kept s1 s2 \<Longrightarrow> kept s s2"
  by (simp add: kept_def)

text \<open>A change of metrics that touches none of the accounts.\<close>

definition side_metric :: "(metrics \<Rightarrow> metrics) \<Rightarrow> bool" where
  "side_metric f \<longleftrightarrow> (\<forall>m. m_requests_active (f m) = m_requests_active m \<and> m_active_flows (f m) = m_active_flows m
     \<and> m_events (f m) = m_events m)"

lemma kept_met: "side_metric f \<Longrightarrow> kept s (s\<lparr>sd_met := f (sd_met s)\<rparr>)"
  by (simp add: kept_def ended_def side_metric_def)

lemma kept_add_delivered: "kept s (snd (add_delivered_tokens n (g, s)))"
  by (simp add: add_delivered_tokens_def kept_def ended_def)

lemma kept_deliver: "kept s (snd (deliver n (g, s)))"
  by (simp add: deliver_def add_delivered_tokens_def record_token_def kept_def ended_def inc_event_def)

lemma flow_frame [simp]:
  "lc_flow (fst (add_delivered_tokens n (g, s))) = lc_flow g" "lc_flow (fst (deliver n (g, s))) = lc_flow g"
  "lc_flow (mark_completed g) = lc_flow g"
  by (simp_all add: add_delivered_tokens_def deliver_def record_token_def mark_completed_def)

lemma kept_lifecycle_new: "kept s (snd (lifecycle_new f est t s))"
  by (simp add: lifecycle_new_def kept_def ended_def inc_event_def)

lemma lifecycle_drop_account:
  "sd_drr (lifecycle_drop u g s) = sd_drr s" "m_requests_active (sd_met (lifecycle_drop u g s)) = m_requests_active (sd_met s)"
  "m_active_flows (sd_met (lifecycle_drop u g s)) = m_active_flows (sd_met s)" "ended (lifecycle_drop u g s) = ended s + 1"
  "sd_queue (lifecycle_drop u g s) = sd_queue s"
  by (auto simp: lifecycle_drop_def report_accounting_eq set_credit_def set_flow_credit_def inc_event_def ended_def Let_def)

text \<open>
  The end of an admitted request: one permit back, one active flow and one open request less, and the
  registry changes only by the two drops.
\<close>

definition drop_reg :: "flow_id \<Rightarrow> registry \<Rightarrow> registry \<Rightarrow> bool" where
  "drop_reg f r r1 \<longleftrightarrow> (\<exists>u g s. sd_reg s = r \<and> lc_flow g = f \<and> (r1 = sd_reg (ticket_drop f (lifecycle_drop u g s))
     \<or> r1 = sd_reg (lifecycle_drop u g (ticket_drop f s))))"

definition ends_request :: "flow_id \<Rightarrow> sched \<Rightarrow> sched \<Rightarrow> bool" where
  "ends_request f s s1 \<longleftrightarrow> sd_drr s1 = sd_drr (release_permit s) \<and> sd_queue s1 = sd_queue s
     \<and> m_requests_active (sd_met s1) = m_requests_active (sd_met s)
     \<and> m_active_flows (sd_met s1) = m_active_flows (sd_met s) - 1 \<and> ended s1 = ended s + 1
     \<and> drop_reg f (sd_reg s) (sd_reg s1)"

lemma ends_after_kept: "kept s s1 \<Longrightarrow> ends_request f s1 s2 \<Longrightarrow> ends_request f s s2"
  by (simp add: kept_def ends_request_def release_permit_def)

lemma ticket_drop_account:
  "sd_drr (ticket_drop f s) = sd_drr (release_permit s)" "m_requests_active (sd_met (ticket_drop f s)) = m_requests_active (sd_met s)"
  "m_active_flows (sd_met (ticket_drop f s)) = m_active_flows (sd_met s) - 1" "ended (ticket_drop f s) = ended s"
  "sd_queue (ticket_drop f s) = sd_queue s"
  by (simp_all add: ticket_drop_def release_permit_def ended_def)

lemma drop_reg_drops:
  "drop_reg (lc_flow g) (sd_reg s) (sd_reg (ticket_drop (lc_flow g) (lifecycle_drop u g s)))"
  "drop_reg (lc_flow g) (sd_reg s) (sd_reg (lifecycle_drop u g (ticket_drop (lc_flow g) s)))"
  unfolding drop_reg_def by blast+

lemma drops_end:
  "ends_request (lc_flow g) s (ticket_drop (lc_flow g) (lifecycle_drop u g s))"
  "ends_request (lc_flow g) s (lifecycle_drop u g (ticket_drop (lc_flow g) s))"
  by (simp_all add: ends_request_def ticket_drop_account lifecycle_drop_account drop_reg_drops)
    (simp add: release_permit_def lifecycle_drop_account)

section \<open>Streams\<close>

definition stream_kept :: "flow_id \<Rightarrow> sched \<Rightarrow> stream_state \<Rightarrow> bool" where
  "stream_kept i s st \<longleftrightarrow> kept s (st_sched st) \<and> lc_flow (st_lc st) = i"

lemma stream_kept_met: "stream_kept i s st \<Longrightarrow> side_metric f \<Longrightarrow> stream_kept i s (with_met f st)"
  using kept_trans[OF _ kept_met] by (simp add: stream_kept_def with_met_def)

lemma stream_kept_fields [simp]:
  "stream_kept i s (st\<lparr>st_out := a\<rparr>) = stream_kept i s st" "stream_kept i s (st\<lparr>st_sends := b\<rparr>) = stream_kept i s st"
  "stream_kept i s (st\<lparr>st_sleeps := c\<rparr>) = stream_kept i s st" "stream_kept i s (st\<lparr>st_transient := d\<rparr>) = stream_kept i s st"
  "stream_kept i s (st\<lparr>st_attempt := d\<rparr>) = stream_kept i s st" "stream_kept i s (st\<lparr>st_lc := mark_completed (st_lc st)\<rparr>) = stream_kept i s st"
  by (simp_all add: stream_kept_def)

lemma side_metrics:
  "side_metric (\<lambda>m. m\<lparr>m_be_retries := a m\<rparr>)" "side_metric (\<lambda>m. m\<lparr>m_be_exhausted := a m\<rparr>)"
  "side_metric (\<lambda>m. m\<lparr>m_ps_exhausted := a m\<rparr>)" "side_metric (\<lambda>m. m\<lparr>m_ps_detected := a m, m_ps_retries := b m\<rparr>)"
  "side_metric (\<lambda>m. m\<lparr>m_tokens_generated := i m\<rparr>)" "side_metric (\<lambda>m. m\<lparr>m_errors := a m\<rparr>)"
  by (simp_all add: side_metric_def)

lemma stream_kept_pieces:
  assumes "stream_kept i s st"
  shows "stream_kept i s (snd (send_out env f st))" "stream_kept i s (ps_exhausted st)" "stream_kept i s (premature_start st)"
    "stream_kept i s (snd (transient_resend env st))" "stream_kept i s (count_frame env f u st)"
proof -
  show "stream_kept i s (count_frame env f u st)"
    using assms stream_kept_met[OF assms side_metrics(5)] kept_trans[OF _ kept_deliver]
    by (simp add: count_frame_def stream_kept_def Let_def split_beta)
qed (use assms in \<open>simp_all add: send_out_def ps_exhausted_def premature_start_def transient_resend_def Let_def
  stream_kept_met side_metrics\<close>)

lemma stream_kept_forward: "stream_kept i s st \<Longrightarrow> stream_kept i s (snd (count_and_forward_frame env f u st))"
  by (simp add: count_and_forward_frame_def stream_kept_pieces)

lemma stream_kept_premature: "stream_kept i s st \<Longrightarrow> stream_kept i s (snd (premature_retry env fwd st))"
proof -
  have send: "stream_kept i s st1 \<Longrightarrow> stream_kept i s (snd (premature_send env v st1))" for st1 v
    by (auto simp: premature_send_def Let_def stream_kept_pieces split: option.split)
  show "stream_kept i s st \<Longrightarrow> ?thesis"
    by (cases rule: premature_retry_cases[of fwd st env]) (simp_all add: stream_kept_pieces send)
qed

lemma stream_kept_handle:
  assumes "stream_kept i s st"
  shows "stream_kept i s (snd (handle_frame env f fl st))"
proof -
  have terminal: "stream_kept i s (snd (terminal_frame env f cls fr fl1 st))" for cls fr fl1
    using assms by (auto simp: terminal_frame_def Let_def stream_kept_forward stream_kept_premature stream_kept_pieces split: option.split)
  obtain a st1 where r: "transient_resend env st = (a, st1)" by fastforce
  then have "stream_kept i s st1" using stream_kept_pieces(4)[OF assms, of env] by simp
  then have resend: "stream_kept i s (snd (case transient_resend env st of (Some script, st1) \<Rightarrow> (Restart script, st1)
      | (None, st1) \<Rightarrow> (case send_out env f st1 of (True, st2) \<Rightarrow> (Abort, st2) | (False, st2) \<Rightarrow> (Gone, st2))))"
    using r by (cases a; cases "en_gone env (length (st_out st1))") (simp_all add: send_out_def)
  show ?thesis using assms terminal resend
    by (auto simp: handle_frame_def open_frame_def Let_def stream_kept_forward stream_kept_pieces split: option.split)
qed

lemma stream_kept_end:
  assumes "stream_kept i s st"
  shows "stream_kept i s (snd (end_attempt env out buf fl st))"
proof -
  obtain ok st0 where sa: "send_all env (parser_finish buf) st = (ok, st0)" by fastforce
  then have k: "stream_kept i s st0" using frozen_send_all[of env "parser_finish buf" st ok st0] assms by (simp add: stream_kept_def)
  obtain a st1 where r: "transient_resend env st0 = (a, st1)" by fastforce
  then have "stream_kept i s st1" using stream_kept_pieces(4)[OF k, of env] by simp
  then have "stream_kept i s (snd (after_eof env fl st0))"
    using k r by (cases a) (simp_all add: after_eof_def stream_kept_met side_metrics)
  then show ?thesis using k sa by (cases ok; cases out) (simp_all add: end_attempt_def)
qed

interpretation accounts: loop_rule env "\<lambda>_. stream_kept i s" "\<lambda>_. stream_kept i s" for env i s
  by unfold_locales (metis stream_kept_handle snd_conv, metis stream_kept_handle snd_conv, metis stream_kept_end snd_conv)

lemma active_guard_ends:
  "kept (active_guard_new s) s1 \<Longrightarrow> ends_request f s1 s2 \<Longrightarrow> ends_request f s (active_guard_drop s2)"
  by (simp add: kept_def ends_request_def active_guard_new_def active_guard_drop_def release_permit_def ended_def)

lemma retry_stream_ends: "ends_request (lc_flow g) s (after_task (spawn_retry_stream u env script g s))"
proof -
  obtain x st where r: "retry_loop env script (stream_start g s) = (x, st)" by fastforce
  have "stream_kept (lc_flow g) (active_guard_new s) (stream_start g s)" by (simp add: stream_kept_def stream_start_def)
  from accounts.loop[OF this r] have k: "kept (active_guard_new s) (st_sched st)" "lc_flow (st_lc st) = lc_flow g" by (simp_all add: stream_kept_def)
  from active_guard_ends[OF k(1) drops_end(1)[of "st_lc st", unfolded k(2)]] show ?thesis using r k(2) by (simp add: spawn_retry_stream_def finish_task_def)
qed

lemma poll_all_kept: "kept (ms_sched st) (ms_sched (snd (snd (poll_all ps st))))"
proof (induction ps arbitrary: st)
  case (Cons p ps)
  have ct: "kept (ms_sched st1) (ms_sched (count_tokens t st1))" for t st1
    using kept_trans[OF kept_met[OF side_metrics(5)[where i = "\<lambda>m. m_tokens_generated m + t"]] kept_deliver]
    by (simp add: count_tokens_def Let_def split_beta)
  show ?case
  proof (cases p)
    case (Data c)
    obtain t b where f: "accumulator_feed c (ms_buffer st) = (t, b)" by fastforce
    show ?thesis using Data f kept_trans[OF _ Cons.IH] ct[of "st\<lparr>ms_buffer := b\<rparr>" t]
      by (simp add: split_beta)
  qed simp_all
qed simp

lemma poll_all_flow: "lc_flow (ms_lc (snd (snd (poll_all ps st)))) = lc_flow (ms_lc st)"
proof (induction ps arbitrary: st)
  case (Cons p ps)
  show ?case using Cons.IH by (cases p) (simp_all add: split_beta count_tokens_def Let_def)
qed simp

lemma metric_stream_ends: "ends_request (lc_flow g) s (snd (snd (run_metric_stream u ps g s)))"
proof -
  obtain out e st where r: "poll_all ps (metric_stream_new g s) = (out, e, st)" by (cases "poll_all ps (metric_stream_new g s)") auto
  have "kept (active_guard_new s) (ms_sched st)"
    using poll_all_kept[of "metric_stream_new g s" ps] r by (simp add: metric_stream_new_def)
  then have "kept s (active_guard_drop (ms_sched st))"
    by (simp add: kept_def active_guard_new_def active_guard_drop_def ended_def)
  moreover have "lc_flow (ms_lc st) = lc_flow g"
    using poll_all_flow[of ps "metric_stream_new g s"] r by (simp add: metric_stream_new_def)
  ultimately show ?thesis using ends_after_kept[OF _ drops_end(2)[of "ms_lc st"]] r
    by (simp add: run_metric_stream_def metric_stream_drop_def)
qed

section \<open>The handler\<close>

definition hd_kept :: "handler \<Rightarrow> handler \<Rightarrow> bool" where
  "hd_kept h h1 \<longleftrightarrow> kept (hd_sched h) (hd_sched h1) \<and> lc_flow (hd_lc h1) = lc_flow (hd_lc h)"

lemma hd_kept_trans: "hd_kept h h1 \<Longrightarrow> hd_kept h1 h2 \<Longrightarrow> hd_kept h h2"
  using kept_trans[of "hd_sched h" "hd_sched h1" "hd_sched h2"] by (simp add: hd_kept_def)

lemma hd_kept_met: "side_metric f \<Longrightarrow> hd_kept h (hd_met f h)"
  using kept_met by (simp add: hd_kept_def hd_met_def)

lemma hd_met_frame [simp]:
  "hd_lc (hd_met f h) = hd_lc h" "hd_sends (hd_met f h) = hd_sends h" "hd_sleeps (hd_met f h) = hd_sleeps h"
  by (simp_all add: hd_met_def)

lemma exhausted_frame [simp]:
  "hd_lc (backend_exhausted h) = hd_lc h" "hd_sends (backend_exhausted h) = hd_sends h"
  "hd_sleeps (backend_exhausted h) = hd_sleeps h" "hd_kept h (backend_exhausted h)"
  by (simp_all add: backend_exhausted_def hd_kept_met side_metrics)

lemma pause_effect:
  assumes "pause_and_send env og n h = (ans, h1)"
  shows "hd_lc h1 = hd_lc h" "hd_sends h1 = hd_sends h @ [og]"
    "hd_sleeps h1 = hd_sleeps h @ [transient_backoff n (ap_transient env)]" "hd_kept h h1"
  using assms kept_met[OF side_metrics(1)[where a = "\<lambda>m. m_be_retries m + 1"], of "hd_sched h"]
  by (auto simp: pause_and_send_def hd_send_def hd_met_def hd_kept_def)

lemma final_effect:
  "\<exists>r h1. final_response code body hs req_id h = (FinalResponse r, h1) \<and> re_status r = code \<and> hd_lc h1 = mark_completed (hd_lc h)
     \<and> hd_sends h1 = hd_sends h \<and> hd_sleeps h1 = hd_sleeps h \<and> hd_kept h h1"
  using kept_met[OF side_metrics(6)[where a = "\<lambda>m. m_errors m + 1"], of "hd_sched h"]
  by (simp add: final_response_def build_error_response_def hd_met_def hd_kept_def)

text \<open>What a run of the re-forward loop comes to: its requests and pauses, and the guard's state per outcome.\<close>

fun outcome_ok :: "retry_outcome \<Rightarrow> lifecycle \<Rightarrow> lifecycle \<Rightarrow> bool" where
  "outcome_ok (RetrySuccess a) g g1 \<longleftrightarrow> is_success (an_status a) \<and> g1 = g"
| "outcome_ok (FinalResponse r) g g1 \<longleftrightarrow> \<not> is_success (re_status r) \<and> g1 = mark_completed g"
| "outcome_ok (RetryFailed e) g g1 \<longleftrightarrow> g1 = g"

definition resent :: "app_env \<Rightarrow> outgoing \<Rightarrow> nat \<Rightarrow> nat \<Rightarrow> handler \<Rightarrow> handler \<Rightarrow> bool" where
  "resent env og attempt k h h1 \<longleftrightarrow> hd_sends h1 = hd_sends h @ replicate k og
     \<and> hd_sleeps h1 = hd_sleeps h @ map (\<lambda>i. transient_backoff i (ap_transient env)) [attempt + 1..<attempt + k + 1]"

definition loop_result :: "app_env \<Rightarrow> outgoing \<Rightarrow> nat \<Rightarrow> handler \<Rightarrow> retry_outcome \<times> handler \<Rightarrow> bool" where
  "loop_result env og attempt h r \<longleftrightarrow> hd_kept h (snd r) \<and> outcome_ok (fst r) (hd_lc h) (hd_lc (snd r))
     \<and> (\<exists>k. 0 < k \<and> attempt + k \<le> max (attempt + 1) (tr_max_attempts (ap_transient env)) \<and> resent env og attempt k h (snd r))"

lemma loop_result_once:
  assumes "hd_sends h1 = hd_sends h @ [og]" and "hd_sleeps h1 = hd_sleeps h @ [transient_backoff (Suc attempt) (ap_transient env)]"
    and "hd_kept h h1" and "outcome_ok out (hd_lc h) (hd_lc h1)"
  shows "loop_result env og attempt h (out, h1)"
  using assms unfolding loop_result_def by (intro conjI exI[of _ 1]) (simp_all add: resent_def)

lemma loop_result_again:
  assumes "loop_result env og (Suc attempt) h1 r" and "Suc attempt < tr_max_attempts (ap_transient env)"
    and "hd_sends h1 = hd_sends h @ [og]" and "hd_sleeps h1 = hd_sleeps h @ [transient_backoff (Suc attempt) (ap_transient env)]"
    and "hd_kept h h1" and "hd_lc h1 = hd_lc h"
  shows "loop_result env og attempt h r"
proof -
  obtain k where k: "0 < k" "Suc attempt + k \<le> max (Suc attempt + 1) (tr_max_attempts (ap_transient env))"
    "resent env og (Suc attempt) k h1 (snd r)"
    using assms(1) by (auto simp: loop_result_def)
  then have "resent env og attempt (Suc k) h (snd r)"
    using assms(3,4) by (simp add: resent_def upt_conv_Cons[of "Suc attempt"] del: upt_Suc)
  then have "\<exists>k. 0 < k \<and> attempt + k \<le> max (attempt + 1) (tr_max_attempts (ap_transient env)) \<and> resent env og attempt k h (snd r)"
    using k(2) assms(2) by (intro exI[of _ "Suc k"]) auto
  moreover have "hd_kept h (snd r)" using assms(1) hd_kept_trans[OF assms(5)] by (simp add: loop_result_def)
  ultimately show ?thesis using assms(1,6) by (simp add: loop_result_def)
qed

lemma transient_loop_result: "loop_result env og attempt h (transient_loop env req_id og attempt h)"
proof (induction env req_id og attempt h rule: transient_loop.induct)
  case (1 env req_id og attempt h)
  obtain ans h1 where p: "pause_and_send env og (attempt + 1) h = (ans, h1)" by fastforce
  note e = pause_effect[OF p]
  have once: "loop_result env og attempt h (out, h2)"
    if "hd_sends h2 = hd_sends h1" "hd_sleeps h2 = hd_sleeps h1" "hd_kept h1 h2" "outcome_ok out (hd_lc h1) (hd_lc h2)" for out h2
    using that e hd_kept_trans[OF e(4) that(3)] by (intro loop_result_once) (simp_all)
  have same: "hd_kept h2 h2" for h2 by (simp add: hd_kept_def)
  have again: "loop_result env og (attempt + 1) h1 r \<Longrightarrow> attempt + 1 < tr_max_attempts (ap_transient env) \<Longrightarrow>
      loop_result env og attempt h r" for r
    using loop_result_again[of env og attempt h1 r h] e by simp
  have final: "loop_result env og attempt h (final_response (an_status a) b hs req_id h2)"
    if "\<not> is_success (an_status a)" "h2 = h1 \<or> h2 = backend_exhausted h1" for a b hs h2
    using final_effect[of "an_status a" b hs req_id h2] that hd_kept_trans[of h1 h2] same
    by (auto intro!: once)
  note IH = 1[OF HOL.refl HOL.refl HOL.refl p[symmetric]]
  note unfold = transient_loop.simps[of env req_id og attempt h, unfolded Let_def p case_prod_conv]
  show ?case
  proof (cases ans)
    case (Answered a)
    show ?thesis
    proof (cases "is_success (an_status a) \<or> (\<exists>er. body_text (an_body a) = Inl er)")
      case True
      then show ?thesis unfolding unfold Answered by (auto intro!: once simp: same split: sum.split)
    next
      case False
      then obtain b where b: "body_text (an_body a) = Inr b" "\<not> is_success (an_status a)" by (cases "body_text (an_body a)") auto
      show ?thesis unfolding unfold Answered using b final[OF b(2)] again[OF IH(1)[OF Answered b(2,1)]] by simp
    qed
  next
    case (NoAnswer er)
    have "loop_result env og attempt h (RetryFailed (Network er), h2)" if "h2 = h1 \<or> h2 = backend_exhausted h1" for h2
      using that by (auto intro!: once simp: same)
    then show ?thesis unfolding unfold NoAnswer using again[OF IH(2)[OF NoAnswer]] by simp
  next
    case TimedOut
    then show ?thesis unfolding unfold by (auto intro!: once simp: same)
  qed
qed

text \<open>
  C23. Transient re-forwarding: the loop sends the identical request, without its content length, at least once and at most
  \<open>max_attempts\<close> times, each time after the backoff of its number, and ends with a success
  response, the guard still open; with a final error response, the guard marked completed; or with an error,
  the guard left to be dropped as cancelled.
\<close>

theorem transient_retry_spec:
  assumes "0 < tr_max_attempts (ap_transient env)"
  shows "\<exists>k. 0 < k \<and> k \<le> tr_max_attempts (ap_transient env)
      \<and> hd_sends (snd (transient_retry env rq h)) = hd_sends h @ replicate k (send_retry_request_with_error rq (rq_body rq))
      \<and> hd_sleeps (snd (transient_retry env rq h)) = hd_sleeps h @ map (\<lambda>i. transient_backoff i (ap_transient env)) [1..<k + 1]
      \<and> outcome_ok (fst (transient_retry env rq h)) (hd_lc h) (hd_lc (snd (transient_retry env rq h)))"
  using transient_loop_result[of env "send_retry_request_with_error rq (rq_body rq)" 0 h "rq_id rq"] assms
  by (auto simp: loop_result_def transient_retry_def resent_def)

section \<open>The accounts of an admitted request\<close>

definition premature_result :: "app_env \<Rightarrow> nat \<Rightarrow> handler \<Rightarrow> (nat \<times> string) option \<times> handler \<Rightarrow> bool" where
  "premature_result env attempts h r \<longleftrightarrow> hd_kept h (snd r) \<and> hd_lc (snd r) = hd_lc h
     \<and> (case fst r of None \<Rightarrow> True
        | Some (n, b) \<Rightarrow> attempts \<le> n \<and> n \<le> max attempts (rp_max_retries (ap_retry env))
            \<and> length (hd_sends (snd r)) + attempts \<le> length (hd_sends h) + n)"

lemma premature_step:
  assumes "premature_result env (attempts + 1) h2 r" and "attempts < rp_max_retries (ap_retry env)"
    and "hd_kept h h2" and "hd_lc h2 = hd_lc h" and "length (hd_sends h2) \<le> length (hd_sends h) + 1"
  shows "premature_result env attempts h r"
  using assms hd_kept_trans[OF assms(3)] by (auto simp: premature_result_def split: option.splits prod.splits)

lemma premature_stop_here:
  assumes "hd_kept h h2" and "hd_lc h2 = hd_lc h" and "length (hd_sends h2) \<le> length (hd_sends h) + 1"
    and "attempts < rp_max_retries (ap_retry env)"
  shows "premature_result env attempts h (Some (attempts + 1, b), h2)"
  using assms by (simp add: premature_result_def)

lemma premature_loop_result: "premature_result env attempts h (premature_loop env rq fwd attempts body h)"
proof (induction env rq fwd attempts body h rule: premature_loop.induct)
  case (1 env rq fwd attempts body h)
  let ?h1 = "hd_met (\<lambda>m. m\<lparr>m_ps_detected := m_ps_detected m + 1, m_ps_retries := m_ps_retries m + 1\<rparr>) h"
  have k1: "hd_kept h ?h1" by (intro hd_kept_met side_metrics)
  show ?case
  proof (cases "premature_body env body \<and> attempts < rp_max_retries (ap_retry env)")
    case False
    have "premature_loop env rq fwd attempts body h = (Some (attempts, body), h)"
      unfolding premature_loop.simps[of env rq fwd attempts body h] if_not_P[OF False] ..
    then show ?thesis by (simp add: premature_result_def hd_kept_def)
  next
    case c: True
    note loop = premature_loop.simps[of env rq fwd attempts body h, unfolded Let_def if_P[OF c]]
    show ?thesis
    proof (cases "bump_temperature fwd (attempts + 1) (ap_retry env)")
      case None
      then show ?thesis using k1 by (simp add: loop premature_result_def)
    next
      case v: (Some v)
      note loop = loop[unfolded v option.case]
      have stop: "premature_result env attempts h (Some (attempts + 1, b), h2)"
        if "h2 = ?h1 \<or> h2 = ?h1\<lparr>hd_sends := hd_sends h @ [x]\<rparr>" for b h2 x
        using that c k1 by (intro premature_stop_here) (auto simp: hd_kept_def)
      show ?thesis
      proof (cases "ap_print env v")
        case None
        from loop[unfolded None option.case] show ?thesis using stop[of ?h1] by simp
      next
        case b: (Some b)
        let ?h2 = "?h1\<lparr>hd_sends := hd_sends h @ [send_retry_request rq b]\<rparr>"
        have send: "hd_send env (send_retry_request rq b) ?h1 = (ap_answer env (length (hd_sends h)) (send_retry_request rq b), ?h2)" by (simp add: hd_send_def)
        note loop = loop[unfolded b option.case send case_prod_conv]
        show ?thesis
        proof (cases "\<exists>a b2. ap_answer env (length (hd_sends h)) (send_retry_request rq b) = Answered a \<and> is_success (an_status a) \<and> body_text (an_body a) = Inr b2")
          case True
          then obtain a b2 where a: "ap_answer env (length (hd_sends h)) (send_retry_request rq b) = Answered a" "is_success (an_status a)"
            "body_text (an_body a) = Inr b2" by blast
          have "premature_result env (attempts + 1) ?h2 (premature_loop env rq fwd (attempts + 1) b2 ?h2)"
            by (rule 1[OF c HOL.refl HOL.refl v b HOL.refl send[symmetric] a])
          from premature_step[OF this] c k1 loop[unfolded a] show ?thesis by (simp add: a hd_kept_def)
        next
          case False
          then have "premature_loop env rq fwd attempts body h = (Some (attempts + 1, body), ?h2)"
            unfolding loop by (auto split: sent.split sum.split)
          then show ?thesis using stop[of ?h2 "send_retry_request rq b"] by simp
        qed
      qed
    qed
  qed
qed

lemma premature_retries_result: "premature_result env 0 h (premature_retries env rq body h)"
proof -
  have stay: "premature_result env 0 h (Some (0, body), h)" by (simp add: premature_result_def hd_kept_def)
  have loop: "premature_result env 0 h (case premature_loop env rq fwd 0 body h of (None, h1) \<Rightarrow> (None, h1)
      | (Some (n, b), h1) \<Rightarrow> (Some (n, b), if P n b then hd_met (\<lambda>m. m\<lparr>m_ps_exhausted := m_ps_exhausted m + 1\<rparr>) h1 else h1))" for fwd P
    using premature_loop_result[of env 0 h rq fwd body]
      hd_kept_trans[OF _ hd_kept_met[OF side_metrics(3)[where a = "\<lambda>m. m_ps_exhausted m + 1"]]]
    by (auto simp: premature_result_def split: prod.splits option.splits)
  show ?thesis using stay loop by (simp add: premature_retries_def split: option.split)
qed

lemma count_completion_kept: "hd_kept h (count_completion t h)"
  using kept_trans[OF kept_met[OF side_metrics(5)[where i = "\<lambda>m. m_tokens_generated m + t"]] kept_add_delivered]
  by (simp add: count_completion_def hd_kept_def hd_met_def Let_def split_beta)

lemma non_streaming_kept: "hd_kept h (snd (non_streaming env rq a h))"
proof (cases "collect_in_time env (an_body a)")
  case (Inr body)
  obtain o1 h1 where r: "premature_retries env rq body h = (o1, h1)" by fastforce
  then have k: "hd_kept h h1" using premature_retries_result[of env h rq body] by (simp add: premature_result_def)
  show ?thesis
  proof (cases o1)
    case (Some nb)
    obtain n b where nb: "nb = (n, b)" by fastforce
    have "hd_kept h (count_completion (extract_completion_tokens (ap_parse env) b) h1)"
      by (rule hd_kept_trans[OF k count_completion_kept])
    then show ?thesis using Inr r Some nb by (simp add: non_streaming_def full_response_def hd_kept_def Let_def)
  qed (use Inr r k in \<open>simp add: non_streaming_def\<close>)
qed (simp add: non_streaming_def hd_kept_def)

lemma release_ends: "hd_kept h h1 \<Longrightarrow> ends_request (lc_flow (hd_lc h)) (hd_sched h) (release u h1)"
  using ends_after_kept[OF _ drops_end(1)[of "hd_lc h1"]] by (simp add: hd_kept_def release_def)

lemma dispatch_ends: "ends_request (lc_flow (hd_lc h)) (hd_sched h) (snd (dispatch u env rq a h))"
proof (cases "is_sse a \<or> rq_streaming rq")
  case True
  let ?env = "stream_env_of env rq (length (hd_sends h))"
  have "ends_request (lc_flow (hd_lc h)) (hd_sched h) (snd (streaming u env rq a h))"
    using retry_stream_ends[of "hd_lc h" "hd_sched h" u ?env "an_reads a"] metric_stream_ends[of "hd_lc h" "hd_sched h" u "polls_of env a"]
    by (simp add: streaming_def split_beta Let_def)
  then show ?thesis using True by (simp add: dispatch_def)
next
  case False
  obtain r h1 where n: "non_streaming env rq a (hd_active active_guard_new h) = (r, h1)" by fastforce
  then have "kept (active_guard_new (hd_sched h)) (hd_sched h1) \<and> lc_flow (hd_lc h1) = lc_flow (hd_lc h)"
    using non_streaming_kept[of "hd_active active_guard_new h" env rq a] by (simp add: hd_kept_def hd_active_def)
  then have "hd_kept h (hd_active active_guard_drop h1)"
    by (simp add: hd_kept_def hd_active_def kept_def active_guard_new_def active_guard_drop_def ended_def)
  from release_ends[OF this] show ?thesis using False n by (simp add: dispatch_def)
qed

lemma after_retry_ends:
  assumes "\<And>a h1. ends_request (lc_flow (hd_lc h1)) (hd_sched h1) (snd (k a h1))"
  shows "ends_request (lc_flow (hd_lc h)) (hd_sched h) (snd (after_retry u env rq h k))"
proof -
  obtain out h1 where r: "transient_retry env rq h = (out, h1)" by fastforce
  then have "hd_kept h h1" using transient_loop_result[of env "send_retry_request_with_error rq (rq_body rq)" 0 h "rq_id rq"]
    by (simp add: loop_result_def transient_retry_def)
  moreover from this have "ends_request (lc_flow (hd_lc h)) (hd_sched h) (snd (k a h1))" for a
    using ends_after_kept[OF _ assms[of h1 a]] by (simp add: hd_kept_def)
  ultimately show ?thesis using r release_ends[of h h1] by (cases out) (simp_all add: after_retry_def)
qed

lemma build_error_kept: "hd_kept h (snd (build_error_response code body hs i h))"
  using kept_met[OF side_metrics(6)[where a = "\<lambda>m. m_errors m + 1"], of "hd_sched h"]
  by (simp add: build_error_response_def hd_kept_def hd_met_def)

lemma check_status_ends: "ends_request (lc_flow (hd_lc h)) (hd_sched h) (snd (check_status u env rq a h))"
proof (cases "is_client_error (an_status a) \<or> is_server_error (an_status a)")
  case True
  have same: "hd_kept h h" by (simp add: hd_kept_def)
  show ?thesis
  proof (cases "body_text (an_body a)")
    case (Inr b)
    show ?thesis
      using True Inr after_retry_ends[OF dispatch_ends] release_ends[OF build_error_kept]
      by (simp add: check_status_def split_beta Let_def)
  qed (use True release_ends[OF same] in \<open>simp add: check_status_def\<close>)
qed (simp add: check_status_def dispatch_ends)

lemma admitted_ends: "ends_request (rq_flow rq) s (snd (proxy_admitted unix env rq s))"
proof -
  obtain g s1 where l: "lifecycle_new (rq_flow rq) (as_i64 (rq_work rq)) True s = (g, s1)" by fastforce
  then have k: "kept s s1" and g: "lc_flow g = rq_flow rq"
    using kept_lifecycle_new[of s "rq_flow rq" "as_i64 (rq_work rq)" True] by (auto simp: lifecycle_new_def)
  let ?h = "\<lparr> hd_lc = g, hd_sched = s1, hd_sends = [first_request rq], hd_sleeps = [] \<rparr>"
  have same: "hd_kept ?h ?h" by (simp add: hd_kept_def)
  have err: "hd_kept ?h (hd_met (\<lambda>m. m\<lparr>m_errors := m_errors m + 1\<rparr>) ?h)" by (intro hd_kept_met side_metrics)
  have retry: "ends_request (rq_flow rq) s1 (snd (after_retry unix env rq (hd_met (\<lambda>m. m\<lparr>m_errors := m_errors m + 1\<rparr>) ?h) (check_status unix env rq)))"
    using ends_after_kept[OF conjunct1[OF err[unfolded hd_kept_def]] after_retry_ends[OF check_status_ends, of _ unix env rq]] g by simp
  have "ends_request (rq_flow rq) s1 (snd (proxy_admitted unix env rq s))"
    using check_status_ends[of ?h unix env rq] release_ends[OF same, of unix] release_ends[OF err, of unix] retry g
    by (cases "ap_answer env 0 (first_request rq)") (auto simp: proxy_admitted_def l hd_send_def Let_def)
  from ends_after_kept[OF k this] show ?thesis .
qed

text \<open>
  C5. An admitted request ends exactly once: whatever the backend answers and whenever the
  client leaves, when the handler and its stream are done one permit has been returned, the gauges of
  active flows and open requests are back, and exactly one completion or cancellation has been
  recorded.
\<close>

theorem admitted_request_ends_once:
  "sd_drr (snd (proxy_admitted unix env rq s)) = sd_drr (release_permit s)
   \<and> m_requests_active (sd_met (snd (proxy_admitted unix env rq s))) = m_requests_active (sd_met s)
   \<and> m_active_flows (sd_met (snd (proxy_admitted unix env rq s))) = m_active_flows (sd_met s) - 1
   \<and> ended (snd (proxy_admitted unix env rq s)) = ended s + 1"
  using admitted_ends[of rq s unix env] by (simp add: ends_request_def)

section \<open>Outcomes\<close>

text \<open>A lifecycle guard just created, and what its drop reports.\<close>

lemma new_guard: "lifecycle_new f est t s = (g, s1) \<Longrightarrow>
    lc_flow g = f \<and> lc_estimated g = est \<and> \<not> lc_completed g \<and> lc_delivered g = 0 \<and> sd_reg s1 = sd_reg s"
  by (auto simp: lifecycle_new_def)

lemma release_credit:
  "credit_of (sd_reg (release u h)) f =
     (if f = lc_flow (hd_lc h) then wrap_i64 (credit_of (sd_reg (hd_sched h)) f + restore_cost (lifecycle_report (hd_lc h)))
      else credit_of (sd_reg (hd_sched h)) f)"
proof -
  have "credit_of (sd_reg (ticket_drop i s)) f = credit_of (sd_reg s) f" for i s
    by (auto simp: ticket_drop_def release_permit_def credit_of_def reg_update_def reg_lookup_def dec_active_def split: option.split)
  then show ?thesis by (simp add: release_def lifecycle_drop_effect)
qed

lemma error_credit:
  "credit_of (sd_reg (hd_sched (snd (build_error_response code b hs i h)))) = credit_of (sd_reg (hd_sched h))"
  by (simp add: build_error_response_def hd_met_def)

text \<open>
  C24. Backend errors pass through and are charged: if the first answer has an error status and is no
  transient llama.cpp error, the client gets its status and body unchanged with the filtered headers and the request
  id, and the flow keeps paying the whole estimate although nothing was generated.
\<close>

theorem backend_error_charged:
  assumes "ap_answer env 0 (first_request rq) = Answered a" and "is_client_error (an_status a) \<or> is_server_error (an_status a)"
    and "body_text (an_body a) = Inr b" and "classify_llamacpp_error (ap_parse env) b \<noteq> Transient"
    and "in_i64 (credit_of (sd_reg s) (rq_flow rq))"
  shows "fst (proxy_admitted unix env rq s) =
      Respond \<lparr> re_status = an_status a, re_headers = response_headers (rq_id rq) (an_headers a), re_body = b \<rparr>
    \<and> credit_of (sd_reg (snd (proxy_admitted unix env rq s))) f = credit_of (sd_reg s) f"
proof -
  obtain g s1 where l: "lifecycle_new (rq_flow rq) (as_i64 (rq_work rq)) True s = (g, s1)" by fastforce
  let ?h = "\<lparr> hd_lc = g, hd_sched = s1, hd_sends = [first_request rq], hd_sleeps = [] \<rparr>"
  let ?b = "build_error_response (an_status a) b (an_headers a) (rq_id rq) ?h"
  have run: "proxy_admitted unix env rq s = (Respond (fst ?b), release unix (snd ?b))"
    using assms(1-4) by (simp add: proxy_admitted_def l hd_send_def check_status_def split_beta Let_def)
  have "hd_lc (snd ?b) = mark_completed g" by (simp add: build_error_response_def)
  then have "restore_cost (lifecycle_report (hd_lc (snd ?b))) = 0" "lc_flow (hd_lc (snd ?b)) = rq_flow rq"
    using new_guard[OF l] by (simp_all add: mark_completed_def lifecycle_report_def restore_cost_def)
  then show ?thesis using new_guard[OF l] assms(5)
    by (auto simp: run release_credit error_credit build_error_response_def response_headers_def hd_met_def)
qed

text \<open>
  Failures before a response are free: if the first attempt times out, or fails with a network error
  that is not transient, the client gets 408 or 502 and the flow its whole estimate back.
\<close>

theorem connect_failure_refunded:
  assumes "ap_answer env 0 (first_request rq) = TimedOut \<and> e = Timeout
    \<or> ap_answer env 0 (first_request rq) = NoAnswer ne \<and> \<not> is_transient_network_error ne \<and> e = Network ne"
  shows "fst (proxy_admitted unix env rq s) = Fail e
    \<and> credit_of (sd_reg (snd (proxy_admitted unix env rq s))) f =
        (if f = rq_flow rq then wrap_i64 (credit_of (sd_reg s) f + as_i64 (rq_work rq)) else credit_of (sd_reg s) f)"
proof -
  obtain g s1 where l: "lifecycle_new (rq_flow rq) (as_i64 (rq_work rq)) True s = (g, s1)" by fastforce
  have r: "restore_cost (lifecycle_report g) = as_i64 (rq_work rq)"
    using new_guard[OF l] by (simp add: lifecycle_report_def restore_cost_def)
  show ?thesis using assms new_guard[OF l] r
    by (auto simp: proxy_admitted_def l hd_send_def Let_def release_credit hd_met_def)
qed

definition reply_headers :: "reply \<Rightarrow> header_map option" where
  "reply_headers r = (case r of Respond re \<Rightarrow> Some (re_headers re) | Stream _ hs _ _ \<Rightarrow> Some hs | _ \<Rightarrow> None)"

definition own_headers :: "string \<Rightarrow> header_map option \<Rightarrow> bool" where
  "own_headers i o1 \<longleftrightarrow> (case o1 of None \<Rightarrow> True
     | Some hs \<Rightarrow> hdr_get hs ''x-request-id'' = Some i \<and> list_all (\<lambda>(n, v). n \<notin> set hop_by_hop) hs)"

lemma hdr_get_insert: "hdr_get (hdr_insert k v hs) j = (if j = k then Some v else hdr_get hs j)"
proof -
  have rm: "map_of (filter (\<lambda>(n, v). n \<noteq> k) hs) j = (if j = k then None else map_of hs j)" by (induction hs) auto
  then show ?thesis by (auto simp: hdr_get_def hdr_insert_def hdr_remove_def map_add_def split: option.split)
qed

lemma own_insert:
  "list_all (\<lambda>(n, v). n \<notin> set hop_by_hop) hs \<Longrightarrow> own_headers i (Some (hdr_insert ''x-request-id'' i hs))"
  by (auto simp: own_headers_def hdr_get_insert)
    (auto simp: hdr_insert_def hdr_remove_def list_all_iff hop_by_hop_def)

lemma own_response_headers: "own_headers i (Some (response_headers i hs))"
  unfolding response_headers_def by (rule own_insert) (auto simp: filter_headers_def list_all_iff Let_def)

lemma own_streaming: "own_headers i (Some (hdr_insert ''x-request-id'' i (filter_response_headers_streaming hs)))"
  by (rule own_insert) (auto simp: filter_response_headers_streaming_def hdr_remove_def filter_headers_def list_all_iff Let_def)

lemma own_full: "own_headers i (Some (hdr_insert ''x-tinyllb-premature-stop-retries'' v (response_headers i hs)))"
  using own_response_headers[of i hs]
  by (auto simp: own_headers_def hdr_get_insert hdr_insert_def[of "''x-tinyllb-premature-stop-retries''"] hdr_remove_def list_all_iff
      hop_by_hop_def) (simp add: hdr_get_insert[unfolded hdr_insert_def hdr_remove_def])

lemma transient_final_headers:
  "transient_loop env i body n h = (FinalResponse r, h1) \<Longrightarrow> \<exists>hs. re_headers r = response_headers i hs"
proof (induction env i body n h rule: transient_loop.induct)
  case (1 env i body n h)
  obtain ans h0 where p: "pause_and_send env body (n + 1) h = (ans, h0)" by fastforce
  have final: "final_response code b hs i h2 = (FinalResponse r, h1) \<Longrightarrow> \<exists>hs. re_headers r = response_headers i hs" for code b hs h2
    by (auto simp: final_response_def build_error_response_def response_headers_def Let_def)
  note IH = 1(1,2)[OF HOL.refl HOL.refl HOL.refl p[symmetric]]
  note res = 1(3)[unfolded transient_loop.simps[of env i body n h] Let_def p case_prod_conv]
  show ?case
  proof (cases ans)
    case (Answered a)
    then show ?thesis using res IH(1)[OF Answered] final by (auto split: sum.splits if_splits)
  next
    case (NoAnswer e)
    then show ?thesis using res IH(2)[OF NoAnswer] by (auto split: if_splits)
  qed (use res in simp)
qed

lemma own_dispatch: "own_headers (rq_id rq) (reply_headers (fst (dispatch u env rq a h)))"
proof (cases "is_sse a \<or> rq_streaming rq")
  case True
  then show ?thesis using own_streaming by (simp add: dispatch_def streaming_def reply_headers_def split_beta Let_def)
next
  case False
  have "own_headers (rq_id rq) (reply_headers (fst (non_streaming env rq a h1)))" for h1
    using own_full by (auto simp: non_streaming_def full_response_def reply_headers_def own_headers_def Let_def
        split: sum.split prod.split option.split)
  then show ?thesis using False by (simp add: dispatch_def split_beta Let_def)
qed

lemma own_after_retry:
  assumes "\<And>a h1. own_headers (rq_id rq) (reply_headers (fst (k a h1)))"
  shows "own_headers (rq_id rq) (reply_headers (fst (after_retry u env rq h k)))"
proof (cases "transient_retry env rq h")
  case (Pair out h1)
  then show ?thesis using assms transient_final_headers[of env "rq_id rq" "send_retry_request_with_error rq (rq_body rq)" 0 h _ h1] own_response_headers
    by (cases out) (auto simp: after_retry_def transient_retry_def reply_headers_def own_headers_def)
qed

lemma own_check_status: "own_headers (rq_id rq) (reply_headers (fst (check_status u env rq a h)))"
proof -
  have "own_headers (rq_id rq) (reply_headers (Respond (fst (build_error_response code b hs (rq_id rq) h))))" for code b hs
    using own_response_headers[of "rq_id rq" hs] by (simp add: build_error_response_def reply_headers_def response_headers_def)
  moreover have "own_headers (rq_id rq) (reply_headers (Fail e))" for e by (simp add: own_headers_def reply_headers_def)
  ultimately show ?thesis using own_after_retry[OF own_dispatch] own_dispatch
    by (simp add: check_status_def split_beta Let_def split: sum.split)
qed

text \<open>
  Every complete or streamed response carries the request's own id, whatever the backend
  sent under that name, and no hop-by-hop header; only the error responses of the
  proxy itself come without the id.
\<close>

theorem responses_carry_request_id:
  "own_headers (rq_id rq) (reply_headers (fst (proxy_admitted unix env rq s)))
   \<and> own_headers (rq_id rq) (reply_headers (proxy_direct env rq))
   \<and> hdr_get (re_headers (into_response e)) ''x-request-id'' = None"
proof (intro conjI)
  have fail: "own_headers (rq_id rq) (reply_headers (Fail e))" for e by (simp add: own_headers_def reply_headers_def)
  show "own_headers (rq_id rq) (reply_headers (fst (proxy_admitted unix env rq s)))"
    using own_check_status own_after_retry[OF own_check_status] fail
    by (simp add: proxy_admitted_def hd_send_def split_beta Let_def split: sent.split)
  show "own_headers (rq_id rq) (reply_headers (proxy_direct env rq))"
    using fail own_response_headers by (simp add: proxy_direct_def reply_headers_def split: sent.split sum.split)
  show "hdr_get (re_headers (into_response e)) ''x-request-id'' = None"
    by (cases e) (simp_all add: into_response_def text_response_def hdr_get_def)
qed

section \<open>Requests that do not reach the backend\<close>

text \<open>
  Requests outside the two inference routes never touch the scheduler: no slot, no priority, no queue
  and no metric changes, so backpressure cannot hold metadata back.
\<close>

theorem metadata_bypasses_scheduler:
  assumes "\<not> is_inference_request (rw_method rw) (rw_path rw)"
  shows "snd (proxy_start env now unix rw sc) = sc
    \<and> ((\<exists>rq. fst (proxy_start env now unix rw sc) = Direct rq) \<or> (\<exists>e. fst (proxy_start env now unix rw sc) = Refuse e))"
  using assms by (auto simp: proxy_start_def choose_slot_def Let_def split: sum.split)

lemma admit_rejections:
  assumes "admit_with_turn_boundary env f now unix tb sc = (out, sc1)"
  shows "m_bp_rejections (sd_met (sc_s sc1)) = m_bp_rejections (sd_met (sc_s sc))"
proof -
  have pro: "m_bp_rejections (sd_met (sc_s (snd (admit_prologue f now unix tb sc)))) = m_bp_rejections (sd_met (sc_s sc))"
    by (auto simp: admit_prologue_def set_priority_metrics_def Let_def split_beta split: option.split)
  have kv: "m_bp_rejections (snd (snd (kv_check_start pol ia snap d m))) = m_bp_rejections m" for pol ia snap d m
    by (auto simp: kv_check_start_def inc_decision_def split: option.split kvm_decision.split)
  have "m_bp_rejections (sd_met (sc_s sc1)) = m_bp_rejections (sd_met (sc_s sc0))" if "admit_after_kv env f unix sc0 = (out, sc1)" for sc0
    using that by (auto simp: admit_after_kv_def admit_inner_def admit_enter_def guard_new_def set_queue_depth_def Let_def split_beta split: if_splits)
  then show ?thesis using assms pro kv
    by (auto simp: admit_with_turn_boundary_def Let_def split_beta split: option.splits admission.splits)
qed

lemma refusal_slot: "refusal_trace f sc (snd (choose_slot rw f sc))"
  using touches_slot[of f "sd_reg (sc_s sc)"]
  by (auto simp: choose_slot_def refusal_trace_def same_counts_def Let_def split_beta split: bool.split option.split)

lemma refusal_override: "refusal_trace (rf_flow_id rf) sc (override_priority u env rf sc)"
  by (simp add: refusal_trace_def override_priority_def same_counts_def count_source_def Let_def touches_override)


section \<open>The forwarded body\<close>

text \<open>
  What an inference request of a pinned flow sends: if JSON printing and parsing are inverse
  on the bodies involved, the forwarded body is the client's object with \<open>id_slot\<close> set to the flow's
  slot, every key but \<open>id_slot\<close> and \<open>stream_options\<close> unchanged, and with usage reporting
  requested whenever the client streams and its \<open>stream_options\<close> are absent or an object.
\<close>

theorem pinned_body:
  assumes "ap_parse env body = Some (JObj m)"
    and "\<And>m1. m1 \<in> {with_include_usage m, obj_insert ''id_slot'' (JNum (PosInt k)) m,
        obj_insert ''id_slot'' (JNum (PosInt k)) (with_include_usage m)} \<Longrightarrow>
      \<exists>b. ap_print env (JObj m1) = Some b \<and> ap_parse env b = Some (JObj m1)"
  shows "\<exists>m1. ap_parse env (forwarded_body env body (Some k)) = Some (JObj m1)
    \<and> map_of m1 ''id_slot'' = Some (JNum (PosInt k))
    \<and> (j \<in> {''id_slot'', ''stream_options''} \<or> map_of m1 j = map_of m j)
    \<and> (Option.bind (map_of m ''stream'') j_as_bool \<noteq> Some True
        \<or> (\<exists>o1. map_of m ''stream_options'' = Some o1 \<and> j_as_object o1 = None) \<or> asks_usage m1)"
proof -
  let ?m1 = "if Option.bind (map_of m ''stream'') j_as_bool = Some True \<and> \<not> asks_usage m then with_include_usage m else m"
  let ?b1 = "case inject_include_usage (ap_parse env) (ap_print env) body of Some b \<Rightarrow> b | None \<Rightarrow> body"
  note spec = inject_include_usage_core[of "ap_parse env" body m "ap_print env", OF assms(1)]
  obtain b where b: "ap_print env (JObj (with_include_usage m)) = Some b" "ap_parse env b = Some (JObj (with_include_usage m))"
    using assms(2)[of "with_include_usage m"] by auto
  have p1: "ap_parse env ?b1 = Some (JObj ?m1)" using spec b assms(1) by (simp split: option.split)
  obtain b2 where b2: "ap_print env (JObj (obj_insert ''id_slot'' (JNum (PosInt k)) ?m1)) = Some b2"
    "ap_parse env b2 = Some (JObj (obj_insert ''id_slot'' (JNum (PosInt k)) ?m1))"
    using assms(2)[of "obj_insert ''id_slot'' (JNum (PosInt k)) ?m1"] by (cases "?m1 = m") (auto split: if_splits)
  have f: "forwarded_body env body (Some k) = b2"
    using p1 b2(1) by (simp add: forwarded_body_def inject_id_slot_def Let_def del: if_split)
  have asks: "asks_usage (obj_insert ''id_slot'' v m0) = asks_usage m0" for v m0 by (simp add: asks_usage_def)
  show ?thesis
    using b2(2) with_include_usage_other[of j m] with_include_usage_asks[of m] asks
    by (intro exI[of _ "obj_insert ''id_slot'' (JNum (PosInt k)) ?m1"]) (auto simp: f split: option.splits)
qed

section \<open>Concrete requests\<close>

text \<open>A backend that answers the first request with a given answer and then is gone.\<close>

definition ex_app :: "sent \<Rightarrow> app_env" where
  "ex_app ans = \<lparr> ap_parse = (\<lambda>_. None), ap_print = (\<lambda>_. None), ap_retry = ex_policy,
     ap_transient = \<lparr> tr_max_attempts = 2, tr_backoff_start = 1, tr_backoff_max = 4 \<rparr>, ap_mode = Blocking,
     ap_priorities = priorities_default, ap_timeout = None, ap_sched = ex_env, ap_answer = (\<lambda>_ _. ans), ap_gone = (\<lambda>_. False) \<rparr>"

definition ex_answer :: "nat \<Rightarrow> string \<Rightarrow> answer" where
  "ex_answer code b = \<lparr> an_status = code, an_headers = [], an_body = Collected b, an_reads = [], an_read_error = False \<rparr>"

definition ex_request :: request where
  "ex_request = \<lparr> rq_id = ''r1'', rq_method = ''POST'', rq_path = ''/v1/completions'', rq_url = [], rq_flow = ''a'', rq_headers = [], rq_body = [],
     rq_streaming = False, rq_work = Fin 100, rq_boundary = True \<rparr>"

definition ex_raw :: "string \<Rightarrow> raw_request" where
  "ex_raw path = \<lparr> rw_method = ''POST'', rw_path = path, rw_headers = [(''x-llm-flow-id'', ''a'')], rw_body = Body [],
     rw_uuid = ''r1'', rw_flow_uuid = ''u'', rw_url = Inr [] \<rparr>"

theorem transient_retry_spec_witness:
  "\<exists>k. 0 < k \<and> k \<le> 2 \<and> hd_sends (snd (transient_retry (ex_app TimedOut) ex_request
       \<lparr> hd_lc = ex_guard, hd_sched = ex_sched None 1, hd_sends = [], hd_sleeps = [] \<rparr>)) = replicate k (send_retry_request_with_error ex_request [])"
  using transient_retry_spec[of "ex_app TimedOut" ex_request "\<lparr> hd_lc = ex_guard, hd_sched = ex_sched None 1, hd_sends = [], hd_sleeps = [] \<rparr>"]
  by (auto simp: ex_app_def ex_request_def)

theorem backend_error_charged_witness:
  "fst (proxy_admitted 0 (ex_app (Answered (ex_answer 404 ''no''))) ex_request (ex_sched None 1)) =
     Respond \<lparr> re_status = 404, re_headers = [(''x-request-id'', ''r1'')], re_body = ''no'' \<rparr>"
  using backend_error_charged[of "ex_app (Answered (ex_answer 404 ''no''))" ex_request "ex_answer 404 ''no''" "''no''" "ex_sched None 1" 0]
  by (simp add: ex_app_def ex_request_def ex_answer_def is_client_error_def body_text_def classify_llamacpp_error_def
      ex_sched_def credit_of_def reg_lookup_def response_headers_def filter_headers_def hdr_insert_def hdr_remove_def)

theorem connect_failure_refunded_witness:
  "fst (proxy_admitted 0 (ex_app TimedOut) ex_request (ex_sched None 1)) = Fail Timeout"
  using connect_failure_refunded[of "ex_app TimedOut" ex_request Timeout] by (simp add: ex_app_def)

theorem metadata_bypasses_scheduler_witness:
  "snd (proxy_start (ex_app TimedOut) 0 0 (ex_raw ''/v1/models'') (ex_scheduler True)) = ex_scheduler True"
  using metadata_bypasses_scheduler[of "ex_raw ''/v1/models''"] by (simp add: is_inference_request_def ex_raw_def)

text \<open>A wedged backend refuses the request before it is queued; otherwise it waits in the DRR scheduler.\<close>

lemma ex_admit:
  assumes "sc_snapshot sc = Some snapshot_default"
  shows "fst (admit_with_turn_boundary ex_env f now unix tb sc) = (if sc_stalled sc then Refused stall_retry_after else Entered)"
  using assms by (simp add: admit_with_turn_boundary_def ex_env_def split_beta kv_check_start_def pol_default_def ex_cfg_def
      admit_prologue_def Let_def effective_decision_def decide_def snapshot_default_def admit_after_kv_def admit_inner_def admit_enter_def)

lemma ex_start:
  "\<exists>rq. fst (proxy_start (ex_app ans) 0 0 (ex_raw ''/v1/completions'') (ex_scheduler stalled)) =
     (if stalled then Refuse (RejectedAfter stall_retry_after) else Wait rq Entered)"
proof -
  have "sc_snapshot (override_priority 0 (ex_app ans) rf sc) = sc_snapshot sc"
    "sc_stalled (override_priority 0 (ex_app ans) rf sc) = sc_stalled sc" for rf sc
    by (simp_all add: override_priority_def Let_def)
  then have "fst (admit_with_turn_boundary ex_env f 0 0 tb (override_priority 0 (ex_app ans) rf (ex_scheduler stalled))) =
      (if stalled then Refused stall_retry_after else Entered)" for f tb rf
    by (subst ex_admit) (simp_all add: ex_scheduler_def)
  then have settle: "fst (settle_admission (ex_app ans) rq
      (admit_with_turn_boundary ex_env f 0 0 tb (override_priority 0 (ex_app ans) rf (ex_scheduler stalled)))) =
        (if stalled then Refuse (RejectedAfter stall_retry_after) else Wait rq Entered)" for rq f tb rf
    by (simp add: settle_admission_def split_beta split: admit_outcome.split)
  have "choose_slot (ex_raw ''/v1/completions'') f (ex_scheduler stalled) = (None, ex_scheduler stalled)" for f
    by (simp add: choose_slot_def ex_scheduler_def snapshot_default_def split: bool.split)
  moreover have "read_body (rw_headers (ex_raw ''/v1/completions'')) (Body []) = Inr []"
    by (simp add: read_body_def ex_raw_def hdr_str_def hdr_get_def max_body_size_def)
  moreover have "is_inference_request (rw_method (ex_raw ''/v1/completions'')) (rw_path (ex_raw ''/v1/completions''))"
    by (simp add: is_inference_request_def ex_raw_def)
  moreover have "ap_sched (ex_app ans) = ex_env" "rw_body (ex_raw ''/v1/completions'') = Body []" "rw_url (ex_raw ''/v1/completions'') = Inr []"
    by (simp_all add: ex_app_def ex_raw_def)
  ultimately show ?thesis using settle by (simp add: proxy_start_def Let_def)
qed


text \<open>A printer and a parser that are inverse on the bodies of a short streaming request.\<close>

definition ex_bodies :: "(string \<times> json) list list" where
  "ex_bodies = (let m = [(''stream'', JBool True)]; u = with_include_usage m; s = JNum (PosInt 3)
     in [m, u, obj_insert ''id_slot'' s m, obj_insert ''id_slot'' s u])"

definition ex_codec :: "app_env \<Rightarrow> app_env" where
  "ex_codec env = env\<lparr>ap_print := (\<lambda>v. case v of JObj m \<Rightarrow> Some (concat (List.map fst m)) | _ \<Rightarrow> None),
     ap_parse := (\<lambda>b. map_option JObj (List.find (\<lambda>m. concat (List.map fst m) = b) ex_bodies))\<rparr>"

lemma ex_codec_bodies:
  "ap_parse (ex_codec env) b = map_option JObj (List.find (\<lambda>m. concat (List.map fst m) = b) ex_bodies)"
  "ap_print (ex_codec env) (JObj m) = Some (concat (List.map fst m))"
  by (simp_all add: ex_codec_def)

lemma ex_codec_inverse:
  assumes "m \<in> set ex_bodies"
  shows "\<exists>b. ap_print (ex_codec env) (JObj m) = Some b \<and> ap_parse (ex_codec env) b = Some (JObj m)"
proof -
  have "list_all (\<lambda>m. List.find (\<lambda>m1. concat (List.map fst m1) = concat (List.map fst m)) ex_bodies = Some m) ex_bodies"
    by code_simp
  with assms show ?thesis by (auto simp: ex_codec_bodies list_all_iff)
qed

theorem pinned_body_witness:
  "\<exists>m1. ap_parse (ex_codec (ex_app TimedOut)) (forwarded_body (ex_codec (ex_app TimedOut)) ''stream'' (Some 3)) = Some (JObj m1)
    \<and> map_of m1 ''id_slot'' = Some (JNum (PosInt 3)) \<and> map_of m1 ''stream'' = Some (JBool True) \<and> asks_usage m1"
proof -
  let ?m = "[(''stream'', JBool True)]"
  have 1: "ap_parse (ex_codec (ex_app TimedOut)) ''stream'' = Some (JObj ?m)"
    unfolding ex_codec_bodies by code_simp
  have 2: "\<exists>b. ap_print (ex_codec (ex_app TimedOut)) (JObj m1) = Some b \<and> ap_parse (ex_codec (ex_app TimedOut)) b = Some (JObj m1)"
    if "m1 \<in> {with_include_usage ?m, obj_insert ''id_slot'' (JNum (PosInt 3)) ?m,
        obj_insert ''id_slot'' (JNum (PosInt 3)) (with_include_usage ?m)}" for m1
    using that by (intro ex_codec_inverse) (auto simp: ex_bodies_def Let_def)
  show ?thesis
    using pinned_body[where j = "''stream''", OF 1 2] by simp
qed

end
