(* ===== verification/RegistryLaws.thy ===== *)
theory RegistryLaws
  imports ProxyProps
begin

text \<open>
  What the parts of the gateway do to the flow registry they share.  The locale \<open>outside_law\<close>
  carries a law of the registry through the operations outside the scheduler, \<open>registry_law\<close>
  through the scheduler's own operations as well.  The interpretation here shows that nothing outside the
  scheduler touches what the scheduler accounts for.
\<close>

section \<open>Laws of the registry\<close>

text \<open>A change of one flow record: its id stays, and what is written is in range.\<close>

definition flow_step :: "nat \<Rightarrow> flow \<Rightarrow> flow \<Rightarrow> bool" where
  "flow_step b fl fl1 \<longleftrightarrow> fl_id fl1 = fl_id fl
     \<and> (fl_priority fl1 = fl_priority fl \<or> fl_priority fl1 \<le> b)
     \<and> (fl_priority_source fl1 = fl_priority_source fl \<or> fl_priority_source fl1 \<le> 2)
     \<and> (fl_credit fl1 = fl_credit fl \<or> in_i64 (fl_credit fl1))"

definition classes_below :: "nat \<Rightarrow> priorities \<Rightarrow> bool" where
  "classes_below b c \<longleftrightarrow> pr_interactive c \<le> b \<and> pr_agent c \<le> b \<and> pr_background c \<le> b"

lemma class_value_below: "classes_below b c \<Longrightarrow> class_value c k \<le> b"
  by (cases k) (simp_all add: classes_below_def class_value_def)

lemma state_priority_below: "classes_below b c \<Longrightarrow> state_priority c st \<le> b"
  by (cases st) (simp_all add: classes_below_def state_priority_def)

lemma classify_cases:
  "fst (classify_and_apply u i fl c) = fl
   \<or> (\<exists>st. fst (classify_and_apply u i fl c) = fl\<lparr>fl_priority := state_priority (cr_classes c) st\<rparr>)"
  by (auto simp: classify_and_apply_def Let_def)

lemma classify_classes [simp]: "cr_classes (snd (classify_and_apply u i fl c)) = cr_classes c"
  by (simp add: classify_and_apply_def Let_def)

lemma state_of_classes [simp]: "cr_classes (snd (state_of u i c)) = cr_classes c"
  by (simp add: state_of_def Let_def)

lemma reap_classes [simp]: "cr_classes (snd (cadence_reap_idle u ttl c)) = cr_classes c"
  by (simp add: cadence_reap_idle_def Let_def split_beta)

lemma reg_update_stored: "reg_lookup r f = Some fl \<Longrightarrow> g fl = g1 fl \<Longrightarrow> reg_update f g r = reg_update f g1 r"
  by (simp add: reg_update_def reg_lookup_def)

text \<open>The part of a record that the scheduler accounts for is left alone.\<close>

definition flow_write :: "nat \<Rightarrow> flow \<Rightarrow> flow \<Rightarrow> bool" where
  "flow_write b fl fl1 \<longleftrightarrow> flow_step b fl fl1 \<and> fl_depth fl1 = fl_depth fl \<and> fl_active fl1 = fl_active fl"

text \<open>
  A law that everything outside the scheduler respects: touching, writing and registering flows and
  assigning slots.
\<close>

locale outside_law =
  fixes P :: "registry \<Rightarrow> bool" and b :: nat
  assumes touch: "P r \<Longrightarrow> P (snd (get_or_create u f r))"
    and written: "(\<And>fl. flow_write b fl (g fl)) \<Longrightarrow> P r \<Longrightarrow> P (reg_update f g r)"
    and slot: "P r \<Longrightarrow> P (snd (assign_slot f n r))"
    and register: "frg_priority q \<le> b \<Longrightarrow> P r \<Longrightarrow> P (snd (register_flow u q r))"
begin

lemma credit_law: "in_i64 c \<Longrightarrow> P (sd_reg s) \<Longrightarrow> P (sd_reg (set_credit f c s))"
  by (simp add: set_credit_def written flow_write_def flow_step_def)

lemma report_law: "P (sd_reg s) \<Longrightarrow> P (sd_reg (report_accounting u f rep s))"
  unfolding report_accounting_eq Let_def by (rule credit_law) (simp_all add: touch)

lemma load_law: "P (sd_reg s) \<Longrightarrow> P (sd_reg (snd (accounting_load u f s)))"
  by (simp add: accounting_load_def Let_def touch)

lemma store_law: "P (sd_reg s) \<Longrightarrow> P (sd_reg (accounting_store f c rep s))"
  unfolding accounting_store_def by (rule credit_law) simp_all

lemma account_law: "P (sd_reg s) \<Longrightarrow> P (sd_reg (lifecycle_drop u g s))"
  unfolding lifecycle_drop_def Let_def by (rule report_law) simp

lemma prologue_law:
  assumes "classes_below b (cr_classes (sc_cadence sc))" and "P (sd_reg (sc_s sc))"
  shows "P (sd_reg (sc_s (snd (admit_prologue f now u tb sc))))"
proof -
  let ?r = "snd (get_or_create u f (sd_reg (sc_s sc)))" and ?fl = "fst (get_or_create u f (sd_reg (sc_s sc)))"
  let ?c = "snd (record_arrival f now u tb (sc_cadence sc))"
  have r: "P ?r" "reg_lookup ?r f = Some ?fl" using assms(2) by (simp_all add: touch get_or_create_fst)
  have same: "P (reg_update f (\<lambda>fl. fl) ?r)" by (rule written) (simp_all add: r flow_write_def flow_step_def)
  have pri: "P (reg_update f (\<lambda>fl. fl\<lparr>fl_priority := state_priority (cr_classes (sc_cadence sc)) st\<rparr>) ?r)" for st
    by (rule written) (use assms(1) in \<open>simp_all add: r flow_write_def flow_step_def state_priority_below\<close>)
  have "P (reg_update f (\<lambda>_. fst (classify_and_apply u f ?fl ?c)) ?r)"
  proof -
    from classify_cases[of u f ?fl ?c] consider "fst (classify_and_apply u f ?fl ?c) = ?fl"
      | st where "fst (classify_and_apply u f ?fl ?c) = ?fl\<lparr>fl_priority := state_priority (cr_classes (sc_cadence sc)) st\<rparr>" by auto
    then show ?thesis
    proof cases
      case 1
      show ?thesis unfolding 1 using same reg_update_stored[OF r(2), of "\<lambda>_. ?fl" "\<lambda>fl. fl"] by simp
    next
      case (2 st)
      show ?thesis unfolding 2 using pri[of st]
        reg_update_stored[OF r(2), of "\<lambda>_. ?fl\<lparr>fl_priority := state_priority (cr_classes (sc_cadence sc)) st\<rparr>"
          "\<lambda>fl. fl\<lparr>fl_priority := state_priority (cr_classes (sc_cadence sc)) st\<rparr>"] by simp
    qed
  qed
  then show ?thesis by (simp add: admit_prologue_def Let_def split_beta)
qed

lemma slot_law: "P (sd_reg (sc_s sc)) \<Longrightarrow> P (sd_reg (sc_s (snd (choose_slot rw f sc))))"
  by (simp add: choose_slot_def Let_def split_beta slot split: bool.split option.split)

lemma override_law:
  assumes "classes_below b (ap_priorities env)" and "P (sd_reg (sc_s sc))"
  shows "P (sd_reg (sc_s (override_priority u env rf sc)))"
proof -
  have "P (reg_update f (\<lambda>fl. fl\<lparr>fl_priority_source := 0, fl_priority := pr_agent (ap_priorities env)\<rparr>) r)"
    "P (reg_update f (\<lambda>fl. fl\<lparr>fl_priority := class_value (ap_priorities env) c, fl_priority_source := 1\<rparr>) r)" if "P r" for f r c
    by (rule written; use assms(1) that in \<open>simp add: flow_write_def flow_step_def class_value_below\<close>;
        simp add: classes_below_def)+
  then show ?thesis using assms(2)
    by (auto simp: override_priority_def Let_def apply_priority_override_def touch split: option.split)
qed

lemma register_law:
  "100 \<le> b \<Longrightarrow> P (sd_reg (sc_s sc)) \<Longrightarrow> P (sd_reg (sc_s (snd (register_handler u req sc))))"
  by (auto simp: register_handler_def Let_def split_beta register)

end

text \<open>A law that the scheduler's own writes and the reaper respect as well.\<close>

locale registry_law = outside_law +
  assumes update: "(\<And>fl. flow_step b fl (g fl)) \<Longrightarrow> P r \<Longrightarrow> P (reg_update f g r)"
    and reap: "P r \<Longrightarrow> P (snd (reap_remove fs r))"
begin

lemma updates:
  "P r \<Longrightarrow> P (reg_update f (\<lambda>fl. fl\<lparr>fl_depth := h fl\<rparr>) r)"
  "P r \<Longrightarrow> P (reg_update f (\<lambda>fl. fl\<lparr>fl_enqueued_at := e\<rparr>) r)"
  "P r \<Longrightarrow> P (reg_update f inc_active r)" "P r \<Longrightarrow> P (reg_update f dec_active r)"
  by (rule update; simp add: flow_step_def inc_active_def dec_active_def)+

lemma take_head_law: "P (sd_reg s) \<Longrightarrow> take_head f s = Some (p, s1) \<Longrightarrow> P (sd_reg s1)"
  by (auto simp: take_head_def clear_enqueued_def Let_def updates credit_law split: option.splits)

lemma find_starved_law: "P r \<Longrightarrow> P (snd (find_starved now u t fs r))"
  by (induction fs arbitrary: r) (auto simp: split_beta touch split: option.split)

lemma accrue_one_law: "P (sd_reg (snd (snd acc))) \<Longrightarrow> P (sd_reg (snd (snd (accrue_one u e acc))))"
  by (cases acc) (auto simp: accrue_one_def split_beta Let_def touch split: list.split)

lemma accrue_law: "P (sd_reg s) \<Longrightarrow> P (sd_reg (snd (snd (accrue u s))))"
proof -
  have "P (sd_reg (snd (snd acc))) \<Longrightarrow> P (sd_reg (snd (snd (fold (accrue_one u) es acc))))" for es acc
    by (induction es arbitrary: acc) (simp_all add: accrue_one_law)
  from this[of "([], False, s)"] show "P (sd_reg s) \<Longrightarrow> ?thesis" by (simp add: accrue_def)
qed

lemma touch_all_law: "P r \<Longrightarrow> P (touch_all u fs r)"
  by (induction fs arbitrary: r) (simp_all add: touch_all_def touch)

lemma select_eligible_law:
  "P (sd_reg s) \<Longrightarrow> select_eligible cfg u es s = Some (sel, acc, s1) \<Longrightarrow> P (sd_reg s1)"
proof -
  assume p: "P (sd_reg s)" and sel: "select_eligible cfg u es s = Some (sel, acc, s1)"
  from p have r: "P (snd (get_or_create u f (touch_all u (map snd es) (sd_reg s))))" for f by (intro touch touch_all_law)
  from sel obtain s2 f q where "take_head f s2 = Some (q, s1)" "sd_reg s2 = snd (get_or_create u f (touch_all u (map snd es) (sd_reg s)))"
    by (auto simp: select_eligible_def Let_def split: option.splits if_splits)
  with r show ?thesis using take_head_law by metis
qed

lemma try_select_law:
  assumes "P (sd_reg s)" and "try_select cfg now u cap s = Some (sel, acc, s1)"
  shows "P (sd_reg s1)"
proof -
  obtain st r where fs: "find_starved now u (dc_starvation_timeout cfg)
      (filter (\<lambda>f. queue_of (sd_drr s) f \<noteq> []) (dr_cursor (sd_drr s))) (sd_reg s) = (st, r)" by fastforce
  have r: "P r" using find_starved_law[OF assms(1)] fs by (metis snd_conv)
  obtain el ac s0 where ac: "accrue u (s\<lparr>sd_reg := r\<rparr>) = (el, ac, s0)" by (cases "accrue u (s\<lparr>sd_reg := r\<rparr>)") auto
  have s0: "P (sd_reg s0)" using accrue_law[of "s\<lparr>sd_reg := r\<rparr>" u] r ac by simp
  from assms fs ac consider "s1 = s" | (starved) f s2 p where "take_head f s2 = Some (p, s1)" "sd_reg s2 = r"
    | "select_eligible cfg u el s0 = Some (sel, acc, s1)" | "sd_reg s1 = sd_reg s0"
    by (auto simp: try_select_def Let_def split: if_splits option.splits)
  then show ?thesis
  proof cases
    case starved
    then show ?thesis using take_head_law r by metis
  qed (use assms s0 select_eligible_law[OF s0] in auto)
qed

lemma round_law: "P (sd_reg s) \<Longrightarrow> admission_round cfg now u rd lc s = Some (res, cap, s1) \<Longrightarrow> P (sd_reg s1)"
  by (auto simp: admission_round_def Let_def split: if_splits option.splits prod.splits dest: try_select_law[rotated])

lemma queue_laws:
  "P (sd_reg s) \<Longrightarrow> P (sd_reg (guard_new f s))" "P (sd_reg s) \<Longrightarrow> P (sd_reg (snd (enqueue f w e s)))"
  "P (sd_reg s) \<Longrightarrow> P (sd_reg (guard_drop f pid s))" "P (sd_reg s) \<Longrightarrow> P (sd_reg (admitted f d s))"
  "P (sd_reg s) \<Longrightarrow> P (sd_reg (ticket_drop f s))" "P (sd_reg s) \<Longrightarrow> P (sd_reg (release_permit s))"
  "P (sd_reg s) \<Longrightarrow> P (sd_reg (snd (admit_enter cfg u f s)))"
  by (simp_all add: guard_new_def enqueue_def guard_drop_def clear_enqueued_def leave_queue_def admitted_def guard_consume_def
      ticket_drop_def release_permit_def admit_enter_def Let_def split_beta updates touch credit_law)

end

section \<open>What happens beside the scheduler\<close>

definition books :: "registry \<Rightarrow> registry \<Rightarrow> bool" where
  "books r0 r \<longleftrightarrow> depth_of r = depth_of r0 \<and> active_of r = active_of r0 \<and> reg_ext r0 r"

lemma books_refl [simp]: "books r r"
  by (simp add: books_def)

lemma counts_written:
  assumes "\<And>fl. fl_depth (g fl) = fl_depth fl \<and> fl_active (g fl) = fl_active fl"
  shows "depth_of (reg_update f g r) = depth_of r" "active_of (reg_update f g r) = active_of r"
  using assms by (auto simp: fun_eq_iff depth_of_def active_of_def reg_view_def reg_flow_def split: option.split)

lemma counts_register:
  "depth_of (snd (register_flow u q r)) = depth_of r" "active_of (snd (register_flow u q r)) = active_of r"
  by (auto simp: fun_eq_iff depth_of_def active_of_def reg_view_def reg_flow_def reg_lookup_def register_flow_eq flow_new_def Let_def
      split: option.split)

lemma counts_slot:
  "depth_of (snd (assign_slot f n r)) = depth_of r" "active_of (snd (assign_slot f n r)) = active_of r"
  by (auto simp: fun_eq_iff depth_of_def active_of_def reg_view_def reg_flow_def reg_lookup_def assign_slot_def split_beta Let_def
      flow_new_def split: option.split)

lemma reg_ext_register: "reg_ext r (snd (register_flow u q r))"
proof -
  have "registered r f \<Longrightarrow> registered (snd (register_flow u q r)) f" for f
    by (auto simp: registered_def reg_lookup_def register_flow_eq Let_def split: option.split)
  then show ?thesis by (simp add: reg_ext_def reg_inv_ops)
qed

lemma reg_ext_slot: "reg_ext r (snd (assign_slot f n r))"
  by (simp add: reg_ext_def reg_inv_ops) (simp add: registered_def reg_lookup_def assign_slot_def split_beta Let_def)

interpretation beside: outside_law "books r0" b for r0 b
proof unfold_locales
  fix r u f
  show "books r0 r \<Longrightarrow> books r0 (snd (get_or_create u f r))"
    by (simp add: books_def reg_ext_trans[OF _ reg_ext_get_or_create])
next
  fix r f and g :: "flow \<Rightarrow> flow"
  assume "\<And>fl. flow_write b fl (g fl)"
  then show "books r0 r \<Longrightarrow> books r0 (reg_update f g r)"
    using counts_written[of g f r] by (simp add: books_def flow_write_def reg_ext_trans[OF _ reg_ext_update])
next
  fix r f n
  show "books r0 r \<Longrightarrow> books r0 (snd (assign_slot f n r))"
    by (simp add: books_def counts_slot reg_ext_trans[OF _ reg_ext_slot])
next
  fix r q u
  show "books r0 r \<Longrightarrow> books r0 (snd (register_flow u q r))"
    by (simp add: books_def counts_register reg_ext_trans[OF _ reg_ext_register])
qed

lemma aside_books: "aside s s1 \<longleftrightarrow> sd_drr s1 = sd_drr s \<and> sd_queue s1 = sd_queue s
    \<and> m_active_flows (sd_met s1) = m_active_flows (sd_met s) \<and> books (sd_reg s) (sd_reg s1)"
  by (auto simp: aside_def books_def)

lemma aside_refl [simp]: "aside s s"
  by (simp add: aside_books)

lemma classes_bounded: "\<exists>b. classes_below b c"
  by (intro exI[of _ "pr_interactive c + pr_agent c + pr_background c"]) (simp add: classes_below_def)

lemma aside_account: "aside s (lifecycle_drop u g s)"
  by (simp add: aside_books beside.account_law)
    (simp add: lifecycle_drop_def report_accounting_eq set_credit_def set_flow_credit_def inc_event_def Let_def)

lemma aside_register: "aside (sc_s sc) (sc_s (snd (register_handler u req sc)))"
  using beside.register_law[of "100" "sd_reg (sc_s sc)" sc u req]
  by (auto simp: aside_books register_handler_def Let_def split_beta)

lemma aside_slot: "aside (sc_s sc) (sc_s (snd (choose_slot rw f sc)))"
  using beside.slot_law[of "sd_reg (sc_s sc)" sc rw f]
  by (auto simp: aside_books choose_slot_def Let_def split_beta split: bool.splits option.splits)

lemma aside_override: "aside (sc_s sc) (sc_s (override_priority u env rf sc))"
  using beside.override_law[of _ env "sd_reg (sc_s sc)" sc u rf] classes_bounded[of "ap_priorities env"]
  by (auto simp: aside_books override_priority_def count_source_def Let_def)

lemma aside_prologue: "aside (sc_s sc) (sc_s (snd (admit_prologue f now u tb sc)))"
proof -
  obtain b where "classes_below b (cr_classes (sc_cadence sc))" using classes_bounded by blast
  then have "books (sd_reg (sc_s sc)) (sd_reg (sc_s (snd (admit_prologue f now u tb sc))))" by (rule beside.prologue_law) simp
  then show ?thesis
    by (auto simp: aside_books admit_prologue_def set_priority_metrics_def Let_def split_beta split: option.split)
qed

end
