(* ===== verification/Loader.thy ===== *)
theory Loader
  imports Config "HOL-Library.Monad_Syntax"
begin

text \<open>
  Loading the configuration (src/config/loader.rs and the serde attributes of
  src/config/mod.rs): the defaults laid under the file and the environment, the reading of every section
  with the default of every missing key, and validation.  The libraries are parameters: the
  conversions of single values, durations, URLs and addresses, and the builder that merges
  defaults, file and environment into one tree.  The derived serialisation is here too.
\<close>

section \<open>Values\<close>

datatype cval = CNull | CBool bool | CInt int | CFloat f64 | CStr string | CList "cval list" | CTable "(string \<times> cval) list"

text \<open>The value at a path of keys.\<close>

fun get_path :: "string list \<Rightarrow> cval \<Rightarrow> cval option" where
  "get_path [] v = Some v"
| "get_path (k # ks) v = (case v of CTable t \<Rightarrow> map_of t k \<bind> get_path ks | _ \<Rightarrow> None)"

record 'a reader =
  rd_bool :: "cval \<Rightarrow> bool option"
  rd_u32 :: "cval \<Rightarrow> nat option"
  rd_u64 :: "cval \<Rightarrow> nat option"
  rd_f64 :: "cval \<Rightarrow> f64 option"
  rd_str :: "cval \<Rightarrow> string option"
  rd_list :: "cval \<Rightarrow> cval list option"
  rd_duration :: "string \<Rightarrow> duration option"
  rd_url :: "string \<Rightarrow> url option"
  rd_addr :: "string \<Rightarrow> 'a option"

section \<open>Reading\<close>

text \<open>\<open>#[serde(default)]\<close>: a missing key has its default, a key that is there must be readable.\<close>

definition field :: "(string \<times> cval) list \<Rightarrow> string \<Rightarrow> 'b \<Rightarrow> (cval \<Rightarrow> 'b option) \<Rightarrow> 'b option" where
  "field t k d rd = (case map_of t k of None \<Rightarrow> Some d | Some v \<Rightarrow> rd v)"

definition required :: "(string \<times> cval) list \<Rightarrow> string \<Rightarrow> (cval \<Rightarrow> 'b option) \<Rightarrow> 'b option" where
  "required t k rd = map_of t k \<bind> rd"

fun table :: "cval \<Rightarrow> (string \<times> cval) list option" where
  "table (CTable t) = Some t"
| "table _ = None"

definition optional :: "(cval \<Rightarrow> 'b option) \<Rightarrow> cval \<Rightarrow> 'b option option" where
  "optional rd v = (if v = CNull then Some None else map_option Some (rd v))"

definition humantime :: "'a reader \<Rightarrow> cval \<Rightarrow> duration option" where
  "humantime rd v = rd_str rd v \<bind> rd_duration rd"

definition read_transient_retry :: "'a reader \<Rightarrow> cval \<Rightarrow> transient_retry_cfg option" where
  "read_transient_retry rd v = do {
     t \<leftarrow> table v;
     n \<leftarrow> field t ''max_attempts'' 3 (rd_u32 rd);
     s \<leftarrow> field t ''backoff_start'' (millis 500) (humantime rd);
     m \<leftarrow> field t ''backoff_max'' (secs 4) (humantime rd);
     Some \<lparr> tr_max_attempts = n, tr_backoff_start = s, tr_backoff_max = m \<rparr> }"

text \<open>A missing \<open>metrics_interval\<close> is \<open>Duration::default()\<close>, zero, unlike in \<open>Backend::default()\<close>.\<close>

definition read_backend :: "'a reader \<Rightarrow> cval \<Rightarrow> backend_cfg option" where
  "read_backend rd v = do {
     t \<leftarrow> table v;
     u \<leftarrow> required t ''url'' (\<lambda>v. rd_str rd v \<bind> rd_url rd);
     i \<leftarrow> field t ''metrics_interval'' 0 (humantime rd);
     s \<leftarrow> field t ''stall_timeout'' (secs 30) (humantime rd);
     r \<leftarrow> field t ''transient_retry'' transient_retry_default (read_transient_retry rd);
     k \<leftarrow> field t ''kv_unified'' False (rd_bool rd);
     Some \<lparr> be_url = u, be_metrics_interval = i, be_stall_timeout = s, be_transient_retry = r, be_kv_unified = k \<rparr> }"

definition read_kv_policy :: "'a reader \<Rightarrow> cval \<Rightarrow> kv_policy_cfg option" where
  "read_kv_policy rd v = do {
     t \<leftarrow> table v;
     e \<leftarrow> field t ''enabled'' False (rd_bool rd);
     r \<leftarrow> field t ''reject_threshold'' (lit (95/100)) (rd_f64 rd);
     d \<leftarrow> field t ''delay_threshold'' (lit (80/100)) (rd_f64 rd);
     b \<leftarrow> field t ''bypass_interactive'' True (rd_bool rd);
     Some \<lparr> kvp_enabled = e, kvp_reject_threshold = r, kvp_delay_threshold = d, kvp_bypass_interactive = b \<rparr> }"

definition read_retry_policy :: "'a reader \<Rightarrow> cval \<Rightarrow> retry_policy option" where
  "read_retry_policy rd v = do {
     t \<leftarrow> table v;
     e \<leftarrow> field t ''enabled'' False (rd_bool rd);
     n \<leftarrow> field t ''max_retries'' 2 (rd_u32 rd);
     s \<leftarrow> field t ''temperature_step'' (lit (3/10)) (rd_f64 rd);
     m \<leftarrow> field t ''max_temperature'' (lit (15/10)) (rd_f64 rd);
     d \<leftarrow> field t ''default_temperature'' (lit 0) (rd_f64 rd);
     Some \<lparr> rp_enabled = e, rp_max_retries = n, rp_temperature_step = s, rp_max_temperature = m, rp_default_temperature = d \<rparr> }"

definition read_priority_policy :: "'a reader \<Rightarrow> cval \<Rightarrow> priority_policy option" where
  "read_priority_policy rd v = do {
     t \<leftarrow> table v;
     e \<leftarrow> field t ''enabled'' True (rd_bool rd);
     g \<leftarrow> field t ''idle_gap_threshold'' (secs 30) (humantime rd);
     s \<leftarrow> field t ''agentic_suspected_threshold'' 5 (rd_u32 rd);
     c \<leftarrow> field t ''agentic_confirmed_threshold'' 12 (rd_u32 rd);
     Some \<lparr> pp_enabled = e, pp_idle_gap_threshold = g, pp_agentic_suspected_threshold = s, pp_agentic_confirmed_threshold = c \<rparr> }"

definition read_completion_bias :: "'a reader \<Rightarrow> cval \<Rightarrow> completion_bias_cfg option" where
  "read_completion_bias rd v = do {
     t \<leftarrow> table v;
     e \<leftarrow> field t ''enabled'' True (rd_bool rd);
     n \<leftarrow> field t ''target_active_flows'' 0 (rd_u32 rd);
     p \<leftarrow> field t ''predictive_admit'' False (rd_bool rd);
     Some \<lparr> cb_enabled = e, cb_target_active_flows = n, cb_predictive_admit = p \<rparr> }"

definition read_kv_bias :: "'a reader \<Rightarrow> cval \<Rightarrow> kv_bias_cfg option" where
  "read_kv_bias rd v = do {
     t \<leftarrow> table v;
     e \<leftarrow> field t ''enabled'' True (rd_bool rd);
     f \<leftarrow> field t ''bias_full_at'' (lit (9/10)) (rd_f64 rd);
     p \<leftarrow> field t ''pressure_below'' (lit (5/10)) (rd_f64 rd);
     Some \<lparr> kb_enabled = e, kb_bias_full_at = f, kb_pressure_below = p \<rparr> }"

definition read_kv_threshold :: "'a reader \<Rightarrow> cval \<Rightarrow> kv_threshold option" where
  "read_kv_threshold rd v = do {
     t \<leftarrow> table v;
     a \<leftarrow> required t ''at'' (rd_f64 rd);
     m \<leftarrow> required t ''max_flows'' (rd_u32 rd);
     Some \<lparr> th_at = a, th_max_flows = m \<rparr> }"

fun read_all :: "(cval \<Rightarrow> 'b option) \<Rightarrow> cval list \<Rightarrow> 'b list option" where
  "read_all rd [] = Some []"
| "read_all rd (v # vs) = do { x \<leftarrow> rd v; xs \<leftarrow> read_all rd vs; Some (x # xs) }"

definition read_kv_pressure :: "'a reader \<Rightarrow> cval \<Rightarrow> kv_pressure_cfg option" where
  "read_kv_pressure rd v = do {
     t \<leftarrow> table v;
     e \<leftarrow> field t ''enabled'' False (rd_bool rd);
     ths \<leftarrow> field t ''thresholds'' [] (\<lambda>v. rd_list rd v \<bind> read_all (read_kv_threshold rd));
     Some \<lparr> kp_enabled = e, kp_thresholds = ths \<rparr> }"

definition read_scheduler :: "'a reader \<Rightarrow> cval \<Rightarrow> scheduler_cfg option" where
  "read_scheduler rd v = do {
     t \<leftarrow> table v;
     m \<leftarrow> field t ''max_active_flows'' 4 (rd_u32 rd);
     s \<leftarrow> field t ''starvation_timeout'' (secs 300) (humantime rd);
     c \<leftarrow> field t ''completion_bias'' completion_bias_default (read_completion_bias rd);
     b \<leftarrow> field t ''kv_bias'' kv_bias_default (read_kv_bias rd);
     p \<leftarrow> field t ''kv_pressure'' kv_pressure_default (read_kv_pressure rd);
     Some \<lparr> sc_max_active_flows = m, sc_starvation_timeout = s, sc_completion_bias = c, sc_kv_bias = b, sc_kv_pressure = p \<rparr> }"

definition read_flows :: "'a reader \<Rightarrow> cval \<Rightarrow> flows_cfg option" where
  "read_flows rd v = do {
     t \<leftarrow> table v;
     w \<leftarrow> field t ''default_weight'' (lit 1) (rd_f64 rd);
     p \<leftarrow> field t ''default_priority'' 50 (rd_u32 rd);
     i \<leftarrow> field t ''flow_idle_ttl'' (secs 600) (humantime rd);
     Some \<lparr> fl_default_weight = w, fl_default_priority = p, fl_idle_ttl = i \<rparr> }"

definition read_priorities :: "'a reader \<Rightarrow> cval \<Rightarrow> priorities option" where
  "read_priorities rd v = do {
     t \<leftarrow> table v;
     i \<leftarrow> field t ''interactive'' 100 (rd_u32 rd);
     a \<leftarrow> field t ''agent'' 50 (rd_u32 rd);
     b \<leftarrow> field t ''background'' 10 (rd_u32 rd);
     Some \<lparr> pr_interactive = i, pr_agent = a, pr_background = b \<rparr> }"

text \<open>\<open>rename_all = "lowercase"\<close>: the names of the modes are in lower case and have no underscore.\<close>

definition mode_name :: "backpressure_mode \<Rightarrow> string" where
  "mode_name m = (case m of Blocking \<Rightarrow> ''blocking'' | FailFast \<Rightarrow> ''failfast'' | Hybrid \<Rightarrow> ''hybrid'')"

definition mode_of_name :: "string \<Rightarrow> backpressure_mode option" where
  "mode_of_name s = find (\<lambda>m. mode_name m = s) [Blocking, FailFast, Hybrid]"

definition read_backpressure :: "'a reader \<Rightarrow> cval \<Rightarrow> backpressure_cfg option" where
  "read_backpressure rd v = do {
     t \<leftarrow> table v;
     m \<leftarrow> field t ''mode'' Blocking (\<lambda>v. rd_str rd v \<bind> mode_of_name);
     q \<leftarrow> field t ''max_queue_depth'' 100 (rd_u32 rd);
     w \<leftarrow> field t ''max_wait'' (secs 10) (humantime rd);
     r \<leftarrow> field t ''retry_after_base'' (secs 1) (humantime rd);
     k \<leftarrow> field t ''kv_policy'' kv_policy_default (read_kv_policy rd);
     Some \<lparr> bp_mode = m, bp_max_queue_depth = q, bp_max_wait = w, bp_retry_after_base = r, bp_kv_policy = k \<rparr> }"

definition read_metrics :: "'a reader \<Rightarrow> cval \<Rightarrow> string option" where
  "read_metrics rd v = do { t \<leftarrow> table v; field t ''endpoint'' ''/metrics'' (rd_str rd) }"

text \<open>The server section: the address to bind and the window of the token rate.\<close>

definition server_default :: "'a \<Rightarrow> 'a \<times> nat" where
  "server_default any = (any, 10)"

definition read_server :: "'a reader \<Rightarrow> 'a \<Rightarrow> cval \<Rightarrow> ('a \<times> nat) option" where
  "read_server rd any v = do {
     t \<leftarrow> table v;
     a \<leftarrow> field t ''bind'' any (\<lambda>v. rd_str rd v \<bind> rd_addr rd);
     n \<leftarrow> field t ''tps_window_secs'' 10 (rd_u64 rd);
     Some (a, n) }"

definition read_config :: "'a reader \<Rightarrow> 'a \<Rightarrow> cval \<Rightarrow> (config \<times> 'a) option" where
  "read_config rd any v = do {
     t \<leftarrow> table v;
     be \<leftarrow> required t ''backend'' (read_backend rd);
     sc \<leftarrow> field t ''scheduler'' scheduler_default (read_scheduler rd);
     fl \<leftarrow> field t ''flows'' flows_default (read_flows rd);
     pr \<leftarrow> field t ''priorities'' priorities_default (read_priorities rd);
     bp \<leftarrow> field t ''backpressure'' backpressure_default (read_backpressure rd);
     m \<leftarrow> field t ''metrics'' ''/metrics'' (read_metrics rd);
     (a, tps) \<leftarrow> field t ''server'' (server_default any) (read_server rd any);
     rt \<leftarrow> field t ''request_timeout'' None (optional (humantime rd));
     kv \<leftarrow> field t ''kv_policy'' None (optional (read_kv_policy rd));
     rp \<leftarrow> field t ''retry_policy'' retry_policy_default (read_retry_policy rd);
     pp \<leftarrow> field t ''priority_policy'' priority_policy_default (read_priority_policy rd);
     Some (\<lparr> cfg_backend = be, cfg_scheduler = sc, cfg_flows = fl, cfg_priorities = pr, cfg_backpressure = bp,
       cfg_metrics_endpoint = m, cfg_tps_window_secs = tps, cfg_request_timeout = rt, cfg_kv_policy = kv,
       cfg_retry_policy = rp, cfg_priority_policy = pp \<rparr>, a) }"

section \<open>Loading\<close>

text \<open>The \<open>set_default\<close> calls; a dotted key is a path.\<close>

definition loader_defaults :: "(string list \<times> cval) list" where
  "loader_defaults = [
     ([''backend'', ''url''], CStr ''http://localhost:8000''),
     ([''scheduler'', ''max_active_flows''], CInt 4),
     ([''scheduler'', ''starvation_timeout''], CStr ''300s''),
     ([''scheduler'', ''kv_pressure'', ''enabled''], CBool False),
     ([''flows'', ''default_weight''], CFloat (lit 1)),
     ([''flows'', ''default_priority''], CInt 50),
     ([''priorities'', ''interactive''], CInt 100),
     ([''priorities'', ''agent''], CInt 50),
     ([''priorities'', ''background''], CInt 10),
     ([''backpressure'', ''mode''], CStr ''blocking''),
     ([''backpressure'', ''max_queue_depth''], CInt 100),
     ([''backpressure'', ''max_wait''], CStr ''10s''),
     ([''backpressure'', ''retry_after_base''], CStr ''1s''),
     ([''backend'', ''metrics_interval''], CStr ''1s''),
     ([''backend'', ''kv_unified''], CBool False),
     ([''backend'', ''transient_retry'', ''max_attempts''], CInt 3),
     ([''backend'', ''transient_retry'', ''backoff_start''], CStr ''500ms''),
     ([''backend'', ''transient_retry'', ''backoff_max''], CStr ''4s''),
     ([''metrics'', ''endpoint''], CStr ''/metrics''),
     ([''server'', ''bind''], CStr ''0.0.0.0:8080''),
     ([''backpressure'', ''kv_policy'', ''enabled''], CBool False),
     ([''backpressure'', ''kv_policy'', ''reject_threshold''], CFloat (lit (95/100))),
     ([''backpressure'', ''kv_policy'', ''delay_threshold''], CFloat (lit (80/100))),
     ([''backpressure'', ''kv_policy'', ''bypass_interactive''], CBool True),
     ([''retry_policy'', ''enabled''], CBool False),
     ([''retry_policy'', ''max_retries''], CInt 2),
     ([''retry_policy'', ''temperature_step''], CFloat (lit (3/10))),
     ([''retry_policy'', ''max_temperature''], CFloat (lit (15/10))),
     ([''retry_policy'', ''default_temperature''], CFloat (lit 0)),
     ([''priority_policy'', ''enabled''], CBool True),
     ([''priority_policy'', ''idle_gap_threshold''], CStr ''30s''),
     ([''priority_policy'', ''agentic_suspected_threshold''], CInt 5),
     ([''priority_policy'', ''agentic_confirmed_threshold''], CInt 12)]"

datatype load_error = SourcesFailed | Unreadable | Invalid config_error

text \<open>
  \<open>build\<close> merges the defaults, the file of that name if it exists, and the environment; it fails on a
  malformed file.  \<open>any\<close> is the parsed \<open>0.0.0.0:8080\<close>.
\<close>

definition load :: "'a reader \<Rightarrow> 'a \<Rightarrow> ((string list \<times> cval) list \<Rightarrow> string \<Rightarrow> cval option) \<Rightarrow> string option
    \<Rightarrow> load_error + config \<times> 'a" where
  "load rd any build config_path =
     (case build loader_defaults (case config_path of Some p \<Rightarrow> p | None \<Rightarrow> ''config.yaml'') of
        None \<Rightarrow> Inl SourcesFailed
      | Some tree \<Rightarrow> (case read_config rd any tree of
            None \<Rightarrow> Inl Unreadable
          | Some (cfg, a) \<Rightarrow> (case validate cfg of Inl e \<Rightarrow> Inl (Invalid e) | Inr _ \<Rightarrow> Inr (cfg, a))))"

lemma load_Inr_iff:
  "load rd any build path = Inr (cfg, a) \<longleftrightarrow>
     (\<exists>tree. build loader_defaults (case path of Some p \<Rightarrow> p | None \<Rightarrow> ''config.yaml'') = Some tree
        \<and> read_config rd any tree = Some (cfg, a) \<and> validate cfg = Inr ())"
  by (auto simp: load_def split: option.splits sum.splits)

section \<open>Writing\<close>

text \<open>The derived serialisation; durations, the URL and the address are written by their libraries.\<close>

record 'a writer =
  wr_duration :: "duration \<Rightarrow> string"
  wr_url :: "url \<Rightarrow> string"
  wr_addr :: "'a \<Rightarrow> string"

definition write_duration :: "'a writer \<Rightarrow> duration \<Rightarrow> cval" where
  "write_duration w d = CStr (wr_duration w d)"

definition write_option :: "('b \<Rightarrow> cval) \<Rightarrow> 'b option \<Rightarrow> cval" where
  "write_option f x = (case x of None \<Rightarrow> CNull | Some y \<Rightarrow> f y)"

definition write_nat :: "nat \<Rightarrow> cval" where
  "write_nat n = CInt (int n)"

definition write_backend :: "'a writer \<Rightarrow> backend_cfg \<Rightarrow> cval" where
  "write_backend w c = CTable [(''url'', CStr (wr_url w (be_url c))),
     (''metrics_interval'', write_duration w (be_metrics_interval c)), (''stall_timeout'', write_duration w (be_stall_timeout c)),
     (''transient_retry'', CTable [(''max_attempts'', write_nat (tr_max_attempts (be_transient_retry c))),
        (''backoff_start'', write_duration w (tr_backoff_start (be_transient_retry c))),
        (''backoff_max'', write_duration w (tr_backoff_max (be_transient_retry c)))]),
     (''kv_unified'', CBool (be_kv_unified c))]"

definition write_kv_policy :: "kv_policy_cfg \<Rightarrow> cval" where
  "write_kv_policy c = CTable [(''enabled'', CBool (kvp_enabled c)), (''reject_threshold'', CFloat (kvp_reject_threshold c)),
     (''delay_threshold'', CFloat (kvp_delay_threshold c)), (''bypass_interactive'', CBool (kvp_bypass_interactive c))]"

definition write_retry_policy :: "retry_policy \<Rightarrow> cval" where
  "write_retry_policy c = CTable [(''enabled'', CBool (rp_enabled c)), (''max_retries'', write_nat (rp_max_retries c)),
     (''temperature_step'', CFloat (rp_temperature_step c)), (''max_temperature'', CFloat (rp_max_temperature c)),
     (''default_temperature'', CFloat (rp_default_temperature c))]"

definition write_priority_policy :: "'a writer \<Rightarrow> priority_policy \<Rightarrow> cval" where
  "write_priority_policy w c = CTable [(''enabled'', CBool (pp_enabled c)),
     (''idle_gap_threshold'', write_duration w (pp_idle_gap_threshold c)),
     (''agentic_suspected_threshold'', write_nat (pp_agentic_suspected_threshold c)),
     (''agentic_confirmed_threshold'', write_nat (pp_agentic_confirmed_threshold c))]"

definition write_completion_bias :: "completion_bias_cfg \<Rightarrow> cval" where
  "write_completion_bias c = CTable [(''enabled'', CBool (cb_enabled c)),
     (''target_active_flows'', write_nat (cb_target_active_flows c)), (''predictive_admit'', CBool (cb_predictive_admit c))]"

definition write_kv_bias :: "kv_bias_cfg \<Rightarrow> cval" where
  "write_kv_bias c = CTable [(''enabled'', CBool (kb_enabled c)), (''bias_full_at'', CFloat (kb_bias_full_at c)),
     (''pressure_below'', CFloat (kb_pressure_below c))]"

definition write_kv_threshold :: "kv_threshold \<Rightarrow> cval" where
  "write_kv_threshold c = CTable [(''at'', CFloat (th_at c)), (''max_flows'', write_nat (th_max_flows c))]"

definition write_kv_pressure :: "kv_pressure_cfg \<Rightarrow> cval" where
  "write_kv_pressure c = CTable [(''enabled'', CBool (kp_enabled c)), (''thresholds'', CList (map write_kv_threshold (kp_thresholds c)))]"

definition write_scheduler :: "'a writer \<Rightarrow> scheduler_cfg \<Rightarrow> cval" where
  "write_scheduler w c = CTable [(''max_active_flows'', write_nat (sc_max_active_flows c)),
     (''starvation_timeout'', write_duration w (sc_starvation_timeout c)),
     (''completion_bias'', write_completion_bias (sc_completion_bias c)), (''kv_bias'', write_kv_bias (sc_kv_bias c)),
     (''kv_pressure'', write_kv_pressure (sc_kv_pressure c))]"

definition write_flows :: "'a writer \<Rightarrow> flows_cfg \<Rightarrow> cval" where
  "write_flows w c = CTable [(''default_weight'', CFloat (fl_default_weight c)),
     (''default_priority'', write_nat (fl_default_priority c)), (''flow_idle_ttl'', write_duration w (fl_idle_ttl c))]"

definition write_priorities :: "priorities \<Rightarrow> cval" where
  "write_priorities c = CTable [(''interactive'', write_nat (pr_interactive c)), (''agent'', write_nat (pr_agent c)),
     (''background'', write_nat (pr_background c))]"

definition write_backpressure :: "'a writer \<Rightarrow> backpressure_cfg \<Rightarrow> cval" where
  "write_backpressure w c = CTable [(''mode'', CStr (mode_name (bp_mode c))), (''max_queue_depth'', write_nat (bp_max_queue_depth c)),
     (''max_wait'', write_duration w (bp_max_wait c)), (''retry_after_base'', write_duration w (bp_retry_after_base c)),
     (''kv_policy'', write_kv_policy (bp_kv_policy c))]"

definition write_config :: "'a writer \<Rightarrow> config \<times> 'a \<Rightarrow> cval" where
  "write_config w = (\<lambda>(c, a). CTable [(''backend'', write_backend w (cfg_backend c)), (''scheduler'', write_scheduler w (cfg_scheduler c)),
     (''flows'', write_flows w (cfg_flows c)), (''priorities'', write_priorities (cfg_priorities c)),
     (''backpressure'', write_backpressure w (cfg_backpressure c)),
     (''metrics'', CTable [(''endpoint'', CStr (cfg_metrics_endpoint c))]),
     (''server'', CTable [(''bind'', CStr (wr_addr w a)), (''tps_window_secs'', write_nat (cfg_tps_window_secs c))]),
     (''request_timeout'', write_option (write_duration w) (cfg_request_timeout c)),
     (''kv_policy'', write_option write_kv_policy (cfg_kv_policy c)),
     (''retry_policy'', write_retry_policy (cfg_retry_policy c)),
     (''priority_policy'', write_priority_policy w (cfg_priority_policy c))])"

end
