(* ===== verification/Scrape.thy ===== *)
theory Scrape
  imports Monitor
begin

text \<open>
  What the monitor asks of the backend (src/backend/mod.rs): the two URLs, the request for the slots, and how the
  answers become the scrape that theory Monitor works on.  The HTTP client is a parameter: for a URL the
  status and the text of the answer, \<open>None\<close> for what failed; so is the JSON decoder.  Lemmas: what a llama.cpp scrape says with and without slots.
\<close>

definition below_url :: "string \<Rightarrow> url \<Rightarrow> url" where
  "below_url page base = base\<lparr>url_path := rev (dropWhile (\<lambda>c. c = CHR ''/'') (rev (url_path base))) @ CHR ''/'' # page\<rparr>"

definition metrics_url :: "url \<Rightarrow> url" where
  "metrics_url base = below_url ''metrics'' base"

definition slots_url :: "url \<Rightarrow> url" where
  "slots_url base = below_url ''slots'' base"

type_synonym http_get = "url \<Rightarrow> (nat \<times> string option) option"

text \<open>The decoded slots, or \<open>None\<close> on any failure.\<close>

definition slots_answer :: "http_get \<Rightarrow> (string \<Rightarrow> slot_wire list option) \<Rightarrow> url \<Rightarrow> slot_wire list option" where
  "slots_answer get decode u = (case get u of
       Some (status, Some body) \<Rightarrow> if 200 \<le> status \<and> status < 300 then decode body else None
     | _ \<Rightarrow> None)"

definition fetch_slots :: "http_get \<Rightarrow> (string \<Rightarrow> slot_wire list option) \<Rightarrow> url \<Rightarrow> slot_kv list option" where
  "fetch_slots get decode u = parse_slots (slots_answer get decode u)"

text \<open>The status of the metrics answer is not looked at.\<close>

definition scrape_body_of :: "http_get \<Rightarrow> (string \<Rightarrow> slot_wire list option) \<Rightarrow> backend_cfg \<Rightarrow> scrape_body" where
  "scrape_body_of get decode cfg = (case get (metrics_url (be_url cfg)) of
       None \<Rightarrow> Unreachable
     | Some (_, None) \<Rightarrow> BodyError
     | Some (_, Some body) \<Rightarrow> Body body (slots_answer get decode (slots_url (be_url cfg))))"

text \<open>Polling is off when the interval is zero; then the channels keep their first values.\<close>

definition polling :: "backend_cfg \<Rightarrow> bool" where
  "polling cfg \<longleftrightarrow> be_metrics_interval cfg \<noteq> 0"

section \<open>A llama.cpp backend\<close>

lemma below_url_path:
  "url_path base = p @ [CHR ''/''] \<Longrightarrow> url_path (below_url page base) = url_path (below_url page (base\<lparr>url_path := p\<rparr>))"
  by (simp add: below_url_def)

text \<open>Without slots a llama.cpp scrape has no slot count, so no request is pinned to a slot.\<close>

lemma llama_without_slots:
  assumes "sp_body sp = scrape_body_of get decode cfg" and "get (metrics_url (be_url cfg)) = Some (status, Some body)"
    and "pr_found_llamacpp (parse_snapshot body)" and "fetch_slots get decode (slots_url (be_url cfg)) = None"
  shows "bs_slot_count (mo_snapshot (fst (poll_step cfg sp (st, m)))) = None
    \<and> bs_kv_usage (mo_snapshot (fst (poll_step cfg sp (st, m)))) = bs_kv_usage (pr_snapshot (parse_snapshot body))"
  using assms by (simp add: poll_step_def scrape_body_of_def fetch_slots_def merge_slots_def Let_def split: prod.split)

text \<open>With slots it has their number, and their usage if they say one.\<close>

lemma llama_with_slots:
  assumes "sp_body sp = scrape_body_of get decode cfg" and "get (metrics_url (be_url cfg)) = Some (status, Some body)"
    and "pr_found_llamacpp (parse_snapshot body)" and "fetch_slots get decode (slots_url (be_url cfg)) = Some slots"
    and "slots_kv_usage slots (be_kv_unified cfg) = Some x"
  shows "bs_slot_count (mo_snapshot (fst (poll_step cfg sp (st, m)))) = Some (length slots)
    \<and> bs_kv_usage (mo_snapshot (fst (poll_step cfg sp (st, m)))) = x"
  using assms by (simp add: poll_step_def scrape_body_of_def fetch_slots_def merge_slots_def Let_def split: prod.split)

end
