(* ===== verification/Gateway.thy ===== *)
theory Gateway
  imports RegistryLaws Loader Scrape
begin

text \<open>
  The gateway as a whole: how src/main.rs builds the scheduler and the handlers' environment
  from the configuration, and the steps by which requests, the admission loop, the reaper, the
  monitor and the admin interface change the shared state.  Lemmas: every run of the gateway is a run
  of the DRR scheduler of theory DrrStep, and the counters and records of the whole stay
  right.
\<close>

section \<open>Start-up\<close>

definition startup_scheduler :: "config \<Rightarrow> scheduler_env \<times> scheduler" where
  "startup_scheduler cfg =
     (let sch = cfg_scheduler cfg; bp = cfg_backpressure cfg; fl = cfg_flows cfg
      in scheduler_new (of_nat (sc_max_active_flows sch)) (bp_mode bp) (bp_max_queue_depth bp) (bp_max_wait bp)
           (bp_retry_after_base bp) (sc_starvation_timeout sch) (sc_completion_bias sch) (bp_kv_policy bp)
           (cfg_priority_policy cfg) (cfg_priorities cfg) (sc_kv_bias sch) (sc_kv_pressure sch)
           (registry_new (fl_default_weight fl) (fl_default_priority fl)) metrics_new (Some snapshot_default) False)"

text \<open>\<open>AppState\<close>: the handlers' environment, with the backend, the JSON library and the clients as parameters.\<close>

definition startup_env :: "config \<Rightarrow> (string \<Rightarrow> json option) \<Rightarrow> (json \<Rightarrow> string option) \<Rightarrow> (nat \<Rightarrow> outgoing \<Rightarrow> sent)
    \<Rightarrow> (nat \<Rightarrow> bool) \<Rightarrow> app_env" where
  "startup_env cfg parse print answer gone =
     \<lparr> ap_parse = parse, ap_print = print, ap_retry = cfg_retry_policy cfg,
       ap_transient = be_transient_retry (cfg_backend cfg), ap_mode = bp_mode (cfg_backpressure cfg),
       ap_priorities = cfg_priorities cfg, ap_timeout = cfg_request_timeout cfg,
       ap_sched = fst (startup_scheduler cfg), ap_answer = answer, ap_gone = gone \<rparr>"

text \<open>
  The address to listen on: the configured one if its own environment variable is set, else the
  port of \<open>PORT\<close> (\<open>None\<close> is the panic on a malformed one), else the configured one.
\<close>

definition parse_u16 :: "string \<Rightarrow> nat option" where
  "parse_u16 s = (case parse_u64 s of Some n \<Rightarrow> if n < 2 ^ 16 then Some n else None | None \<Rightarrow> None)"

definition listen_addr :: "bool \<Rightarrow> string option \<Rightarrow> 'a \<Rightarrow> (nat \<Rightarrow> 'a) \<Rightarrow> 'a option" where
  "listen_addr bind_set port configured any_host =
     (if bind_set then Some configured
      else case port of Some s \<Rightarrow> map_option any_host (parse_u16 s) | None \<Rightarrow> Some configured)"

text \<open>The routes of the merged routers; a \<open>get\<close> route answers HEAD as well.\<close>

datatype endpoint = Healthz | MetricsPage | ProxyHandler | RegisterFlow | QueueStatus

definition gateway_routes :: "(string \<times> string \<times> endpoint) list" where
  "gateway_routes = [(''/v1/chat/completions'', ''POST'', ProxyHandler), (''/v1/completions'', ''POST'', ProxyHandler),
     (''/v1/models'', ''GET'', ProxyHandler)]"

definition admin_routes :: "(string \<times> string \<times> endpoint) list" where
  "admin_routes = [(''/flows'', ''POST'', RegisterFlow), (''/queue'', ''GET'', QueueStatus)]"

definition app_routes :: "(string \<times> string \<times> endpoint) list" where
  "app_routes = [(''/healthz'', ''GET'', Healthz), (''/metrics'', ''GET'', MetricsPage)] @ gateway_routes @ admin_routes"

datatype routed = To endpoint | MethodNotAllowed | NotFound

definition route :: "string \<Rightarrow> string \<Rightarrow> routed" where
  "route http_method path = (case map_of app_routes path of
       None \<Rightarrow> NotFound
     | Some (m, e) \<Rightarrow> if http_method = m \<or> m = ''GET'' \<and> http_method = ''HEAD'' then To e else MethodNotAllowed)"

text \<open>Every inference request is routed to the proxy, and apart from them only the model list is.\<close>

lemma proxied_requests:
  "route m p = To ProxyHandler \<longleftrightarrow> is_inference_request m p \<or> p = ''/v1/models'' \<and> (m = ''GET'' \<or> m = ''HEAD'')"
  by (simp add: route_def app_routes_def gateway_routes_def admin_routes_def is_inference_request_def)

section \<open>The system\<close>

text \<open>
  \<open>gw_kv\<close>: the flows of the requests that wait in the KV gate; the other lists are those of the
  scheduler's system (theory DrrStep).
\<close>

record gateway =
  gw_sc :: scheduler
  gw_mon :: monitor_state
  gw_kv :: "flow_id list"
  gw_gate :: "flow_id list"
  gw_wait :: "(nat \<times> flow_id) list"
  gw_hand :: "(flow_id \<times> pending) option"
  gw_sent :: "(nat \<times> flow_id) list"
  gw_held :: "flow_id list"
  gw_lost :: "flow_id list"

definition gateway_new :: "config \<Rightarrow> instant \<Rightarrow> gateway" where
  "gateway_new cfg now = \<lparr> gw_sc = snd (startup_scheduler cfg), gw_mon = monitor_new now, gw_kv = [], gw_gate = [],
     gw_wait = [], gw_hand = None, gw_sent = [], gw_held = [], gw_lost = [] \<rparr>"

text \<open>\<open>main\<close> up to its last line; \<open>None\<close> is a panic.\<close>

definition gateway_start :: "'a reader \<Rightarrow> 'a \<Rightarrow> ((string list \<times> cval) list \<Rightarrow> string \<Rightarrow> cval option) \<Rightarrow> string option
    \<Rightarrow> bool \<Rightarrow> string option \<Rightarrow> (nat \<Rightarrow> 'a) \<Rightarrow> instant \<Rightarrow> (gateway \<times> 'a) option" where
  "gateway_start rd any build config_path bind_set port any_host now =
     (case load rd any build config_path of
        Inl e \<Rightarrow> None
      | Inr (cfg, configured) \<Rightarrow> map_option (Pair (gateway_new cfg now)) (listen_addr bind_set port configured any_host))"

text \<open>A gateway that starts has a valid configuration, and a permit to give.\<close>

lemma gateway_start_valid:
  assumes "gateway_start rd any build path bind_set port any_host now = Some (y, a)"
  shows "\<exists>cfg. y = gateway_new cfg now \<and> validate cfg = Inr () \<and> 0 < sc_max_active_flows (cfg_scheduler cfg)"
proof -
  from assms obtain cfg b where c: "load rd any build path = Inr (cfg, b)" "y = gateway_new cfg now"
    by (auto simp: gateway_start_def split: sum.splits)
  then have v: "validate cfg = Inr ()" by (auto simp: load_Inr_iff)
  then have "first_error (validate_scheduling cfg) = Inr ()" by (simp add: validate_def first_error_append)
  then have "\<forall>(b, e) \<in> set (validate_scheduling cfg). \<not> b" by (simp only: first_error_Inr)
  then have "0 < sc_max_active_flows (cfg_scheduler cfg)" by (simp add: validate_scheduling_def Let_def)
  then show ?thesis using c v by blast
qed

abbreviation gw_s :: "gateway \<Rightarrow> sched" where
  "gw_s y \<equiv> sc_s (gw_sc y)"

definition set_s :: "sched \<Rightarrow> gateway \<Rightarrow> gateway" where
  "set_s s y = y\<lparr>gw_sc := (gw_sc y)\<lparr>sc_s := s\<rparr>\<rparr>"

definition waiting_requests :: "gateway \<Rightarrow> nat" where
  "waiting_requests y = length (gw_kv y) + length (gw_gate y) + length (gw_wait y)"

text \<open>Publishing the monitor's reading on the watch channels that the scheduler and the handlers read.\<close>

definition publish :: "monitor_state \<Rightarrow> metrics \<Rightarrow> scheduler \<Rightarrow> scheduler" where
  "publish mon m sc = sc\<lparr>sc_s := (sc_s sc)\<lparr>sd_met := m, sd_usage := Some (bs_kv_usage (mo_snapshot mon))\<rparr>,
     sc_snapshot := Some (mo_snapshot mon), sc_stalled := mo_stall_signal mon\<rparr>"

text \<open>
  The steps.  A request arrives and enters the scheduler, waits in the KV gate, or is answered at once; it
  leaves the KV gate; the scheduler's own steps; an admitted request is served, as a whole or in the
  pieces in which its handler and its stream touch the shared state; and the control plane.  A report of a request's cost may be cut in
  its load and its store, and \<open>scheduler_reap_idle\<close> comes in its parts; like the steps of theory DrrStep, these leave out the
  runs in which the reaper removes a flow that has come to use since it collected it, or an admin call inserts a flow over one
  created since its lookup.  Fewer than 2^32 requests wait at a time.
\<close>

inductive gw_step :: "app_env \<Rightarrow> backend_cfg \<Rightarrow> gateway \<Rightarrow> gateway \<Rightarrow> bool" for env :: app_env and be :: backend_cfg where
  enter: "proxy_start env now u rw (gw_sc y) = (Wait rq Entered, sc) \<Longrightarrow> waiting_requests y + 1 < 2 ^ 32 \<Longrightarrow>
     gw_step env be y (y\<lparr>gw_sc := sc, gw_gate := gw_gate y @ [rq_flow rq]\<rparr>)"
| delay: "proxy_start env now u rw (gw_sc y) = (Wait rq InKvGate, sc) \<Longrightarrow> waiting_requests y + 1 < 2 ^ 32 \<Longrightarrow>
     gw_step env be y (y\<lparr>gw_sc := sc, gw_kv := gw_kv y @ [rq_flow rq]\<rparr>)"
| answer: "proxy_start env now u rw (gw_sc y) = (st, sc) \<Longrightarrow> (\<And>rq. st \<noteq> Wait rq Entered) \<Longrightarrow> (\<And>rq. st \<noteq> Wait rq InKvGate) \<Longrightarrow>
     gw_step env be y (y\<lparr>gw_sc := sc\<rparr>)"
| resume: "f \<in> set (gw_kv y) \<Longrightarrow> admit_resume (ap_sched env) w f u (gw_sc y) = (out, sc) \<Longrightarrow> waiting_requests y < 2 ^ 32 \<Longrightarrow>
     gw_step env be y (y\<lparr>gw_sc := sc, gw_kv := remove1 f (gw_kv y), gw_gate := (if out = Entered then gw_gate y @ [f] else gw_gate y)\<rparr>)"
| leave_kv: "f \<in> set (gw_kv y) \<Longrightarrow>
     gw_step env be y (y\<lparr>gw_sc := (gw_sc y)\<lparr>sc_delayed := sc_delayed (gw_sc y) - 1\<rparr>, gw_kv := remove1 f (gw_kv y)\<rparr>)"
| queue: "f \<in> set (gw_gate y) \<Longrightarrow> enqueue f work entered (gw_s y) = (i, s) \<Longrightarrow>
     gw_step env be y ((set_s s y)\<lparr>gw_gate := remove1 f (gw_gate y), gw_wait := gw_wait y @ [(i, f)]\<rparr>)"
| grant: "gw_hand y = None \<Longrightarrow> admission_round (se_drr (ap_sched env)) now u rd lc (gw_s y) = Some (Grant f p, cap, s) \<Longrightarrow>
     gw_step env be y ((set_s s y)\<lparr>gw_hand := Some (f, p)\<rparr>)"
| idle: "gw_hand y = None \<Longrightarrow> admission_round (se_drr (ap_sched env)) now u rd lc (gw_s y) = Some (r, cap, s) \<Longrightarrow> r \<in> {round_result.Again, round_result.Break} \<Longrightarrow>
     gw_step env be y (set_s s y)"
| send: "gw_hand y = Some (f, p) \<Longrightarrow> (pd_id p, f) \<in> set (gw_wait y) \<Longrightarrow>
     gw_step env be y ((set_s ((gw_s y)\<lparr>sd_reg := snd (get_or_create u f (sd_reg (gw_s y)))\<rparr>) y)
       \<lparr>gw_hand := None, gw_sent := gw_sent y @ [(pd_id p, f)]\<rparr>)"
| send_fails: "gw_hand y = Some (f, p) \<Longrightarrow> (pd_id p, f) \<notin> set (gw_wait y) \<Longrightarrow>
     gw_step env be y ((set_s (release_permit ((gw_s y)\<lparr>sd_reg := snd (get_or_create u f (sd_reg (gw_s y)))\<rparr>)) y)\<lparr>gw_hand := None\<rparr>)"
| receive: "(i, f) \<in> set (gw_sent y) \<Longrightarrow>
     gw_step env be y ((set_s (admitted f waited (gw_s y)) y)\<lparr>gw_wait := remove1 (i, f) (gw_wait y),
       gw_sent := remove1 (i, f) (gw_sent y), gw_held := gw_held y @ [f]\<rparr>)"
| cancel_gate: "f \<in> set (gw_gate y) \<Longrightarrow>
     gw_step env be y ((set_s (guard_drop f None (gw_s y)) y)\<lparr>gw_gate := remove1 f (gw_gate y)\<rparr>)"
| cancel_queued: "(i, f) \<in> set (gw_wait y) \<Longrightarrow> (i, f) \<notin> set (gw_sent y) \<Longrightarrow>
     gw_step env be y ((set_s (guard_drop f (Some i) (gw_s y)) y)\<lparr>gw_wait := remove1 (i, f) (gw_wait y)\<rparr>)"
| cancel_sent: "(i, f) \<in> set (gw_sent y) \<Longrightarrow>
     gw_step env be y ((set_s (guard_drop f (Some i) (ticket_drop f (gw_s y))) y)\<lparr>gw_wait := remove1 (i, f) (gw_wait y),
       gw_sent := remove1 (i, f) (gw_sent y), gw_lost := gw_lost y @ [f]\<rparr>)"
| serve: "rq_flow rq \<in> set (gw_held y) \<Longrightarrow> proxy_admitted u env rq (gw_s y) = (rep, s) \<Longrightarrow>
     gw_step env be y ((set_s s y)\<lparr>gw_held := remove1 (rq_flow rq) (gw_held y)\<rparr>)"
| begin_request: "f \<in> set (gw_held y) \<Longrightarrow> lifecycle_new f est t (gw_s y) = (g, s) \<Longrightarrow> gw_step env be y (set_s s y)"
| tokens: "deliver n (g, gw_s y) = (g1, s) \<Longrightarrow> gw_step env be y (set_s s y)"
| account: "gw_step env be y (set_s (lifecycle_drop u g (gw_s y)) y)"
| finish: "f \<in> set (gw_held y) \<Longrightarrow> gw_step env be y ((set_s (ticket_drop f (gw_s y)) y)\<lparr>gw_held := remove1 f (gw_held y)\<rparr>)"
| register: "register_handler u req (gw_sc y) = (rep, sc) \<Longrightarrow> gw_step env be y (y\<lparr>gw_sc := sc\<rparr>)"
| load: "gw_step env be y (set_s (snd (accounting_load u f (gw_s y))) y)"
| store: "gw_step env be y (set_s (accounting_store f balance report (gw_s y)) y)"
| reap: "still_idle fs (sd_reg (gw_s y)) \<Longrightarrow>
     gw_step env be y (set_s ((gw_s y)\<lparr>sd_reg := snd (reap_remove fs (sd_reg (gw_s y)))\<rparr>) y)"
| reap_cadence: "cadence_reap_idle u ttl (sc_cadence (gw_sc y)) = (n, c) \<Longrightarrow> gw_step env be y (y\<lparr>gw_sc := (gw_sc y)\<lparr>sc_cadence := c\<rparr>\<rparr>)"
| poll: "poll_step be sp (gw_mon y, sd_met (gw_s y)) = (mon, m) \<Longrightarrow>
     gw_step env be y (y\<lparr>gw_sc := publish mon m (gw_sc y), gw_mon := mon\<rparr>)"

text \<open>The runs of a gateway started with a configuration and with given clients and backend.\<close>

inductive gw_reachable :: "config \<Rightarrow> app_env \<Rightarrow> gateway \<Rightarrow> bool" for cfg :: config and env :: app_env where
  boot: "env = startup_env cfg parse print answer gone \<Longrightarrow> gw_reachable cfg env (gateway_new cfg now)"
| step: "gw_reachable cfg env y \<Longrightarrow> gw_step env (cfg_backend cfg) y z \<Longrightarrow> gw_reachable cfg env z"

section \<open>Every run of the gateway is a run of the scheduler\<close>

definition drr_view :: "gateway \<Rightarrow> sys" where
  "drr_view y = \<lparr> sy_s = gw_s y, sy_gate = gw_gate y, sy_wait = gw_wait y, sy_hand = gw_hand y, sy_sent = gw_sent y,
     sy_held = gw_held y, sy_lost = gw_lost y \<rparr>"

text \<open>What an admission does: something beside the scheduler, and then the entry if it came to that.\<close>

definition admits :: "drr_cfg \<Rightarrow> flow_id \<Rightarrow> admit_outcome \<Rightarrow> sched \<Rightarrow> sched \<Rightarrow> bool" where
  "admits cfg f out s s1 \<longleftrightarrow> (\<exists>s0. aside s s0 \<and> (if out = Entered then \<exists>u. admit_enter cfg u f s0 = (None, s1) else s1 = s0))"

lemma admits_aside: "aside s s1 \<Longrightarrow> admits cfg f out s1 s2 \<Longrightarrow> admits cfg f out s s2"
  by (auto simp: admits_def intro: aside_trans)

lemma admits_other: "aside s s1 \<Longrightarrow> out \<noteq> Entered \<Longrightarrow> admits cfg f out s s1"
  by (simp add: admits_def)

text \<open>What the admission path leaves alone.\<close>

definition same_rest :: "scheduler \<Rightarrow> scheduler \<Rightarrow> bool" where
  "same_rest sc sc1 \<longleftrightarrow> sc_snapshot sc1 = sc_snapshot sc \<and> sc_stalled sc1 = sc_stalled sc
     \<and> cr_classes (sc_cadence sc1) = cr_classes (sc_cadence sc)"

lemma same_rest_trans: "same_rest a b \<Longrightarrow> same_rest b c \<Longrightarrow> same_rest a c"
  by (simp add: same_rest_def)

lemma after_kv_admits:
  assumes "admit_after_kv env f u sc = (out, sc1)"
  shows "admits (se_drr env) f out (sc_s sc) (sc_s sc1) \<and> sc_delayed sc1 = sc_delayed sc \<and> same_rest sc sc1 \<and> out \<noteq> InKvGate"
proof (cases "sc_stalled sc")
  case True
  then show ?thesis using assms by (auto simp: admit_after_kv_def same_rest_def intro: admits_other)
next
  case False
  obtain r s where e: "admit_enter (se_drr env) u f (sc_s sc) = (r, s)" by fastforce
  have "aside (sc_s sc) s" if ne: "r \<noteq> None"
  proof -
    obtain x where "r = Some x" using ne by auto
    from reject_effect[OF e[unfolded this]] show ?thesis by (simp add: aside_books beside.touch)
  qed
  moreover have "r = None \<Longrightarrow> admits (se_drr env) f Entered (sc_s sc) s"
    using e unfolding admits_def by (intro exI[of _ "sc_s sc"]) auto
  ultimately show ?thesis using assms False e
    by (auto simp: admit_after_kv_def admit_inner_def same_rest_def Let_def split: option.splits intro: admits_other)
qed

lemma aside_met: "aside s s1 \<Longrightarrow> m_active_flows m = m_active_flows (sd_met s1) \<Longrightarrow> aside s (s1\<lparr>sd_met := m\<rparr>)"
  by (simp add: aside_books)

lemma kv_active: "m_active_flows (snd (snd (kv_check_start pol ia snap d m))) = m_active_flows m"
  by (auto simp: kv_check_start_def inc_decision_def split: option.split kvm_decision.split)

lemma kv_count: "fst (snd (kv_check_start pol ia snap d m)) = d + (if fst (kv_check_start pol ia snap d m) = None then 1 else 0)"
  by (auto simp: kv_check_start_def split: option.split kvm_decision.split)

lemma admit_admits:
  assumes "admit_with_turn_boundary env f now u tb sc = (out, sc1)"
  shows "admits (se_drr env) f out (sc_s sc) (sc_s sc1)
    \<and> sc_delayed sc1 = sc_delayed sc + (if out = InKvGate then 1 else 0) \<and> same_rest sc sc1"
proof -
  obtain pri sc0 where pro: "admit_prologue f now u tb sc = (pri, sc0)" by fastforce
  have p: "aside (sc_s sc) (sc_s sc0)" "sc_delayed sc0 = sc_delayed sc" "same_rest sc sc0"
    using aside_prologue[of sc f now u tb] pro
    by (auto simp: admit_prologue_def Let_def split_beta same_rest_def)
  obtain r d m where kv: "kv_check_start (se_kv env) (pri = se_interactive env) (sc_snapshot sc0) (sc_delayed sc0) (sd_met (sc_s sc0)) = (r, d, m)"
    by (metis prod_cases3)
  let ?sc2 = "sc0\<lparr>sc_s := (sc_s sc0)\<lparr>sd_met := m\<rparr>, sc_delayed := d\<rparr>"
  have d: "d = sc_delayed sc + (if r = None then 1 else 0)"
    using kv_count[of "se_kv env" "pri = se_interactive env" "sc_snapshot sc0" "sc_delayed sc0" "sd_met (sc_s sc0)"] kv p(2) by simp
  have a: "aside (sc_s sc) (sc_s ?sc2)" using aside_met[OF p(1)] kv_active[of "se_kv env" "pri = se_interactive env"] kv
    by (metis fst_conv snd_conv scheduler.select_convs(1) scheduler.surjective scheduler.update_convs(1,2))
  have res: "(out, sc1) = (case r of None \<Rightarrow> (InKvGate, ?sc2) | Some Proceed \<Rightarrow> admit_after_kv env f u ?sc2
      | Some (Rejected after) \<Rightarrow> (Refused after, ?sc2) | Some Panicked \<Rightarrow> (Crashed, ?sc2))"
    using assms pro kv by (simp add: admit_with_turn_boundary_def Let_def)
  have rest: "same_rest sc ?sc2" using p(3) by (simp add: same_rest_def)
  show ?thesis
  proof (cases "r = Some Proceed")
    case True
    then have "admit_after_kv env f u ?sc2 = (out, sc1)" using res by simp
    from after_kv_admits[OF this] show ?thesis using admits_aside[OF a] same_rest_trans[OF rest] d True by auto
  next
    case False
    then show ?thesis using res a d rest by (auto split: option.splits admission.splits intro: admits_other)
  qed
qed

lemma resume_admits:
  assumes "admit_resume env w f u sc = (out, sc1)"
  shows "admits (se_drr env) f out (sc_s sc) (sc_s sc1) \<and> sc_delayed sc1 = sc_delayed sc - 1 \<and> same_rest sc sc1 \<and> out \<noteq> InKvGate"
proof -
  obtain a d where w: "kv_wait_end (se_kv env) w (sc_delayed sc) = (a, d)" by fastforce
  then have d: "d = sc_delayed sc - 1" by (auto simp: kv_wait_end_def split: wait_result.splits)
  have rest: "same_rest sc (sc\<lparr>sc_delayed := d\<rparr>)" by (simp add: same_rest_def)
  show ?thesis
  proof (cases "a = Proceed")
    case True
    then have "admit_after_kv env f u (sc\<lparr>sc_delayed := d\<rparr>) = (out, sc1)" using assms w by (simp add: admit_resume_def)
    from after_kv_admits[OF this] show ?thesis using d same_rest_trans[OF rest] by auto
  next
    case False
    then show ?thesis using assms w d rest by (auto simp: admit_resume_def Let_def split: admission.splits intro: admits_other)
  qed
qed

lemma start_admits:
  assumes "proxy_start env now u rw sc = (st, sc1)"
  shows "(case st of Wait rq out \<Rightarrow> admits (se_drr (ap_sched env)) (rq_flow rq) out (sc_s sc) (sc_s sc1) | _ \<Rightarrow> aside (sc_s sc) (sc_s sc1))
    \<and> sc_delayed sc1 = sc_delayed sc + (if \<exists>rq. st = Wait rq InKvGate then 1 else 0) \<and> same_rest sc sc1"
proof (cases "read_body (rw_headers rw) (rw_body rw)")
  case (Inl e)
  then show ?thesis using assms by (auto simp: proxy_start_def same_rest_def)
next
  case (Inr body)
  define rf where "rf = resolve (ap_parse env) (rw_flow_uuid rw) (rw_headers rw) body"
  obtain slot sc0 where sl: "choose_slot rw (rf_flow_id rf) sc = (slot, sc0)" by fastforce
  have s0: "aside (sc_s sc) (sc_s sc0)" "sc_delayed sc0 = sc_delayed sc" "same_rest sc sc0"
    using aside_slot[of sc rw "rf_flow_id rf"] sl
    by (auto simp: choose_slot_def Let_def split_beta same_rest_def split: bool.splits option.splits if_splits)
  define rq where "rq = make_request env rw (projr (rw_url rw)) (rf_flow_id rf) body slot"
  let ?sc0 = "override_priority u env rf sc0"
  have s1: "aside (sc_s sc) (sc_s ?sc0)" "sc_delayed ?sc0 = sc_delayed sc" "same_rest sc ?sc0"
    using aside_trans[OF s0(1) aside_override] s0(2,3) by (simp_all add: override_priority_def Let_def same_rest_def)
  obtain out sc2 where ad: "admit_with_turn_boundary (ap_sched env) (rf_flow_id rf) now u (rq_boundary rq) ?sc0 = (out, sc2)" by fastforce
  note A = admit_admits[OF ad]
  have fl: "rq_flow rq = rf_flow_id rf" by (simp add: rq_def make_request_def Let_def)
  have full: "(st, sc1) = (if \<exists>e. rw_url rw = Inl e then (Refuse (projl (rw_url rw)), sc0)
      else if \<not> is_inference_request (rw_method rw) (rw_path rw) then (Direct rq, sc0) else settle_admission env rq (out, sc2))"
    using assms Inr sl ad by (auto simp: proxy_start_def rf_def[symmetric] rq_def Let_def split: sum.splits if_splits)
  show ?thesis
  proof (cases "(\<exists>e. rw_url rw = Inl e) \<or> \<not> is_inference_request (rw_method rw) (rw_path rw)")
    case True
    then show ?thesis using full s0 by (auto split: if_splits)
  next
    case False
    then have set: "settle_admission env rq (out, sc2) = (st, sc1)" using full by simp
    show ?thesis
    proof (cases "\<exists>d. out = Refused d")
      case True
      then have r: "sc1 = count_rejection env sc2" "\<exists>e. st = Refuse e" using set by (auto simp: settle_admission_def)
      have "aside (sc_s sc) (sc_s sc2)" using A True s1(1) by (auto simp: admits_def intro: aside_trans)
      then have "aside (sc_s sc) (sc_s sc1)" by (simp add: r count_rejection_def Let_def aside_met)
      then show ?thesis using A True r s1 by (auto simp: count_rejection_def Let_def same_rest_def)
    next
      case ne: False
      then have "st = Wait rq out" "sc1 = sc2" using set by (cases out; simp add: settle_admission_def)+
      then show ?thesis using A s1 admits_aside[OF s1(1)] same_rest_trans[OF s1(3)] by (auto simp: fl)
    qed
  qed
qed

lemma drr_view_set [simp]:
  "drr_view (set_s s y) = (drr_view y)\<lparr>sy_s := s\<rparr>" "gw_gate (set_s s y) = gw_gate y" "gw_wait (set_s s y) = gw_wait y"
  "gw_sent (set_s s y) = gw_sent y" "gw_held (set_s s y) = gw_held y" "gw_kv (set_s s y) = gw_kv y"
  "sc_delayed (gw_sc (set_s s y)) = sc_delayed (gw_sc y)" "gw_mon (set_s s y) = gw_mon y" "gw_s (set_s s y) = s"
  "same_rest (gw_sc y) (gw_sc (set_s s y))"
  by (simp_all add: drr_view_def set_s_def same_rest_def)

lemma drr_view_fields [simp]:
  "sy_s (drr_view y) = gw_s y" "sy_gate (drr_view y) = gw_gate y" "sy_wait (drr_view y) = gw_wait y"
  "sy_hand (drr_view y) = gw_hand y" "sy_lost (drr_view y) = gw_lost y" "sy_sent (drr_view y) = gw_sent y" "sy_held (drr_view y) = gw_held y"
  by (simp_all add: drr_view_def)

lemma drr_view_update [simp]:
  "drr_view (y\<lparr>gw_gate := g\<rparr>) = (drr_view y)\<lparr>sy_gate := g\<rparr>" "drr_view (y\<lparr>gw_wait := w\<rparr>) = (drr_view y)\<lparr>sy_wait := w\<rparr>"
  "drr_view (y\<lparr>gw_hand := h\<rparr>) = (drr_view y)\<lparr>sy_hand := h\<rparr>" "drr_view (y\<lparr>gw_sent := t\<rparr>) = (drr_view y)\<lparr>sy_sent := t\<rparr>"
  "drr_view (y\<lparr>gw_held := d\<rparr>) = (drr_view y)\<lparr>sy_held := d\<rparr>" "drr_view (y\<lparr>gw_lost := l\<rparr>) = (drr_view y)\<lparr>sy_lost := l\<rparr>"
  "drr_view (y\<lparr>gw_kv := k\<rparr>) = drr_view y" "drr_view (y\<lparr>gw_mon := m\<rparr>) = drr_view y"
  "drr_view (y\<lparr>gw_sc := sc\<rparr>) = (drr_view y)\<lparr>sy_s := sc_s sc\<rparr>"
  by (simp_all add: drr_view_def)

text \<open>Serving a request is, for the scheduler, the end of a running request between changes of other things.\<close>

lemma served_reachable:
  assumes y: "reachable cfg y" and held: "f \<in> set (sy_held y)" and e: "ends_request f (sy_s y) s1"
  shows "reachable cfg (y\<lparr>sy_s := s1, sy_held := remove1 f (sy_held y)\<rparr>)"
proof -
  obtain u g s0 where g: "sd_reg s0 = sd_reg (sy_s y)" "lc_flow g = f"
    and r: "sd_reg s1 = sd_reg (ticket_drop f (lifecycle_drop u g s0)) \<or> sd_reg s1 = sd_reg (lifecycle_drop u g (ticket_drop f s0))"
    using e by (auto simp: ends_request_def drop_reg_def)
  note E = e[unfolded ends_request_def]
  from r show ?thesis
  proof
    assume r1: "sd_reg s1 = sd_reg (ticket_drop f (lifecycle_drop u g s0))"
    let ?s = "s1\<lparr>sd_drr := sd_drr (sy_s y), sd_reg := sd_reg (lifecycle_drop u g s0),
      sd_met := (sd_met s1)\<lparr>m_active_flows := m_active_flows (sd_met (sy_s y))\<rparr>\<rparr>"
    have "books (sd_reg (sy_s y)) (sd_reg (lifecycle_drop u g s0))" by (rule beside.account_law) (simp add: g)
    then have "aside (sy_s y) ?s" using E by (simp add: aside_books)
    from reachable.step[OF y drr_step.outside[OF this]] have z: "reachable cfg (y\<lparr>sy_s := ?s\<rparr>)" .
    have "ticket_drop f ?s = s1" using r1 E by (simp add: ticket_drop_def release_permit_def)
    then show ?thesis using reachable.step[OF z drr_step.finish[of f]] held by simp
  next
    assume r2: "sd_reg s1 = sd_reg (lifecycle_drop u g (ticket_drop f s0))"
    let ?z = "y\<lparr>sy_s := ticket_drop f (sy_s y), sy_held := remove1 f (sy_held y)\<rparr>"
    have z: "reachable cfg ?z" by (rule reachable.step[OF y drr_step.finish[OF held]])
    have "sd_reg (ticket_drop f s0) = sd_reg (ticket_drop f (sy_s y))" using g by (simp add: ticket_drop_def release_permit_def)
    then have "books (sd_reg (ticket_drop f (sy_s y))) (sd_reg s1)" using beside.account_law[of _ "ticket_drop f s0"] r2 by simp
    then have "aside (sy_s ?z) s1" using E by (simp add: aside_books ticket_drop_def release_permit_def)
    moreover have "?z\<lparr>sy_s := s1\<rparr> = y\<lparr>sy_s := s1, sy_held := remove1 f (sy_held y)\<rparr>" by (cases y) simp
    ultimately show ?thesis using reachable.step[OF z drr_step.outside] by metis
  qed
qed

lemma admitted_reachable:
  assumes y: "reachable cfg y" and a: "admits cfg f out (sy_s y) s1" and n: "length (sy_gate y) + length (sy_wait y) + 1 < 2 ^ 32"
  shows "reachable cfg (y\<lparr>sy_s := s1, sy_gate := (if out = Entered then sy_gate y @ [f] else sy_gate y)\<rparr>)"
proof -
  obtain s0 where s0: "aside (sy_s y) s0" "if out = Entered then \<exists>u. admit_enter cfg u f s0 = (None, s1) else s1 = s0"
    using a by (auto simp: admits_def)
  have z: "reachable cfg (y\<lparr>sy_s := s0\<rparr>)" by (rule reachable.step[OF y drr_step.outside[OF s0(1)]])
  show ?thesis
  proof (cases "out = Entered")
    case True
    then obtain u where "admit_enter cfg u f (sy_s (y\<lparr>sy_s := s0\<rparr>)) = (None, s1)" using s0(2) by auto
    from reachable.step[OF z drr_step.enter[OF this]] n True show ?thesis by simp
  qed (use z s0 in simp)
qed

lemma aside_deliver: "aside s (snd (deliver n (g, s)))"
  using kept_deliver[of s n g] by (simp add: aside_books kept_def)

lemma aside_lifecycle_new: "aside s (snd (lifecycle_new f est t s))"
  using kept_lifecycle_new[of s f est t] by (simp add: aside_books kept_def)

lemma poll_active: "m_active_flows (snd (poll_step be sp (mon, m))) = m_active_flows m"
  by (auto simp: poll_step_def watchdog_step_def Let_def split_beta split: scrape_body.split)

lemma beside_steps:
  "lifecycle_new f est t s = (g, s1) \<Longrightarrow> aside s s1" "deliver n (g, s) = (g1, s1) \<Longrightarrow> aside s s1"
  "aside s (lifecycle_drop u g s)" "aside s (snd (accounting_load u f s))" "aside s (accounting_store f c report s)" "register_handler u req sc = (rep, sc1) \<Longrightarrow> aside (sc_s sc) (sc_s sc1)"
  using aside_lifecycle_new[of s f est t] aside_deliver[of s n g] aside_account aside_load aside_store aside_register[of sc u req]
  by simp_all

text \<open>The scheduler's own steps as steps of the gateway.\<close>

lemmas view_steps = drr_step.queue drr_step.grant drr_step.idle drr_step.send drr_step.send_fails drr_step.receive
  drr_step.cancel_gate drr_step.cancel_queued drr_step.cancel_sent drr_step.finish drr_step.reap

lemma step_simulated:
  assumes "gw_step env be y z" and r: "reachable (se_drr (ap_sched env)) (drr_view y)"
  shows "reachable (se_drr (ap_sched env)) (drr_view z)"
proof -
  let ?cfg = "se_drr (ap_sched env)" and ?v = "drr_view y"
  note own = view_steps[where y = ?v, THEN reachable.step[OF r], unfolded drr_view_fields]
  have beside: "reachable ?cfg (?v\<lparr>sy_s := s\<rparr>)" if "aside (gw_s y) s" for s
    using reachable.step[OF r drr_step.outside] that by simp
  have room: "length (gw_gate y) + length (gw_wait y) + 1 < 2 ^ 32" if "waiting_requests y + k < 2 ^ 32" "k = 1 \<or> gw_kv y \<noteq> []" for k
    using that by (cases "gw_kv y") (auto simp: waiting_requests_def)
  have adm: "reachable ?cfg (?v\<lparr>sy_s := s1, sy_gate := (if out = Entered then gw_gate y @ [f] else gw_gate y)\<rparr>)"
    if "admits ?cfg f out (gw_s y) s1" "length (gw_gate y) + length (gw_wait y) + 1 < 2 ^ 32" for f out s1
    using admitted_reachable[OF r, of f out s1] that by (cases "out = Entered") simp_all
  from assms(1) show ?thesis
  proof cases
    case (enter now u rw rq sc)
    then show ?thesis using start_admits[OF enter(2)] adm[of "rq_flow rq" Entered "sc_s sc"] room[of 1] by simp
  next
    case (delay now u rw rq sc)
    then have "aside (gw_s y) (sc_s sc)" using start_admits[OF delay(2)] by (simp add: admits_def)
    from beside[OF this] show ?thesis using delay by simp
  next
    case (answer now u rw st sc)
    then have "aside (gw_s y) (sc_s sc)" using start_admits[OF answer(2)] by (auto simp: admits_def split: start.splits if_splits)
    from beside[OF this] show ?thesis using answer by simp
  next
    case (resume f w u out sc)
    then have "gw_kv y \<noteq> []" by auto
    then show ?thesis using resume resume_admits[OF resume(3)] adm[of f out "sc_s sc"] room[of 0] by (auto split: if_splits)
  next
    case (serve rq u rep s)
    then show ?thesis using served_reachable[OF r, of "rq_flow rq" s] admitted_ends[of rq "gw_s y" u env] by simp
  next
    case (reap_cadence u ttl n c)
    then show ?thesis using r by (simp add: drr_view_def)
  next
    case (poll sp mon m)
    then have "aside (gw_s y) (sc_s (publish mon m (gw_sc y)))"
      using poll_active[of be sp "gw_mon y" "sd_met (gw_s y)"] by (simp add: aside_books publish_def)
    from beside[OF this] show ?thesis using poll by simp
  qed (use r in \<open>auto intro: own beside beside_steps\<close>)
qed

lemma boot_reachable: "reachable (se_drr (fst (startup_scheduler cfg))) (drr_view (gateway_new cfg now))"
proof -
  let ?n = "of_nat (sc_max_active_flows (cfg_scheduler cfg)) :: u32" and ?f = "cfg_flows cfg"
  have "reachable (se_drr (fst (startup_scheduler cfg))) (sys_new ?n (fl_default_weight ?f) (fl_default_priority ?f))"
    by (rule reachable.start) (simp add: startup_scheduler_def scheduler_new_def Let_def)
  from reachable.step[OF this drr_step.observe[where usage = "Some (Fin 0)" and prog = progress_new]]
  show ?thesis by (simp add: drr_view_def gateway_new_def startup_scheduler_def scheduler_new_def sys_new_def snapshot_default_def Let_def)
qed

text \<open>What the admission path counts, and what the monitor has published.\<close>

definition gw_inv :: "gateway \<Rightarrow> bool" where
  "gw_inv y \<longleftrightarrow> unat (sc_delayed (gw_sc y)) = length (gw_kv y) \<and> waiting_requests y < 2 ^ 32
     \<and> sc_snapshot (gw_sc y) = Some (mo_snapshot (gw_mon y)) \<and> sc_stalled (gw_sc y) = mo_stall_signal (gw_mon y)"

lemma delayed_less: "gw_inv y \<Longrightarrow> f \<in> set (gw_kv y) \<Longrightarrow> unat (sc_delayed (gw_sc y) - 1) = length (gw_kv y) - 1"
proof -
  assume i: "gw_inv y" and f: "f \<in> set (gw_kv y)"
  then have "0 < length (gw_kv y)" by auto
  then have "sc_delayed (gw_sc y) \<noteq> 0" using i by (auto simp: gw_inv_def)
  then show ?thesis using i by (simp add: gw_inv_def unat_minus_one)
qed

lemma length_remove1_le [simp]: "length (remove1 x xs) \<le> length xs"
  by (induction xs) auto

lemma gw_inv_moved:
  assumes "gw_inv y" and "same_rest (gw_sc y) (gw_sc z)" and "gw_mon z = gw_mon y"
    and "unat (sc_delayed (gw_sc z)) = length (gw_kv z)" and "waiting_requests z < 2 ^ 32"
  shows "gw_inv z"
  using assms by (simp add: gw_inv_def same_rest_def)

lemma gw_inv_kept:
  assumes "gw_inv y" and "same_rest (gw_sc y) (gw_sc z)" and "gw_mon z = gw_mon y"
    and "sc_delayed (gw_sc z) = sc_delayed (gw_sc y)" and "gw_kv z = gw_kv y" and "waiting_requests z \<le> waiting_requests y"
  shows "gw_inv z"
  using assms by (auto simp: gw_inv_def same_rest_def)

lemma register_rest:
  assumes "register_handler u req sc = (rep, sc1)"
  shows "same_rest sc sc1 \<and> sc_delayed sc1 = sc_delayed sc"
proof -
  have "sc1 = snd (register_handler u req sc)" using assms by simp
  then show ?thesis by (auto simp: register_handler_def same_rest_def Let_def split_beta)
qed

lemma gw_inv_step:
  assumes "gw_step env be y z" and i: "gw_inv y"
  shows "gw_inv z"
proof -
  from assms(1) show ?thesis
  proof cases
    case (enter now u rw rq sc)
    then show ?thesis using start_admits[OF enter(2)] i by (intro gw_inv_moved[OF i]) (auto simp: waiting_requests_def gw_inv_def)
  next
    case (delay now u rw rq sc)
    have "unat (sc_delayed (gw_sc y) + 1) = length (gw_kv y) + 1"
      using i delay(3) by (subst unat_suc_u32[of _ "length (gw_kv y) + 1"]) (auto simp: gw_inv_def waiting_requests_def)
    then show ?thesis using delay start_admits[OF delay(2)] i by (intro gw_inv_moved[OF i]) (auto simp: waiting_requests_def)
  next
    case (answer now u rw st sc)
    then show ?thesis using start_admits[OF answer(2)] by (intro gw_inv_kept[OF i]) (auto simp: waiting_requests_def)
  next
    case (resume f w u out sc)
    then show ?thesis using resume_admits[OF resume(3)] delayed_less[OF i resume(2)] length_remove1_less[OF resume(2)]
      by (intro gw_inv_moved[OF i]) (auto simp: waiting_requests_def)
  next
    case (leave_kv f)
    then show ?thesis using delayed_less[OF i leave_kv(2)] length_remove1_less[OF leave_kv(2)] i
      by (intro gw_inv_moved[OF i]) (auto simp: waiting_requests_def same_rest_def gw_inv_def)
  next
    case (queue f work entered i' s)
    then show ?thesis using length_remove1_less[OF queue(2)] by (intro gw_inv_kept[OF i]) (auto simp: waiting_requests_def)
  next
    case (register u req rep sc)
    then show ?thesis using register_rest[OF register(2)] by (intro gw_inv_kept[OF i]) (auto simp: waiting_requests_def)
  next
    case (reap_cadence u ttl n c)
    then show ?thesis
      by (intro gw_inv_kept[OF i]) (auto simp: waiting_requests_def cadence_reap_idle_def same_rest_def Let_def)
  next
    case (poll sp mon m)
    then show ?thesis using i by (simp add: gw_inv_def publish_def waiting_requests_def)
  qed (use length_remove1_less in \<open>auto intro!: gw_inv_kept[OF i] simp: waiting_requests_def same_rest_def set_s_def\<close>)
qed

lemma gw_inv_new: "gw_inv (gateway_new cfg now)"
  by (simp add: gw_inv_def gateway_new_def startup_scheduler_def scheduler_new_def monitor_new_def waiting_requests_def Let_def)

lemma gw_reachable_invs:
  "gw_reachable cfg env y \<Longrightarrow> reachable (se_drr (ap_sched env)) (drr_view y) \<and> gw_inv y
     \<and> (\<exists>parse print answer gone. env = startup_env cfg parse print answer gone)"
proof (induction rule: gw_reachable.induct)
  case (boot parse print answer gone now)
  then show ?case using boot_reachable[of cfg now] gw_inv_new by (auto simp: startup_env_def)
next
  case (step y z)
  then show ?case using step_simulated gw_inv_step by blast
qed

section \<open>Flow records stay in range\<close>

lemma admit_shape:
  assumes "admit_with_turn_boundary env f now u tb sc = (out, sc1)" and "snd (admit_prologue f now u tb sc) = sc0"
  obtains m d where "sc1 = sc0\<lparr>sc_s := (sc_s sc0)\<lparr>sd_met := m\<rparr>, sc_delayed := d\<rparr>"
  | m d where "admit_after_kv env f u (sc0\<lparr>sc_s := (sc_s sc0)\<lparr>sd_met := m\<rparr>, sc_delayed := d\<rparr>) = (out, sc1)"
proof -
  obtain pri where pro: "admit_prologue f now u tb sc = (pri, sc0)" using assms(2) by (metis prod.collapse)
  obtain r d m where kv: "kv_check_start (se_kv env) (pri = se_interactive env) (sc_snapshot sc0) (sc_delayed sc0) (sd_met (sc_s sc0)) = (r, d, m)"
    by (metis prod_cases3)
  show ?thesis using assms(1) pro kv that[where d = d and m = m]
    by (auto simp: admit_with_turn_boundary_def Let_def split: option.splits admission.splits)
qed

context registry_law
begin

lemma admit_law:
  assumes "classes_below b (cr_classes (sc_cadence sc))" and "P (sd_reg (sc_s sc))"
    and "admit_with_turn_boundary env f now u tb sc = (out, sc1)"
  shows "P (sd_reg (sc_s sc1))"
proof -
  have after: "P (sd_reg (sc_s sc2))" if "admit_after_kv env f u sc0 = (out, sc2)" "P (sd_reg (sc_s sc0))" for sc0 sc2
    using queue_laws(7)[OF that(2)] that by (auto simp: admit_after_kv_def admit_inner_def Let_def split_beta split: if_splits)
  define sc0 where "sc0 = snd (admit_prologue f now u tb sc)"
  have p: "P (sd_reg (sc_s sc0))" unfolding sc0_def by (rule prologue_law[OF assms(1,2)])
  show ?thesis using p after by (cases rule: admit_shape[OF assms(3) sc0_def[symmetric]]) auto
qed

lemma start_law:
  assumes "classes_below b (cr_classes (sc_cadence sc))" and "classes_below b (ap_priorities env)" and "P (sd_reg (sc_s sc))"
    and "proxy_start env now u rw sc = (st, sc1)"
  shows "P (sd_reg (sc_s sc1))"
proof -
  have slot: "P (sd_reg (sc_s (snd (choose_slot rw f sc))))" "sc_cadence (snd (choose_slot rw f sc)) = sc_cadence sc" for f
    using slot_law[OF assms(3)] by (auto simp: choose_slot_def Let_def split_beta split: bool.split option.split)
  have over: "P (sd_reg (sc_s (override_priority u env rf sc0)))" "sc_cadence (override_priority u env rf sc0) = sc_cadence sc0"
    if "P (sd_reg (sc_s sc0))" for rf sc0
    using override_law[OF assms(2) that] by (simp_all add: override_priority_def Let_def)
  have settle: "sd_reg (sc_s (snd (settle_admission env rq r))) = sd_reg (sc_s (snd r))" for rq r
    by (cases r; cases "fst r") (simp_all add: settle_admission_def count_rejection_def Let_def)
  have "P (sd_reg (sc_s (snd (admit_with_turn_boundary (ap_sched env) f now u tb (override_priority u env rf (snd (choose_slot rw f0 sc)))))))"
    for f tb rf f0
    by (rule admit_law[OF _ _ prod.collapse[symmetric]]) (simp_all add: over slot assms(1))
  then show ?thesis using assms(3,4) slot
    by (auto simp: proxy_start_def Let_def split_beta settle[unfolded split_beta] prod_eq_iff split: sum.splits if_splits)
qed

lemma resume_law:
  assumes "P (sd_reg (sc_s sc))" and "admit_resume env w f u sc = (out, sc1)"
  shows "P (sd_reg (sc_s sc1))"
proof -
  have "P (sd_reg (sc_s (snd (admit_after_kv env f u (sc\<lparr>sc_delayed := d\<rparr>)))))" for d
    using queue_laws(7)[OF assms(1)] assms(1) by (simp add: admit_after_kv_def admit_inner_def Let_def split_beta)
  then show ?thesis using assms by (auto simp: admit_resume_def Let_def split_beta prod_eq_iff split: admission.splits)
qed

lemma served_law:
  assumes "P (sd_reg s)" and "ends_request f s s1"
  shows "P (sd_reg s1)"
proof -
  obtain u g s0 where "sd_reg s0 = sd_reg s"
    and r: "sd_reg s1 = sd_reg (ticket_drop f (lifecycle_drop u g s0)) \<or> sd_reg s1 = sd_reg (lifecycle_drop u g (ticket_drop f s0))"
    using assms(2) by (auto simp: ends_request_def drop_reg_def)
  then have "P (sd_reg s0)" using assms(1) by simp
  then show ?thesis using r account_law queue_laws(5) by auto
qed

definition ranged :: "gateway \<Rightarrow> bool" where
  "ranged y \<longleftrightarrow> P (sd_reg (gw_s y)) \<and> classes_below b (cr_classes (sc_cadence (gw_sc y)))"

lemma ranged_step:
  assumes "gw_step env be y z" and "ranged y" and "classes_below b (ap_priorities env)" and "100 \<le> b"
  shows "ranged z"
proof -
  have P: "P (sd_reg (gw_s y))" and C: "classes_below b (cr_classes (sc_cadence (gw_sc y)))" using assms(2) by (simp_all add: ranged_def)
  have kept: "ranged w" if "P (sd_reg (gw_s w))" "same_rest (gw_sc y) (gw_sc w)" for w
    using that C by (simp add: ranged_def same_rest_def)
  note rest = same_rest_def set_s_def and own = touch reap queue_laws(3,4,5) account_law load_law store_law
  from assms(1) show ?thesis
  proof cases
    case (enter now u rw rq sc)
    then show ?thesis using start_law[OF C assms(3) P enter(2)] start_admits[OF enter(2)] by (intro kept) auto
  next
    case (delay now u rw rq sc)
    then show ?thesis using start_law[OF C assms(3) P delay(2)] start_admits[OF delay(2)] by (intro kept) auto
  next
    case (answer now u rw st sc)
    then show ?thesis using start_law[OF C assms(3) P answer(2)] start_admits[OF answer(2)] by (intro kept) auto
  next
    case (resume f w u out sc)
    then show ?thesis using resume_law[OF P resume(3)] resume_admits[OF resume(3)] by (intro kept) auto
  next
    case (queue f work entered i s)
    then show ?thesis using queue_laws(2)[OF P, of f work entered] by (intro kept) (auto simp: rest)
  next
    case (serve rq u rep s)
    then show ?thesis using served_law[OF P, of "rq_flow rq" s] admitted_ends[of rq "gw_s y" u env] by (intro kept) (simp_all add: rest)
  next
    case (begin_request f est t g s)
    then show ?thesis using P kept_lifecycle_new[of "gw_s y" f est t] by (intro kept) (simp_all add: rest kept_def)
  next
    case (tokens n g g1 s)
    then show ?thesis using P kept_deliver[of "gw_s y" n g] by (intro kept) (simp_all add: rest kept_def)
  next
    case (register u req rep sc)
    then show ?thesis using register_law[OF assms(4) P, of u req] register_rest[OF register(2)] by (intro kept) simp_all
  next
    case (reap_cadence u ttl n c)
    then show ?thesis using P by (intro kept) (auto simp: cadence_reap_idle_def same_rest_def Let_def)
  next
    case (poll sp mon m)
    then show ?thesis using P C by (simp add: ranged_def publish_def)
  qed (auto intro!: kept simp: rest release_permit_def P own dest: round_law[OF P])
qed

end

text \<open>The record of a flow: stored under its own id, with values in the ranges of their fields.\<close>

definition typed :: "nat \<Rightarrow> registry \<Rightarrow> bool" where
  "typed b r \<longleftrightarrow> reg_inv r \<and> rg_default_priority r \<le> b
     \<and> (\<forall>f fl. reg_lookup r f = Some fl \<longrightarrow>
          fl_id fl = f \<and> fl_priority fl \<le> b \<and> fl_priority_source fl \<le> 2 \<and> in_i64 (fl_credit fl))"

lemma typed_update:
  assumes "\<And>fl. flow_step b fl (g fl)" and "typed b r"
  shows "typed b (reg_update f g r)"
proof -
  have "rg_default_priority (reg_update f g r) = rg_default_priority r" by (simp add: reg_update_def split: option.split)
  then show ?thesis using assms by (auto simp: typed_def reg_inv_ops flow_step_def) metis+
qed

lemma typed_reap:
  assumes "typed b r"
  shows "typed b (snd (reap_remove fs r))"
proof -
  have i: "reg_inv r" using assms by (simp add: typed_def)
  have "rg_default_priority (reap_all is r) = rg_default_priority r" for "is"
    by (induction "is" arbitrary: r) simp_all
  then have "rg_default_priority (snd (reap_remove fs r)) = rg_default_priority r" by (simp add: reap_remove_def Let_def)
  then show ?thesis using assms reap_remove_effect(1,2)[OF i, of fs] by (auto simp: typed_def split: if_splits)
qed

interpretation typed: registry_law "typed b" b for b
proof unfold_locales
  fix r u f
  assume t: "typed b r"
  have "rg_default_priority (snd (get_or_create u f r)) = rg_default_priority r" by (simp add: get_or_create_def Let_def)
  then show "typed b (snd (get_or_create u f r))"
    using t by (auto simp: typed_def reg_inv_ops reg_flow_def flow_new_def in_i64_def i64_min_def i64_max_def split: option.splits)
next
  fix r f and g :: "flow \<Rightarrow> flow"
  assume "\<And>fl. flow_write b fl (g fl)" and "typed b r"
  then show "typed b (reg_update f g r)" by (intro typed_update) (simp_all add: flow_write_def)
next
  fix r f n
  assume t: "typed b r"
  then show "typed b (snd (assign_slot f n r))"
    by (simp add: typed_def reg_inv_ops) (simp add: reg_lookup_def assign_slot_def split_beta Let_def)
next
  fix r u and q :: flow_registration
  assume q: "frg_priority q \<le> b" and t: "typed b r"
  let ?r = "snd (register_flow u q r)"
  have "rg_default_priority ?r = rg_default_priority r" by (simp add: register_flow_eq Let_def split: option.split)
  moreover have "reg_lookup ?r f = Some fl \<Longrightarrow>
      fl_id fl = f \<and> fl_priority fl \<le> b \<and> fl_priority_source fl \<le> 2 \<and> in_i64 (fl_credit fl)" for f fl
    using t q by (auto simp: typed_def reg_lookup_def register_flow_eq Let_def in_i64_def i64_min_def i64_max_def
        split: option.splits if_splits)
  ultimately show "typed b ?r" using t by (simp add: typed_def reg_inv_ops)
qed (fact typed_update, fact typed_reap)

section \<open>Properties\<close>

text \<open>
  C4. Composition: every run of the whole gateway - handlers with all their stages, streams, admin
  calls, monitor, reaper and admission loop interleaved in any order - is a run of the DRR scheduler alone, so
  what holds in all reachable states of the scheduler holds in the gateway: free permits, the grant in
  hand, undelivered tickets and running requests always add up to the configured \<open>max_active_flows\<close>.
\<close>

theorem gateway_refines_scheduler:
  assumes "gw_reachable cfg env y" and "sc_max_active_flows (cfg_scheduler cfg) < 2 ^ 32"
  shows "reachable (se_drr (ap_sched env)) (drr_view y)
    \<and> unat (dr_available (sd_drr (gw_s y))) + in_hand (drr_view y) + length (gw_sent y) + length (gw_held y)
        = sc_max_active_flows (cfg_scheduler cfg)"
proof -
  from gw_reachable_invs[OF assms(1)] obtain parse print answer gone
    where r: "reachable (se_drr (ap_sched env)) (drr_view y)" and e: "env = startup_env cfg parse print answer gone" by blast
  have "dc_max_active_flows (se_drr (ap_sched env)) = sc_max_active_flows (cfg_scheduler cfg)"
    using assms(2) by (simp add: e startup_env_def startup_scheduler_def scheduler_new_def Let_def unat_of_nat)
  then show ?thesis using r reachableD(1)[OF r] by (simp add: permits_ok_def)
qed

text \<open>
  C7. The queue depth of the whole gateway is exact in every state of every run of \<open>gw_step\<close>, that is as long as no
  reaper run has removed a flow that a request had come to use after the run collected it, and no admin registration has
  inserted a flow over one created after its lookup (theory Races): \<open>queue_depth()\<close> and the \<open>waiting\<close> count of
  GET /queue are the number of requests between the start of admission and its end, those
  in the KV gate included, although two components count them with wrapping 32-bit counters; and what
  scheduler and handlers read of the backend is the monitor's last reading and verdict.
\<close>

theorem gateway_queue_depth:
  assumes "gw_reachable cfg env y"
  shows "unat (scheduler_queue_depth (gw_sc y)) = waiting_requests y
    \<and> fst (snd (queue_handler (gw_sc y))) = waiting_requests y
    \<and> sc_snapshot (gw_sc y) = Some (mo_snapshot (gw_mon y)) \<and> sc_stalled (gw_sc y) = mo_stall_signal (gw_mon y)"
proof -
  from gw_reachable_invs[OF assms] have r: "reachable (se_drr (ap_sched env)) (drr_view y)" and i: "gw_inv y" by blast+
  have d: "unat (drr_queue_depth (gw_s y)) = length (gw_gate y) + length (gw_wait y)"
    using sum_depths_unat[OF reachableD(3)[OF r]] by (simp add: drr_queue_depth_def)
  have k: "unat (sc_delayed (gw_sc y)) = length (gw_kv y)" "waiting_requests y < 2 ^ 32" using i by (simp_all add: gw_inv_def)
  have "unat (drr_queue_depth (gw_s y) + sc_delayed (gw_sc y)) = waiting_requests y"
    using d k by (simp add: unat_word_ariths(1) waiting_requests_def)
  then show ?thesis using d k i
    by (simp add: scheduler_queue_depth_def queue_handler_def scheduler_queue_snapshot_def drr_queue_snapshot_def
        reg_queue_snapshot_def gw_inv_def waiting_requests_def Let_def)
qed

text \<open>
  C22. Flow records keep their types in every reachable state of the gateway: a record is stored
  under its own id, its priority is at most 100 if the configured priorities are (and never above the
  largest of them and 100), its priority source is one of the three codes, and its credit is a
  64-bit integer, although it is written by handlers, the admin interface, the cadence heuristic
  and the scheduler at the same time.
\<close>

theorem flow_records_typed:
  assumes "gw_reachable cfg env y" and "classes_below b (cfg_priorities cfg)" and "fl_default_priority (cfg_flows cfg) \<le> b"
    and "100 \<le> b" and "reg_lookup (sd_reg (gw_s y)) f = Some fl"
  shows "fl_id fl = f \<and> fl_priority fl \<le> b \<and> fl_priority_source fl \<le> 2 \<and> in_i64 (fl_credit fl)"
proof -
  have "typed.ranged b y"
    using assms(1)
  proof (induction rule: gw_reachable.induct)
    case (boot parse print answer gone now)
    have "typed b (registry_new (fl_default_weight (cfg_flows cfg)) (fl_default_priority (cfg_flows cfg)))"
      using assms(3) by (simp add: typed_def reg_inv_new[unfolded registry_new_def] registry_new_def reg_lookup_def)
    then show ?case using assms(2)
      by (simp add: typed.ranged_def gateway_new_def startup_scheduler_def scheduler_new_def Let_def)
  next
    case (step y z)
    have "classes_below b (ap_priorities env)"
      using gw_reachable_invs[OF step(1)] assms(2) by (auto simp: startup_env_def)
    then show ?case using typed.ranged_step[OF step(2,3)] assms(4) by simp
  qed
  then show ?thesis using assms(5) by (simp add: typed.ranged_def typed_def)
qed

text \<open>A gateway with the default configuration after one flow has been registered.\<close>

definition ex_gw_env :: app_env where
  "ex_gw_env = startup_env config_default (\<lambda>_. None) (\<lambda>_. None) (\<lambda>_ _. TimedOut) (\<lambda>_. False)"

definition ex_gw :: gateway where
  "ex_gw = (gateway_new config_default 0)
     \<lparr>gw_sc := snd (register_handler 1 (ex_register (Fin 2)) (gw_sc (gateway_new config_default 0)))\<rparr>"

lemma ex_gw_reachable: "gw_reachable config_default ex_gw_env ex_gw"
proof -
  have "gw_reachable config_default ex_gw_env (gateway_new config_default 0)" by (rule gw_reachable.boot[OF ex_gw_env_def])
  moreover have "gw_step ex_gw_env (cfg_backend config_default) (gateway_new config_default 0) ex_gw"
    unfolding ex_gw_def by (rule gw_step.register[OF prod.collapse[symmetric]])
  ultimately show ?thesis by (rule gw_reachable.step)
qed

theorem gateway_refines_scheduler_witness: "unat (dr_available (sd_drr (gw_s ex_gw))) = 4"
  using gateway_refines_scheduler[OF ex_gw_reachable]
  by (simp add: config_default_def scheduler_default_def ex_gw_def gateway_new_def in_hand_def)

theorem gateway_queue_depth_witness: "fst (snd (queue_handler (gw_sc ex_gw))) = 0"
  using gateway_queue_depth[OF ex_gw_reachable] by (simp add: waiting_requests_def ex_gw_def gateway_new_def)

theorem flow_records_typed_witness:
  "case reg_lookup (sd_reg (gw_s ex_gw)) ''b'' of Some fl \<Rightarrow> fl_id fl = ''b'' \<and> fl_priority fl \<le> 100 | None \<Rightarrow> False"
proof -
  have "\<exists>fl. reg_lookup (sd_reg (gw_s ex_gw)) ''b'' = Some fl"
    by (simp add: ex_gw_def ex_register_def register_handler_def register_flow_eq reg_lookup_def gateway_new_def
        startup_scheduler_def scheduler_new_def registry_new_def Let_def)
  then obtain fl where fl: "reg_lookup (sd_reg (gw_s ex_gw)) ''b'' = Some fl" by blast
  have "classes_below 100 (cfg_priorities config_default)" "fl_default_priority (cfg_flows config_default) \<le> 100"
    by (simp_all add: config_default_def priorities_default_def flows_default_def classes_below_def)
  from flow_records_typed[OF ex_gw_reachable this order.refl fl] fl show ?thesis by simp
qed

end
