(* ===== verification/Forwarding.thy ===== *)
theory Forwarding
  imports ProxyProps
begin

text \<open>
  What the backend gets to see.  The handler (src/gateway/proxy.rs) sends one request and then retries, all
  built from the request it has read; \<open>conforming\<close> says what every one of them keeps of that request.
  The property is a noninterference: two backends that answer the conforming requests alike cannot be told apart,
  so no other request is ever sent.
\<close>

section \<open>Conforming requests\<close>

text \<open>
  A header stays behind if its name is one of eight names of hop-by-hop headers or \<open>host\<close>, or if the first \<open>Connection\<close> header
  names it: between two commas, or a comma and an end, and but for white space around it.  The names are
  those of the code, which has \<open>trailers\<close> where RFC 7230 has \<open>trailer\<close>.
\<close>

definition named_in :: "string \<Rightarrow> string \<Rightarrow> bool" where
  "named_in n v \<longleftrightarrow> (\<exists>a p b. v = a @ p @ b \<and> (a = [] \<or> last a = CHR '','') \<and> (b = [] \<or> hd b = CHR '','') \<and> CHR '','' \<notin> set p \<and> trim p = n)"

definition stays_behind :: "header_map \<Rightarrow> string \<Rightarrow> bool" where
  "stays_behind hs n \<longleftrightarrow> n \<in> {''connection'', ''keep-alive'', ''proxy-authenticate'', ''proxy-authorization'', ''te'', ''trailers'',
       ''transfer-encoding'', ''upgrade'', ''host''} \<or> (\<exists>v. hdr_str hs ''connection'' = Some v \<and> named_in n v)"

lemma filter_headers_spec: "filter_headers hs = filter (\<lambda>(n, v). \<not> stays_behind hs n) hs"
proof -
  have "named_in n v \<longleftrightarrow> n \<in> trim ` set (split_by (CHR '','') v)" for n v
    unfolding named_in_def image_iff Bex_def split_by_pieces by blast
  then have "n \<in> set (connection_names hs) \<longleftrightarrow> (\<exists>v. hdr_str hs ''connection'' = Some v \<and> named_in n v)" for n
    by (cases "hdr_str hs ''connection''") (simp_all add: connection_names_def)
  then show ?thesis by (auto simp: filter_headers_def stays_behind_def hop_by_hop_def exclude_headers_def Let_def intro!: filter_cong)
qed

text \<open>
  Method and URL are those of the request that came in; its headers go on in their order and unchanged but for those that stay
  behind, and for the content length unless the body is the one it came with.
\<close>

definition conforming :: "raw_request \<Rightarrow> outgoing \<Rightarrow> bool" where
  "conforming rw og \<longleftrightarrow> og_method og = rw_method rw \<and> rw_url rw = Inr (og_url og)
     \<and> (og_headers og = filter (\<lambda>(n, v). \<not> stays_behind (rw_headers rw) n \<and> n \<noteq> ''content-length'') (rw_headers rw)
        \<or> og_headers og = filter (\<lambda>(n, v). \<not> stays_behind (rw_headers rw) n) (rw_headers rw)
          \<and> read_body (rw_headers rw) (rw_body rw) = Inr (og_body og))"

lemma without_length:
  "hdr_remove ''content-length'' (filter (\<lambda>(n, v). \<not> stays_behind hs n) hs) = filter (\<lambda>(n, v). \<not> stays_behind hs n \<and> n \<noteq> ''content-length'') hs"
  by (auto simp: hdr_remove_def intro!: filter_cong)

lemma remove_twice: "hdr_remove n (hdr_remove n hs) = hdr_remove n hs"
  by (simp add: hdr_remove_def)

text \<open>The two functions of the code that send a retry build the same request.\<close>

lemma retry_requests_agree: "send_retry_request_with_error rq b = send_retry_request rq b"
  by (simp add: send_retry_request_def send_retry_request_with_error_def)

lemma retry_conforms:
  assumes "rq_method rq = rw_method rw" and "rw_url rw = Inr (rq_url rq)"
    and "hdr_remove ''content-length'' (rq_headers rq) = hdr_remove ''content-length'' (filter_headers (rw_headers rw))"
  shows "conforming rw (send_retry_request rq b)"
  using assms by (simp add: conforming_def send_retry_request_def filter_headers_spec without_length)

lemma first_conforms:
  assumes "read_body (rw_headers rw) (rw_body rw) = Inr body" and "rw_url rw = Inr url"
  shows "conforming rw (first_request (make_request env rw url f body slot))"
  using assms by (simp add: conforming_def first_request_def make_request_def filter_headers_spec without_length Let_def)

lemma started_request:
  assumes "proxy_start env now unix rw sc = (st, sc1)" and "st = Wait rq out \<or> st = Direct rq"
  shows "\<exists>body url f slot. read_body (rw_headers rw) (rw_body rw) = Inr body \<and> rw_url rw = Inr url \<and> rq = make_request env rw url f body slot"
  using assms by (auto simp: proxy_start_def settle_admission_def Let_def split_beta
      split: sum.splits if_splits admit_outcome.splits prod.splits)

lemma started_conform:
  assumes "proxy_start env now unix rw sc = (st, sc1)" and "st = Wait rq out \<or> st = Direct rq"
  shows "conforming rw (first_request rq)" "conforming rw (send_retry_request rq b)"
proof -
  obtain body url f slot where rq: "read_body (rw_headers rw) (rw_body rw) = Inr body" "rw_url rw = Inr url"
    "rq = make_request env rw url f body slot"
    using started_request[OF assms] by blast
  then show "conforming rw (first_request rq)" by (simp add: first_conforms)
  show "conforming rw (send_retry_request rq b)"
    using rq by (intro retry_conforms) (simp_all add: make_request_def remove_twice Let_def)
qed

section \<open>Backends that cannot be told apart\<close>

text \<open>Two backends that answer alike whatever is sent for the request \<open>rq\<close>.\<close>

definition answers_alike :: "(nat \<Rightarrow> outgoing \<Rightarrow> sent) \<Rightarrow> (nat \<Rightarrow> outgoing \<Rightarrow> sent) \<Rightarrow> request \<Rightarrow> bool" where
  "answers_alike ans ans' rq \<longleftrightarrow> (\<forall>n. ans' n (first_request rq) = ans n (first_request rq)
     \<and> (\<forall>b. ans' n (send_retry_request rq b) = ans n (send_retry_request rq b)))"

lemma answers_alikeD:
  "answers_alike ans ans' rq \<Longrightarrow> ans' n (first_request rq) = ans n (first_request rq)"
  "answers_alike ans ans' rq \<Longrightarrow> ans' n (send_retry_request rq b) = ans n (send_retry_request rq b)"
  by (simp_all add: answers_alike_def)

abbreviation with_backend :: "app_env \<Rightarrow> (nat \<Rightarrow> outgoing \<Rightarrow> sent) \<Rightarrow> app_env" where
  "with_backend env ans \<equiv> env\<lparr>ap_answer := ans\<rparr>"

lemma hd_send_alike:
  "ans (length (hd_sends h)) og = ap_answer env (length (hd_sends h)) og \<Longrightarrow> hd_send (with_backend env ans) og h = hd_send env og h"
  by (simp add: hd_send_def)

lemma pause_alike: "(\<And>n. ans n og = ap_answer env n og) \<Longrightarrow> pause_and_send (with_backend env ans) og n h = pause_and_send env og n h"
  by (simp add: pause_and_send_def hd_send_def hd_met_def)

lemma transient_loop_alike:
  "(\<And>n. ans n og = ap_answer env n og) \<Longrightarrow> transient_loop (with_backend env ans) i og n h = transient_loop env i og n h"
proof (induction env i og n h rule: transient_loop.induct)
  case (1 env i og n h)
  obtain a h1 where p: "pause_and_send env og (Suc n) h = (a, h1)" by fastforce
  note IH = 1(1,2)[OF HOL.refl HOL.refl HOL.refl p[symmetric, unfolded Suc_eq_plus1]]
  note unfold = transient_loop.simps[of "with_backend env ans" i og n h] transient_loop.simps[of env i og n h]
    pause_alike[of ans og env, OF 1(3)] Suc_eq_plus1[symmetric] p
  show ?case
  proof (cases a)
    case (Answered an)
    then show ?thesis using IH(1)[OF Answered _ _ _ _ 1(3)] by (simp add: unfold Let_def split: sum.split)
  next
    case (NoAnswer e)
    then show ?thesis using IH(2)[OF NoAnswer _ _ 1(3)] by (simp add: unfold Let_def)
  qed (simp add: unfold Let_def)
qed

lemma transient_retry_alike: "answers_alike (ap_answer env) ans rq \<Longrightarrow> transient_retry (with_backend env ans) rq h = transient_retry env rq h"
  by (simp add: transient_retry_def transient_loop_alike retry_requests_agree answers_alikeD)

lemma premature_loop_alike:
  "answers_alike (ap_answer env) ans rq \<Longrightarrow> premature_loop (with_backend env ans) rq fwd n body h = premature_loop env rq fwd n body h"
proof (induction env rq fwd n body h rule: premature_loop.induct)
  case (1 env rq fwd n body h)
  have send: "hd_send (with_backend env ans) (send_retry_request rq b) h1 = hd_send env (send_retry_request rq b) h1" for b h1
    by (rule hd_send_alike) (rule answers_alikeD(2)[OF 1(2)])
  note unfold = premature_loop.simps[of "with_backend env ans" rq fwd n body h] premature_loop.simps[of env rq fwd n body h]
    premature_body_def Let_def
  show ?case
  proof (cases "premature_body env body \<and> n < rp_max_retries (ap_retry env)")
    case c: True
    show ?thesis
      using 1(1)[OF c HOL.refl HOL.refl _ _ HOL.refl _ _ _ _ 1(2)] c send
      by (auto simp: unfold split: option.split sent.split sum.split prod.split)
  qed (auto simp: unfold)
qed

text \<open>What does not send does not ask the backend; the rest is rewritten definition by definition.\<close>

lemma backend_frame:
  "retry_policy_applies (with_backend env ans) = retry_policy_applies env"
  "premature_body (with_backend env ans) = premature_body env"
  "collect_in_time (with_backend env ans) = collect_in_time env"
  "full_response (with_backend env ans) = full_response env"
  "poll_of (with_backend env ans) = poll_of env"
  by (simp_all add: fun_eq_iff retry_policy_applies_def premature_body_def collect_in_time_def full_response_def poll_of_def
      cong: collected.case_cong read.case_cong)

lemma config_frame:
  "ap_parse (with_backend env ans) = ap_parse env" "ap_print (with_backend env ans) = ap_print env"
  "ap_retry (with_backend env ans) = ap_retry env" "ap_transient (with_backend env ans) = ap_transient env"
  "ap_timeout (with_backend env ans) = ap_timeout env" "ap_gone (with_backend env ans) = ap_gone env"
  "ap_answer (with_backend env ans) = ans"
  by simp_all

lemma premature_retries_alike:
  assumes alike: "answers_alike (ap_answer env) ans rq"
  shows "premature_retries (with_backend env ans) rq body h = premature_retries env rq body h"
  unfolding premature_retries_def backend_frame config_frame premature_loop_alike[OF alike] ..

lemma streaming_alike:
  assumes alike: "answers_alike (ap_answer env) ans rq"
  shows "streaming unix (with_backend env ans) rq a h = streaming unix env rq a h"
  unfolding streaming_def stream_env_of_def polls_of_def backend_frame config_frame answers_alikeD[OF alike] ..

lemma non_streaming_alike:
  assumes alike: "answers_alike (ap_answer env) ans rq"
  shows "non_streaming (with_backend env ans) rq a h = non_streaming env rq a h"
  unfolding non_streaming_def backend_frame premature_retries_alike[OF alike] ..

lemma dispatch_alike:
  assumes alike: "answers_alike (ap_answer env) ans rq"
  shows "dispatch unix (with_backend env ans) rq = dispatch unix env rq"
  unfolding fun_eq_iff dispatch_def streaming_alike[OF alike] non_streaming_alike[OF alike] by simp

lemma after_retry_alike:
  assumes alike: "answers_alike (ap_answer env) ans rq"
  shows "after_retry unix (with_backend env ans) rq h k = after_retry unix env rq h k"
  unfolding after_retry_def transient_retry_alike[OF alike] ..

lemma check_status_alike:
  assumes alike: "answers_alike (ap_answer env) ans rq"
  shows "check_status unix (with_backend env ans) rq = check_status unix env rq"
  unfolding fun_eq_iff check_status_def config_frame dispatch_alike[OF alike] after_retry_alike[OF alike] by simp

lemma first_alike:
  assumes alike: "answers_alike (ap_answer env) ans rq" and "hd_sends h = []"
  shows "hd_send (with_backend env ans) (first_request rq) h = hd_send env (first_request rq) h"
  by (rule hd_send_alike) (rule answers_alikeD(1)[OF alike])

lemma admitted_alike:
  assumes alike: "answers_alike (ap_answer env) ans rq"
  shows "proxy_admitted unix (with_backend env ans) rq s = proxy_admitted unix env rq s"
  unfolding proxy_admitted_def config_frame check_status_alike[OF alike] after_retry_alike[OF alike] by (simp add: first_alike[OF alike])

lemma direct_alike:
  assumes alike: "answers_alike (ap_answer env) ans rq"
  shows "proxy_direct (with_backend env ans) rq = proxy_direct env rq"
  unfolding proxy_direct_def config_frame answers_alikeD[OF alike] ..

lemmas handler_alike = admitted_alike direct_alike

text \<open>
  C26. What is sent to the backend: for a request that was let through, the handler is the same on any two
  backends that answer the conforming requests alike, so every request it sends, retries included, has the method and URL of
  the client's request and its headers in their order, without \<open>host\<close>, the eight names of the code's hop-by-hop list, and what the
  first \<open>Connection\<close> header names in lower case; and none declares a content length for a body other than the client's own.
\<close>

theorem only_conforming_requests:
  assumes "proxy_start env now unix rw sc = (st, sc1)" and "st = Wait rq out \<or> st = Direct rq"
    and "\<And>n og. conforming rw og \<Longrightarrow> ans n og = ap_answer env n og"
  shows "proxy_admitted u (env\<lparr>ap_answer := ans\<rparr>) rq s = proxy_admitted u env rq s
    \<and> proxy_direct (env\<lparr>ap_answer := ans\<rparr>) rq = proxy_direct env rq"
proof -
  have "answers_alike (ap_answer env) ans rq"
    using assms(3) started_conform[OF assms(1,2)] by (simp add: answers_alike_def)
  then show ?thesis by (simp add: handler_alike)
qed

text \<open>A backend that fails on every other request makes no difference.\<close>

theorem only_conforming_requests_witness:
  "\<exists>rq sc1. proxy_start (ex_app TimedOut) 0 0 (ex_raw ''/v1/completions'') (ex_scheduler False) = (Wait rq Entered, sc1)
     \<and> proxy_admitted 0 ((ex_app TimedOut)\<lparr>ap_answer := (\<lambda>_ og. if conforming (ex_raw ''/v1/completions'') og then TimedOut
           else Answered (ex_answer 500 []))\<rparr>) rq (ex_sched None 1)
         = proxy_admitted 0 (ex_app TimedOut) rq (ex_sched None 1)"
proof -
  obtain rq sc1 where r: "proxy_start (ex_app TimedOut) 0 0 (ex_raw ''/v1/completions'') (ex_scheduler False) = (Wait rq Entered, sc1)"
    using ex_start[of TimedOut False] by (metis (full_types) prod.collapse)
  with only_conforming_requests[OF r, of rq Entered "\<lambda>_ og. if conforming (ex_raw ''/v1/completions'') og then TimedOut
      else Answered (ex_answer 500 [])"]
  show ?thesis by (auto simp: ex_app_def)
qed

end
