(* ===== verification/Races.thy ===== *)
theory Races
  imports Facade
begin

text \<open>
  Three operations on the flows are not one critical section: \<open>reap_idle\<close> (src/flow/mod.rs) first collects
  the idle flows and then removes them, \<open>register\<close> looks a flow up and inserts it if it was missing,
  while the map locks only for each single access, and \<open>report_accounting\<close> (src/scheduler/drr.rs) loads a balance and stores
  the new one.  Run without a break the two halves are the whole operation.  The runs of theories DrrStep and Gateway
  leave out those in which a request comes between the halves of the first two and its flow's record is lost; here is what happens in
  them, and what becomes of a balance that changes between the load and the store.
\<close>

lemma entered_depth:
  assumes "admit_enter cfg u f s = (None, s1)" and "depth_of (sd_reg s) f = 0"
  shows "depth_of (sd_reg s1) f = 1" "registered (sd_reg s1) f" "reg_inv (sd_reg s) \<Longrightarrow> reg_inv (sd_reg s1)"
  using enter_effect[OF assms(1)] assms(2) by (simp_all add: reg_ext_def)

lemma unregistered_depth: "reg_lookup r f = None \<Longrightarrow> depth_of r f = 0"
  by (simp add: depth_of_def reg_view_def reg_flow_def flow_new_def)

section \<open>What comes in between\<close>

text \<open>
  The reaper removes a flow that has just come back: if an idle flow's request enters after the
  reaper has collected it, its record is removed although the request waits - its weight, priority
  and credit are gone, and neither \<open>queue_depth()\<close> nor GET /queue counts the request.  Run
  after the request has entered, or before, the whole reaper would not have done so.
\<close>

theorem reap_race_drops_live_flow:
  assumes "reg_inv (sd_reg s)" and "reg_lookup (sd_reg s) f = Some fl" and "reapable (now - ttl) fl"
    and "admit_enter cfg u f s = (None, s1)"
  shows "depth_of (sd_reg s1) f = 1
    \<and> \<not> registered (snd (reap_remove (reap_candidates now ttl (sd_reg s)) (sd_reg s1))) f
    \<and> depth_of (snd (reap_remove (reap_candidates now ttl (sd_reg s)) (sd_reg s1))) f = 0
    \<and> registered (snd (reap_idle now ttl (sd_reg s1))) f \<and> depth_of (snd (reap_idle now ttl (sd_reg s1))) f = 1"
proof -
  have "depth_of (sd_reg s) f = 0"
    using assms(2,3) by (simp add: depth_of_def reg_view_def reg_flow_def reapable_def)
  note e = entered_depth[OF assms(4) this]
  have "reg_lookup (snd (reap_remove (reap_candidates now ttl (sd_reg s)) (sd_reg s1))) f = None"
    using reap_remove_effect(2)[OF e(3)[OF assms(1)]] in_candidates[OF assms(1)] assms(2,3) by auto
  then show ?thesis using e assms(1) reap_effect(1,3)[OF e(3)[OF assms(1)]] unregistered_depth
    by (simp add: registered_def)
qed

text \<open>
  \<open>POST /flows\<close> for a flow that nobody knew replaces the flow of a request that entered after the
  lookup: a waiting request is left whose flow counts none.
\<close>

theorem register_race_forgets_request:
  assumes "register_found now reg (sd_reg s) = None" and "admit_enter cfg u (frg_id reg) s = (None, s1)"
  shows "depth_of (sd_reg s1) (frg_id reg) = 1 \<and> depth_of (register_insert now reg (sd_reg s1)) (frg_id reg) = 0
    \<and> depth_of (snd (register_flow now reg (sd_reg s1))) (frg_id reg) = 1"
proof -
  have "reg_lookup (sd_reg s) (frg_id reg) = None"
    using assms(1) by (simp add: register_found_def reg_lookup_def split: option.splits)
  note e = entered_depth[OF assms(2) unregistered_depth[OF this]]
  obtain fl where fl: "reg_lookup (sd_reg s1) (frg_id reg) = Some fl" using e(2) by (auto simp: registered_def)
  then have "fl_depth fl = 1" using e(1) by (simp add: depth_of_def reg_view_def reg_flow_def)
  then show ?thesis using fl e(1)
    by (simp add: register_insert_def register_flow_eq depth_of_def reg_view_def reg_flow_def reg_lookup_def Let_def)
qed

text \<open>
  Two reports for a flow at the same time, which the ends of two of its requests make: both load the balance before either stores
  it, and what the first one stored is lost, so that request is charged its estimate whatever it delivered; one after the other,
  both count.
\<close>

theorem report_race_loses_update:
  assumes "accounting_load u f s = (balance, s0)"
  shows "credit_of (sd_reg (accounting_store f balance rep (accounting_store f balance rep' s0))) f
      = wrap_i64 (credit_of (sd_reg s) f + restore_cost rep)
    \<and> credit_of (sd_reg (report_accounting v f rep (report_accounting u f rep' s))) f
      = wrap_i64 (credit_of (sd_reg s) f + restore_cost rep' + restore_cost rep)"
proof -
  have "registered (sd_reg s0) f" "balance = credit_of (sd_reg s) f"
    using assms by (auto simp: accounting_load_def Let_def credit_of_view[of _ _ u])
  then have "credit_of (sd_reg (accounting_store f balance rep (accounting_store f balance rep' s0))) f
      = wrap_i64 (credit_of (sd_reg s) f + restore_cost rep)"
    by (simp add: accounting_store_def set_credit_def credit_of_view[of _ _ 0] reg_view_update)
  then show ?thesis by (simp add: credit_of_report)
qed

theorem report_race_loses_update_witness:
  "\<exists>balance s0. accounting_load 0 ''a'' (sy_s run0) = (balance, s0)
     \<and> credit_of (sd_reg (accounting_store ''a'' balance (Cancelled 3) (accounting_store ''a'' balance (Cancelled 4) s0))) ''a''
        = wrap_i64 (credit_of (sd_reg (sy_s run0)) ''a'' + 3)"
  using report_race_loses_update[of 0 "''a''" "sy_s run0" _ _ "Cancelled 3" "Cancelled 4"]
  by (cases "accounting_load 0 ''a'' (sy_s run0)") (simp add: restore_cost_def)

text \<open>A flow seen once, long ago, and a scheduler with no flow at all.\<close>

definition idle_sched :: sched where
  "idle_sched = (sy_s run0)\<lparr>sd_reg := snd (get_or_create 0 ''a'' (registry_new (Fin 1) 50))\<rparr>"

lemma idle_sched_reg: "reg_inv (sd_reg idle_sched)"
  "reg_lookup (sd_reg idle_sched) ''a'' = Some (flow_new ''a'' (Fin 1) 50 0)"
  "reapable (10 - 5) (flow_new ''a'' (Fin 1) 50 0)"
  by (simp_all add: idle_sched_def reg_inv_ops reg_inv_new reg_flow_def reapable_def flow_new_def)

lemma ex_enters: "fst (admit_enter ex_cfg u f s) = None"
  by (simp add: admit_enter_def ex_cfg_def Let_def)

theorem reap_race_drops_live_flow_witness:
  "\<exists>s1. admit_enter ex_cfg 10 ''a'' idle_sched = (None, s1) \<and> depth_of (sd_reg s1) ''a'' = 1
     \<and> \<not> registered (snd (reap_remove (reap_candidates 10 5 (sd_reg idle_sched)) (sd_reg s1))) ''a''"
proof -
  obtain s1 where e: "admit_enter ex_cfg 10 ''a'' idle_sched = (None, s1)" using ex_enters by (metis prod.collapse)
  with reap_race_drops_live_flow[OF idle_sched_reg e] show ?thesis by blast
qed

theorem register_race_forgets_request_witness:
  "\<exists>s1. admit_enter ex_cfg 0 ''a'' (sy_s run0) = (None, s1) \<and> depth_of (sd_reg s1) ''a'' = 1
     \<and> depth_of (register_insert 0 \<lparr> frg_id = ''a'', frg_weight = Fin 2, frg_priority = 50 \<rparr> (sd_reg s1)) ''a'' = 0"
proof -
  let ?reg = "\<lparr> frg_id = ''a'', frg_weight = Fin 2, frg_priority = 50 \<rparr>"
  obtain s1 where e: "admit_enter ex_cfg 0 (frg_id ?reg) (sy_s run0) = (None, s1)" using ex_enters by (metis prod.collapse)
  have "register_found 0 ?reg (sd_reg (sy_s run0)) = None"
    by (simp add: register_found_def run0_def sys_new_def registry_new_def)
  from register_race_forgets_request[OF this e] e show ?thesis by auto
qed

end
