(* ===== verification/LoaderProps.thy ===== *)
theory LoaderProps
  imports Loader "HOL-Library.Sublist"
begin

text \<open>
  Lemmas about loading (theory Loader): a configuration that is written and read again is the same, the
  defaults of the loader and those of the sections agree, and what is refused.
\<close>

section \<open>What the libraries promise\<close>

text \<open>A value of the right type is read as itself, an unsigned integer within its width.\<close>

definition reads_plain :: "'a reader \<Rightarrow> bool" where
  "reads_plain rd \<longleftrightarrow> (\<forall>b. rd_bool rd (CBool b) = Some b) \<and> (\<forall>n < 2 ^ 32. rd_u32 rd (CInt (int n)) = Some n)
     \<and> (\<forall>n < 2 ^ 64. rd_u64 rd (CInt (int n)) = Some n) \<and> (\<forall>x. rd_f64 rd (CFloat x) = Some x)
     \<and> (\<forall>s. rd_str rd (CStr s) = Some s) \<and> (\<forall>vs. rd_list rd (CList vs) = Some vs)"

lemma plainD:
  assumes "reads_plain rd"
  shows "rd_bool rd (CBool b) = Some b" and "n < 2 ^ 32 \<Longrightarrow> rd_u32 rd (CInt (int n)) = Some n"
    and "n < 2 ^ 64 \<Longrightarrow> rd_u64 rd (CInt (int n)) = Some n" and "rd_f64 rd (CFloat x) = Some x"
    and "rd_str rd (CStr s) = Some s" and "rd_list rd (CList vs) = Some vs"
  using assms by (simp_all add: reads_plain_def)

text \<open>The integers of a configuration fit their fields.\<close>

definition config_fits :: "config \<Rightarrow> bool" where
  "config_fits c \<longleftrightarrow> cfg_tps_window_secs c < 2 ^ 64 \<and>
     (\<forall>n \<in> set ([tr_max_attempts (be_transient_retry (cfg_backend c)), sc_max_active_flows (cfg_scheduler c),
        cb_target_active_flows (sc_completion_bias (cfg_scheduler c)), fl_default_priority (cfg_flows c),
        pr_interactive (cfg_priorities c), pr_agent (cfg_priorities c), pr_background (cfg_priorities c),
        bp_max_queue_depth (cfg_backpressure c), rp_max_retries (cfg_retry_policy c),
        pp_agentic_suspected_threshold (cfg_priority_policy c), pp_agentic_confirmed_threshold (cfg_priority_policy c)]
        @ map th_max_flows (kp_thresholds (sc_kv_pressure (cfg_scheduler c)))). n < 2 ^ 32)"

section \<open>A configuration is read as it was written\<close>

lemmas reading = field_def required_def write_nat_def plainD

lemma mode_roundtrip: "mode_of_name (mode_name m) = Some m"
  by (cases m) (simp_all add: mode_of_name_def mode_name_def)

lemma mode_of_name_iff: "mode_of_name s = Some m \<longleftrightarrow> s = mode_name m"
  by (cases m) (auto simp: mode_of_name_def mode_name_def split: if_splits)

lemma kv_policy_roundtrip: "reads_plain rd \<Longrightarrow> read_kv_policy rd (write_kv_policy c) = Some c"
  by (simp add: read_kv_policy_def write_kv_policy_def reading)

lemma retry_policy_roundtrip:
  "reads_plain rd \<Longrightarrow> rp_max_retries c < 2 ^ 32 \<Longrightarrow> read_retry_policy rd (write_retry_policy c) = Some c"
  by (simp add: read_retry_policy_def write_retry_policy_def reading)

lemma priorities_roundtrip:
  "reads_plain rd \<Longrightarrow> pr_interactive c < 2 ^ 32 \<Longrightarrow> pr_agent c < 2 ^ 32 \<Longrightarrow> pr_background c < 2 ^ 32
    \<Longrightarrow> read_priorities rd (write_priorities c) = Some c"
  by (simp add: read_priorities_def write_priorities_def reading)

lemma thresholds_roundtrip:
  assumes "reads_plain rd" and "\<forall>n \<in> set (map th_max_flows ths). n < 2 ^ 32"
  shows "read_all (read_kv_threshold rd) (map write_kv_threshold ths) = Some ths"
  using assms(2)
  by (induction ths) (simp_all add: read_kv_threshold_def write_kv_threshold_def reading assms(1))

lemma kv_pressure_roundtrip:
  "reads_plain rd \<Longrightarrow> \<forall>n \<in> set (map th_max_flows (kp_thresholds c)). n < 2 ^ 32
    \<Longrightarrow> read_kv_pressure rd (write_kv_pressure c) = Some c"
  using thresholds_roundtrip[of rd "kp_thresholds c"] by (simp add: read_kv_pressure_def write_kv_pressure_def reading)

lemma biases_roundtrip:
  assumes "reads_plain rd"
  shows "cb_target_active_flows c < 2 ^ 32 \<Longrightarrow> read_completion_bias rd (write_completion_bias c) = Some c"
    and "read_kv_bias rd (write_kv_bias b) = Some b"
  by (simp_all add: read_completion_bias_def write_completion_bias_def read_kv_bias_def write_kv_bias_def reading assms)

lemma duration_roundtrip:
  "reads_plain rd \<Longrightarrow> rd_duration rd (wr_duration w d) = Some d \<Longrightarrow> humantime rd (write_duration w d) = Some d"
  by (simp add: humantime_def write_duration_def plainD)

lemma sections_roundtrip:
  assumes p: "reads_plain rd" and d: "\<And>d. rd_duration rd (wr_duration w d) = Some d" and fits: "config_fits c"
    and u: "rd_url rd (wr_url w (be_url (cfg_backend c))) = Some (be_url (cfg_backend c))"
  shows "read_backend rd (write_backend w (cfg_backend c)) = Some (cfg_backend c)"
    and "read_scheduler rd (write_scheduler w (cfg_scheduler c)) = Some (cfg_scheduler c)"
    and "read_flows rd (write_flows w (cfg_flows c)) = Some (cfg_flows c)"
    and "read_backpressure rd (write_backpressure w (cfg_backpressure c)) = Some (cfg_backpressure c)"
    and "read_priority_policy rd (write_priority_policy w (cfg_priority_policy c)) = Some (cfg_priority_policy c)"
proof -
  note dur = duration_roundtrip[OF p d]
  show "read_backend rd (write_backend w (cfg_backend c)) = Some (cfg_backend c)"
    using fits by (simp add: read_backend_def write_backend_def read_transient_retry_def reading p dur u config_fits_def)
  show "read_scheduler rd (write_scheduler w (cfg_scheduler c)) = Some (cfg_scheduler c)"
    using fits by (simp add: read_scheduler_def write_scheduler_def reading p dur biases_roundtrip kv_pressure_roundtrip config_fits_def)
  show "read_flows rd (write_flows w (cfg_flows c)) = Some (cfg_flows c)"
    using fits by (simp add: read_flows_def write_flows_def reading p dur config_fits_def)
  show "read_backpressure rd (write_backpressure w (cfg_backpressure c)) = Some (cfg_backpressure c)"
    using fits by (simp add: read_backpressure_def write_backpressure_def reading p dur mode_roundtrip kv_policy_roundtrip config_fits_def)
  show "read_priority_policy rd (write_priority_policy w (cfg_priority_policy c)) = Some (cfg_priority_policy c)"
    using fits by (simp add: read_priority_policy_def write_priority_policy_def reading p dur config_fits_def)
qed

lemma not_null [simp]: "write_duration w d \<noteq> CNull" "write_kv_policy k \<noteq> CNull"
  by (simp_all add: write_duration_def write_kv_policy_def)

lemma option_roundtrip:
  "(\<And>y. x = Some y \<Longrightarrow> wr y \<noteq> CNull \<and> rd (wr y) = Some y) \<Longrightarrow> optional rd (write_option wr x) = Some x"
  by (cases x) (simp_all add: optional_def write_option_def)

text \<open>
  C39. Round trip: a configuration whose integers fit their fields, written by the derived
  serialisation and read again, is the same configuration, if the libraries read what they
  write.  So every one of the settings is read from its own key, in its own section, with its own conversion.
\<close>

theorem config_roundtrip:
  assumes "reads_plain rd" and "\<And>d. rd_duration rd (wr_duration w d) = Some d" and "config_fits c"
    and "rd_url rd (wr_url w (be_url (cfg_backend c))) = Some (be_url (cfg_backend c))" and "rd_addr rd (wr_addr w a) = Some a"
  shows "read_config rd any (write_config w (c, a)) = Some (c, a)"
proof -
  note sec = sections_roundtrip[OF assms(1-4)]
  have rest: "cfg_tps_window_secs c < 2 ^ 64" "rp_max_retries (cfg_retry_policy c) < 2 ^ 32"
    "pr_interactive (cfg_priorities c) < 2 ^ 32" "pr_agent (cfg_priorities c) < 2 ^ 32" "pr_background (cfg_priorities c) < 2 ^ 32"
    using assms(3) by (simp_all add: config_fits_def)
  have kv: "optional (read_kv_policy rd) (write_option write_kv_policy x) = Some x" for x
    by (rule option_roundtrip) (simp add: kv_policy_roundtrip assms(1))
  have rt: "optional (humantime rd) (write_option (write_duration w) x) = Some x" for x
    by (rule option_roundtrip) (simp add: duration_roundtrip assms(1,2))
  show ?thesis
    using rest assms(1,5) by (simp add: read_config_def write_config_def field_def required_def sec read_metrics_def read_server_def
        write_nat_def plainD kv rt retry_policy_roundtrip priorities_roundtrip)
qed

section \<open>The defaults\<close>

text \<open>The tree of the \<open>set_default\<close> calls alone: their values, and nothing else.\<close>

definition tree_of :: "(string list \<times> cval) list \<Rightarrow> cval \<Rightarrow> bool" where
  "tree_of ds tree \<longleftrightarrow> (\<forall>(p, v) \<in> set ds. get_path p tree = Some v)
     \<and> (\<forall>p. (\<forall>(q, v) \<in> set ds. \<not> prefix p q) \<longrightarrow> get_path p tree = None)"

definition under :: "string \<Rightarrow> (string list \<times> cval) list \<Rightarrow> (string list \<times> cval) list" where
  "under k ds = map (\<lambda>(p, v). (tl p, v)) (filter (\<lambda>(p, v). p \<noteq> [] \<and> hd p = k) ds)"

text \<open>What the defaults say about one key: a value, nothing, or a section.\<close>

fun leaf_of :: "(string list \<times> cval) list \<Rightarrow> cval option" where
  "leaf_of [] = None"
| "leaf_of ((p, v) # _) = Some v"

fun no_section :: "(string list \<times> cval) list \<Rightarrow> bool" where
  "no_section [] = True"
| "no_section ((p, v) # _) = (p = [])"

lemma in_under: "(p, v) \<in> set (under k ds) \<longleftrightarrow> (k # p, v) \<in> set ds"
proof
  assume "(p, v) \<in> set (under k ds)"
  then show "(k # p, v) \<in> set ds" by (auto simp: under_def)
next
  assume "(k # p, v) \<in> set ds"
  then show "(p, v) \<in> set (under k ds)" by (force simp: under_def)
qed

lemma tree_lookup:
  assumes "tree_of ds (CTable t)" and "no_section (under k ds)"
  shows "map_of t k = leaf_of (under k ds)"
proof (cases "under k ds")
  case Nil
  have "\<forall>(q, v) \<in> set ds. \<not> prefix [k] q"
  proof clarify
    fix q v assume "(q, v) \<in> set ds" and "prefix [k] q"
    then have "(tl q, v) \<in> set (under k ds)" by (auto simp: in_under prefix_def)
    then show False using Nil by simp
  qed
  then have "get_path [k] (CTable t) = None" using assms(1) unfolding tree_of_def by blast
  then show ?thesis using Nil by (cases "map_of t k") simp_all
next
  case (Cons x xs)
  obtain v where x: "x = ([], v)" using Cons assms(2) by (cases x) simp
  then have "([k], v) \<in> set ds" using Cons in_under[of "[]" v k ds] by simp
  then have "get_path [k] (CTable t) = Some v" using assms(1) by (auto simp: tree_of_def)
  then show ?thesis using Cons x by (cases "map_of t k") simp_all
qed

lemma tree_under:
  assumes "tree_of ds (CTable t)" and "(k # k' # ks, v) \<in> set ds"
  shows "\<exists>b. map_of t k = Some (CTable b) \<and> tree_of (under k ds) (CTable b)"
proof -
  have g: "get_path p (CTable t) = Some v" if "(p, v) \<in> set ds" for p v using assms(1) that by (auto simp: tree_of_def)
  have "map_of t k \<bind> get_path (k' # ks) = Some v" using g[OF assms(2)] by simp
  then obtain x where x: "map_of t k = Some x" "get_path (k' # ks) x = Some v" by (auto simp: bind_eq_Some_conv)
  then obtain b where b: "map_of t k = Some (CTable b)" by (cases x) simp_all
  have "get_path p (CTable b) = Some v" if "(p, v) \<in> set (under k ds)" for p v
  proof -
    from that have "(k # p, v) \<in> set ds" by (simp add: in_under)
    from g[OF this] show ?thesis using b by simp
  qed
  moreover have "get_path p (CTable b) = None" if "\<forall>(q, v) \<in> set (under k ds). \<not> prefix p q" for p
  proof -
    have "\<forall>(q, v) \<in> set ds. \<not> prefix (k # p) q"
    proof clarify
      fix q v assume "(q, v) \<in> set ds" and "prefix (k # p) q"
      then have "(tl q, v) \<in> set (under k ds)" "prefix p (tl q)" by (auto simp: in_under prefix_def)
      then show False using that by blast
    qed
    then have "get_path (k # p) (CTable t) = None" using assms(1) unfolding tree_of_def by blast
    then show ?thesis using b by simp
  qed
  ultimately show ?thesis using b by (auto simp: tree_of_def)
qed

lemma tree_section:
  assumes "tree_of ds (CTable t)" and "under k ds = ([k'], v) # xs"
  obtains b where "map_of t k = Some (CTable b)" and "tree_of (([k'], v) # xs) (CTable b)"
proof -
  have "(k # k' # [], v) \<in> set ds" using assms(2) in_under[of "[k']" v k ds] by simp
  from tree_under[OF assms(1) this] show ?thesis using that assms(2) by auto
qed

text \<open>The durations among the defaults, as \<open>humantime\<close> reads them.\<close>

definition reads_defaults :: "'a reader \<Rightarrow> 'a \<Rightarrow> bool" where
  "reads_defaults rd any \<longleftrightarrow> rd_duration rd ''300s'' = Some (secs 300) \<and> rd_duration rd ''10s'' = Some (secs 10)
     \<and> rd_duration rd ''1s'' = Some (secs 1) \<and> rd_duration rd ''500ms'' = Some (millis 500)
     \<and> rd_duration rd ''4s'' = Some (secs 4) \<and> rd_duration rd ''30s'' = Some (secs 30)
     \<and> rd_url rd ''http://localhost:8000'' = Some (be_url backend_default) \<and> rd_addr rd ''0.0.0.0:8080'' = Some any"

lemma plain_numeral: "reads_plain rd \<Longrightarrow> numeral n < (2::nat) ^ 32 \<Longrightarrow> rd_u32 rd (CInt (numeral n)) = Some (numeral n)"
  using plainD(2)[of rd "numeral n"] by simp

text \<open>The defaults of the sections.\<close>

lemma defaults_under:
  shows "under ''backend'' loader_defaults =
     [([''url''], CStr ''http://localhost:8000''), ([''metrics_interval''], CStr ''1s''),
      ([''kv_unified''], CBool False), ([''transient_retry'', ''max_attempts''], CInt 3),
      ([''transient_retry'', ''backoff_start''], CStr ''500ms''), ([''transient_retry'', ''backoff_max''], CStr ''4s'')]"
    and "under ''scheduler'' loader_defaults =
     [([''max_active_flows''], CInt 4), ([''starvation_timeout''], CStr ''300s''),
      ([''kv_pressure'', ''enabled''], CBool False)]"
    and "under ''flows'' loader_defaults =
     [([''default_weight''], CFloat (lit 1)), ([''default_priority''], CInt 50)]"
    and "under ''priorities'' loader_defaults =
     [([''interactive''], CInt 100), ([''agent''], CInt 50), ([''background''], CInt 10)]"
    and "under ''backpressure'' loader_defaults =
     [([''mode''], CStr ''blocking''), ([''max_queue_depth''], CInt 100),
      ([''max_wait''], CStr ''10s''), ([''retry_after_base''], CStr ''1s''),
      ([''kv_policy'', ''enabled''], CBool False), ([''kv_policy'', ''reject_threshold''], CFloat (lit (95/100))),
      ([''kv_policy'', ''delay_threshold''], CFloat (lit (80/100))),
      ([''kv_policy'', ''bypass_interactive''], CBool True)]"
    and "under ''metrics'' loader_defaults =
     [([''endpoint''], CStr ''/metrics'')]"
    and "under ''server'' loader_defaults =
     [([''bind''], CStr ''0.0.0.0:8080'')]"
    and "under ''retry_policy'' loader_defaults =
     [([''enabled''], CBool False), ([''max_retries''], CInt 2), ([''temperature_step''], CFloat (lit (3/10))),
      ([''max_temperature''], CFloat (lit (15/10))), ([''default_temperature''], CFloat (lit 0))]"
    and "under ''priority_policy'' loader_defaults =
     [([''enabled''], CBool True), ([''idle_gap_threshold''], CStr ''30s''),
      ([''agentic_suspected_threshold''], CInt 5), ([''agentic_confirmed_threshold''], CInt 12)]"
  by (simp_all add: under_def loader_defaults_def)

text \<open>A section of its defaults alone is the default section.\<close>

lemma default_sections:
  assumes t: "tree_of loader_defaults (CTable t)" and p: "reads_plain rd" and d: "reads_defaults rd any"
  shows "\<exists>v. map_of t ''flows'' = Some v \<and> read_flows rd v = Some flows_default"
    and "\<exists>v. map_of t ''priorities'' = Some v \<and> read_priorities rd v = Some priorities_default"
    and "\<exists>v. map_of t ''metrics'' = Some v \<and> read_metrics rd v = Some ''/metrics''"
    and "\<exists>v. map_of t ''server'' = Some v \<and> read_server rd other v = Some (server_default any)"
    and "\<exists>v. map_of t ''retry_policy'' = Some v \<and> read_retry_policy rd v = Some retry_policy_default"
    and "\<exists>v. map_of t ''priority_policy'' = Some v \<and> read_priority_policy rd v = Some priority_policy_default"
proof -
  note rd = humantime_def plainD[OF p] plain_numeral[OF p] field_def d[unfolded reads_defaults_def]
  from tree_section[OF t defaults_under(3)]
  obtain b where "map_of t ''flows'' = Some (CTable b)" and b: "tree_of (under ''flows'' loader_defaults) (CTable b)"
    unfolding defaults_under by blast
  then show "\<exists>v. map_of t ''flows'' = Some v \<and> read_flows rd v = Some flows_default"
    by (simp add: read_flows_def flows_default_def rd tree_lookup[OF b[unfolded defaults_under]] under_def)
  from tree_section[OF t defaults_under(4)]
  obtain b where "map_of t ''priorities'' = Some (CTable b)" and b: "tree_of (under ''priorities'' loader_defaults) (CTable b)"
    unfolding defaults_under by blast
  then show "\<exists>v. map_of t ''priorities'' = Some v \<and> read_priorities rd v = Some priorities_default"
    by (simp add: read_priorities_def priorities_default_def rd tree_lookup[OF b[unfolded defaults_under]] under_def)
  from tree_section[OF t defaults_under(6)]
  obtain b where "map_of t ''metrics'' = Some (CTable b)" and b: "tree_of (under ''metrics'' loader_defaults) (CTable b)"
    unfolding defaults_under by blast
  then show "\<exists>v. map_of t ''metrics'' = Some v \<and> read_metrics rd v = Some ''/metrics''"
    by (simp add: read_metrics_def rd tree_lookup[OF b[unfolded defaults_under]] under_def)
  from tree_section[OF t defaults_under(7)]
  obtain b where "map_of t ''server'' = Some (CTable b)" and b: "tree_of (under ''server'' loader_defaults) (CTable b)"
    unfolding defaults_under by blast
  then show "\<exists>v. map_of t ''server'' = Some v \<and> read_server rd other v = Some (server_default any)"
    by (simp add: read_server_def server_default_def rd tree_lookup[OF b[unfolded defaults_under]] under_def)
  from tree_section[OF t defaults_under(8)]
  obtain b where "map_of t ''retry_policy'' = Some (CTable b)" and b: "tree_of (under ''retry_policy'' loader_defaults) (CTable b)"
    unfolding defaults_under by blast
  then show "\<exists>v. map_of t ''retry_policy'' = Some v \<and> read_retry_policy rd v = Some retry_policy_default"
    by (simp add: read_retry_policy_def retry_policy_default_def rd tree_lookup[OF b[unfolded defaults_under]] under_def)
  from tree_section[OF t defaults_under(9)]
  obtain b where "map_of t ''priority_policy'' = Some (CTable b)" and b: "tree_of (under ''priority_policy'' loader_defaults) (CTable b)"
    unfolding defaults_under by blast
  then show "\<exists>v. map_of t ''priority_policy'' = Some v \<and> read_priority_policy rd v = Some priority_policy_default"
    by (simp add: read_priority_policy_def priority_policy_default_def rd tree_lookup[OF b[unfolded defaults_under]] under_def)
qed

lemma default_nested_sections:
  assumes t: "tree_of loader_defaults (CTable t)" and p: "reads_plain rd" and d: "reads_defaults rd any"
  shows "\<exists>v. map_of t ''backend'' = Some v \<and> read_backend rd v = Some backend_default"
    and "\<exists>v. map_of t ''scheduler'' = Some v \<and> read_scheduler rd v = Some scheduler_default"
    and "\<exists>v. map_of t ''backpressure'' = Some v \<and> read_backpressure rd v = Some backpressure_default"
proof -
  note rd = humantime_def plainD[OF p] plain_numeral[OF p] field_def d[unfolded reads_defaults_def]
  from tree_section[OF t defaults_under(1)]
  obtain b where b: "map_of t ''backend'' = Some (CTable b)" "tree_of (under ''backend'' loader_defaults) (CTable b)"
    unfolding defaults_under by blast
  have "\<exists>k' v xs. under ''transient_retry'' (under ''backend'' loader_defaults) = ([k'], v) # xs"
    unfolding defaults_under by (simp add: under_def)
  then obtain c where c: "map_of b ''transient_retry'' = Some (CTable c)"
      "tree_of (under ''transient_retry'' (under ''backend'' loader_defaults)) (CTable c)"
    using tree_section[OF b(2)] by metis
  show "\<exists>v. map_of t ''backend'' = Some v \<and> read_backend rd v = Some backend_default"
    using b(1) c(1) by (simp add: read_backend_def backend_default_def required_def read_transient_retry_def transient_retry_default_def rd under_def
        tree_lookup[OF b(2)[unfolded defaults_under]] tree_lookup[OF c(2)[unfolded defaults_under]])
  from tree_section[OF t defaults_under(2)]
  obtain b where b: "map_of t ''scheduler'' = Some (CTable b)" "tree_of (under ''scheduler'' loader_defaults) (CTable b)"
    unfolding defaults_under by blast
  have "\<exists>k' v xs. under ''kv_pressure'' (under ''scheduler'' loader_defaults) = ([k'], v) # xs"
    unfolding defaults_under by (simp add: under_def)
  then obtain c where c: "map_of b ''kv_pressure'' = Some (CTable c)"
      "tree_of (under ''kv_pressure'' (under ''scheduler'' loader_defaults)) (CTable c)"
    using tree_section[OF b(2)] by metis
  show "\<exists>v. map_of t ''scheduler'' = Some v \<and> read_scheduler rd v = Some scheduler_default"
    using b(1) c(1) by (simp add: read_scheduler_def scheduler_default_def read_kv_pressure_def kv_pressure_default_def rd under_def
        tree_lookup[OF b(2)[unfolded defaults_under]] tree_lookup[OF c(2)[unfolded defaults_under]])
  from tree_section[OF t defaults_under(5)]
  obtain b where b: "map_of t ''backpressure'' = Some (CTable b)" "tree_of (under ''backpressure'' loader_defaults) (CTable b)"
    unfolding defaults_under by blast
  have "\<exists>k' v xs. under ''kv_policy'' (under ''backpressure'' loader_defaults) = ([k'], v) # xs"
    unfolding defaults_under by (simp add: under_def)
  then obtain c where c: "map_of b ''kv_policy'' = Some (CTable c)"
      "tree_of (under ''kv_policy'' (under ''backpressure'' loader_defaults)) (CTable c)"
    using tree_section[OF b(2)] by metis
  show "\<exists>v. map_of t ''backpressure'' = Some v \<and> read_backpressure rd v = Some backpressure_default"
    using b(1) c(1) by (simp add: read_backpressure_def backpressure_default_def mode_of_name_def mode_name_def read_kv_policy_def kv_policy_default_def rd under_def
        tree_lookup[OF b(2)[unfolded defaults_under]] tree_lookup[OF c(2)[unfolded defaults_under]])
qed

text \<open>
  The two layers of defaults agree: with neither a configuration file nor environment variables,
  loading succeeds, and the 33 defaults of the loader together with the serde defaults of the
  keys it does not set give exactly the \<open>Default\<close> of every section, and the address \<open>0.0.0.0:8080\<close>.
\<close>

theorem load_defaults_agree:
  assumes "reads_plain rd" and "reads_defaults rd any"
    and "build loader_defaults ''config.yaml'' = Some tree" and "tree_of loader_defaults tree"
  shows "load rd any build None = Inr (config_default, any)"
proof -
  have "get_path [''flows'', ''default_weight''] tree = Some (CFloat (lit 1))"
    using assms(4) by (simp add: tree_of_def loader_defaults_def del: get_path.simps)
  then obtain t where t: "tree = CTable t" by (cases tree) simp_all
  note secs = default_sections[OF assms(4)[unfolded t] assms(1,2)] default_nested_sections[OF assms(4)[unfolded t] assms(1,2)]
  have missing: "map_of t ''request_timeout'' = None" "map_of t ''kv_policy'' = None"
    using tree_lookup[OF assms(4)[unfolded t], of "''request_timeout''"] tree_lookup[OF assms(4)[unfolded t], of "''kv_policy''"]
    by (simp_all add: under_def loader_defaults_def)
  obtain va vb vc vd ve vf vg vh vi where
    "map_of t ''flows'' = Some va" "read_flows rd va = Some flows_default"
    "map_of t ''priorities'' = Some vb" "read_priorities rd vb = Some priorities_default"
    "map_of t ''metrics'' = Some vc" "read_metrics rd vc = Some ''/metrics''"
    "map_of t ''server'' = Some vd" "read_server rd any vd = Some (server_default any)"
    "map_of t ''retry_policy'' = Some ve" "read_retry_policy rd ve = Some retry_policy_default"
    "map_of t ''priority_policy'' = Some vf" "read_priority_policy rd vf = Some priority_policy_default"
    "map_of t ''backend'' = Some vg" "read_backend rd vg = Some backend_default"
    "map_of t ''scheduler'' = Some vh" "read_scheduler rd vh = Some scheduler_default"
    "map_of t ''backpressure'' = Some vi" "read_backpressure rd vi = Some backpressure_default"
    using secs by blast
  then have "read_config rd any tree = Some (config_default, any)"
    using missing by (simp add: t read_config_def field_def required_def server_default_def config_default_def)
  then show ?thesis using assms(3) validate_default by (simp add: load_def)
qed

text \<open>Loading returns only what \<open>validate\<close> accepts.\<close>

lemma load_valid: "load rd any build path = Inr (cfg, a) \<Longrightarrow> validate cfg = Inr ()"
  by (simp add: load_Inr_iff) blast

text \<open>
  C31. The backpressure mode has to be spelled \<open>blocking\<close>, \<open>failfast\<close> or \<open>hybrid\<close>: with any other
  name in \<open>backpressure.mode\<close>, whatever the rest of the file says, the configuration is refused and
  the gateway does not start.  The name \<open>fail_fast\<close> of the documentation is among those refused.
\<close>

theorem mode_name_refused:
  assumes "build loader_defaults file = Some tree" and "get_path [''backpressure'', ''mode''] tree = Some v"
    and "rd_str rd v = Some name" and "name \<notin> {''blocking'', ''failfast'', ''hybrid''}"
  shows "load rd any build (Some file) = Inl Unreadable"
proof -
  have "mode_of_name name = None"
    using assms(4) by (auto simp: mode_of_name_def mode_name_def)
  moreover obtain t x b where t: "tree = CTable t" "map_of t ''backpressure'' = Some x" and b: "x = CTable b" "map_of b ''mode'' = Some v"
  proof -
    obtain t where t: "tree = CTable t" using assms(2) by (cases tree) simp_all
    then have "map_of t ''backpressure'' \<bind> get_path [''mode''] = Some v" using assms(2) by simp
    then obtain x where x: "map_of t ''backpressure'' = Some x" "get_path [''mode''] x = Some v" by (auto simp: bind_eq_Some_conv)
    then obtain b where b: "x = CTable b" by (cases x) simp_all
    then have "map_of b ''mode'' = Some v" using x(2) by (auto simp: bind_eq_Some_conv)
    then show thesis using that t x b by blast
  qed
  ultimately have "read_backpressure rd x = None" using assms(3) by (simp add: read_backpressure_def field_def)
  then have "read_config rd any tree = None" using t by (simp add: read_config_def field_def)
  then show ?thesis using assms(1) by (simp add: load_def)
qed

text \<open>A reader of plain values and one tree of the defaults.\<close>

definition ex_reader :: "(string \<Rightarrow> duration option) \<Rightarrow> string reader" where
  "ex_reader durations = \<lparr> rd_bool = (\<lambda>v. case v of CBool b \<Rightarrow> Some b | _ \<Rightarrow> None),
     rd_u32 = (\<lambda>v. case v of CInt n \<Rightarrow> if 0 \<le> n \<and> n < 2 ^ 32 then Some (nat n) else None | _ \<Rightarrow> None),
     rd_u64 = (\<lambda>v. case v of CInt n \<Rightarrow> if 0 \<le> n \<and> n < 2 ^ 64 then Some (nat n) else None | _ \<Rightarrow> None),
     rd_f64 = (\<lambda>v. case v of CFloat x \<Rightarrow> Some x | _ \<Rightarrow> None),
     rd_str = (\<lambda>v. case v of CStr s \<Rightarrow> Some s | _ \<Rightarrow> None),
     rd_list = (\<lambda>v. case v of CList vs \<Rightarrow> Some vs | _ \<Rightarrow> None),
     rd_duration = durations,
     rd_url = (\<lambda>s. if s = ''http://localhost:8000'' then Some (be_url backend_default) else None),
     rd_addr = Some \<rparr>"

lemma ex_reader_plain: "reads_plain (ex_reader ds)"
  by (auto simp: reads_plain_def ex_reader_def)

definition ex_durations :: "string \<Rightarrow> duration option" where
  "ex_durations = map_of [(''300s'', secs 300), (''10s'', secs 10), (''1s'', secs 1), (''500ms'', millis 500),
     (''4s'', secs 4), (''30s'', secs 30)]"

text \<open>The tree of a list of paths, up to a depth, and when the list describes one.\<close>

primrec nest :: "nat \<Rightarrow> (string list \<times> cval) list \<Rightarrow> cval" where
  "nest 0 ds = CNull"
| "nest (Suc n) ds = (case ds of ([], v) # _ \<Rightarrow> v
     | _ \<Rightarrow> CTable (map (\<lambda>k. (k, nest n (under k ds))) (remdups (map (hd \<circ> fst) ds))))"

primrec nested :: "nat \<Rightarrow> (string list \<times> cval) list \<Rightarrow> bool" where
  "nested 0 ds = False"
| "nested (Suc n) ds = (case ds of [] \<Rightarrow> False | ([], v) # r \<Rightarrow> r = [] \<and> table v = None
     | _ \<Rightarrow> list_all (\<lambda>d. fst d \<noteq> []) ds \<and> list_all (\<lambda>k. nested n (under k ds)) (remdups (map (hd \<circ> fst) ds)))"

lemma tree_ofI:
  assumes "ds \<noteq> []" and ne: "\<forall>(p, v) \<in> set ds. p \<noteq> []"
    and sub: "\<And>k. if under k ds = [] then map_of t k = None else \<exists>b. map_of t k = Some b \<and> tree_of (under k ds) b"
  shows "tree_of ds (CTable t)"
proof -
  have "get_path p (CTable t) = Some v" if "(p, v) \<in> set ds" for p v
  proof -
    from that ne obtain k q where p: "p = k # q" by (cases p) auto
    then have q: "(q, v) \<in> set (under k ds)" using that by (simp add: in_under)
    then obtain b where "map_of t k = Some b" "tree_of (under k ds) b" using sub[of k] by (auto split: if_splits)
    then show ?thesis using p q by (auto simp: tree_of_def)
  qed
  moreover have "get_path p (CTable t) = None" if none: "\<forall>(q, v) \<in> set ds. \<not> prefix p q" for p
  proof (cases p)
    case Nil
    then show ?thesis using none assms(1) by (cases ds) auto
  next
    case (Cons k q)
    have "\<forall>(q', v) \<in> set (under k ds). \<not> prefix q q'" using none Cons by (force simp: in_under)
    then show ?thesis using sub[of k] Cons by (auto simp: tree_of_def split: if_splits)
  qed
  ultimately show ?thesis by (auto simp: tree_of_def)
qed

lemma nest_tree: "nested n ds \<Longrightarrow> tree_of ds (nest n ds)"
proof (induction n arbitrary: ds)
  case (Suc n)
  then obtain p v r where ds: "ds = (p, v) # r" by (cases ds) auto
  show ?case
  proof (cases p)
    case Nil
    then have "r = []" "table v = None" using Suc.prems ds by simp_all
    then have "get_path p' v = None" if "p' \<noteq> []" for p' using that by (cases p'; cases v) simp_all
    moreover have "nest (Suc n) ds = v" using Nil ds by simp
    ultimately show ?thesis using Nil ds \<open>r = []\<close> by (simp add: tree_of_def del: get_path.simps(2) nest.simps)
  next
    case (Cons k' q)
    let ?ks = "remdups (map (hd \<circ> fst) ds)"
    have ne: "\<forall>(p, v) \<in> set ds. p \<noteq> []" and sub: "\<And>k. k \<in> set ?ks \<Longrightarrow> nested n (under k ds)"
      using Suc.prems ds Cons by (auto simp: list_all_iff)
    have keys: "under k ds = [] \<longleftrightarrow> k \<notin> set ?ks" for k
    proof -
      have "under k ds = [] \<longleftrightarrow> (\<forall>d \<in> set ds. hd (fst d) \<noteq> k)" using ne by (auto simp: under_def filter_empty_conv)
      then show ?thesis by auto
    qed
    have "tree_of ds (CTable (map (\<lambda>k. (k, nest n (under k ds))) ?ks))"
    proof (rule tree_ofI)
      fix k
      have look: "map_of (map (\<lambda>k. (k, nest n (under k ds))) xs) k = (if k \<in> set xs then Some (nest n (under k ds)) else None)" for xs
        by (induction xs) auto
      show "if under k ds = [] then map_of (map (\<lambda>k. (k, nest n (under k ds))) ?ks) k = None
        else \<exists>b. map_of (map (\<lambda>k. (k, nest n (under k ds))) ?ks) k = Some b \<and> tree_of (under k ds) b"
        using keys[of k] Suc.IH[OF sub, of k] unfolding look by (simp split: if_split)
    next
      show "ds \<noteq> []" using ds by simp
    qed (rule ne)
    then show ?thesis using ds Cons by (simp del: map_map remdups.simps list.map)
  qed
qed simp

lemma defaults_nested: "nested (Suc (Suc (Suc (Suc 0)))) loader_defaults"
proof -
  let ?ks = "[''scheduler'', ''flows'', ''priorities'', ''backend'', ''metrics'', ''server'', ''backpressure'', ''retry_policy'', ''priority_policy'']"
  have ks: "remdups (map (hd \<circ> fst) loader_defaults) = ?ks" by (simp add: loader_defaults_def)
  have ne: "list_all (\<lambda>d. fst d \<noteq> []) loader_defaults" by (simp add: loader_defaults_def)
  obtain k q v r where d: "loader_defaults = (k # q, v) # r" unfolding loader_defaults_def by blast
  have "list_all (\<lambda>k. nested (Suc (Suc (Suc 0))) (under k loader_defaults)) ?ks"
    unfolding list.pred_inject defaults_under by (simp add: under_def)
  then show ?thesis
    unfolding nested.simps(2)[of "Suc (Suc (Suc 0))"] ks using ne unfolding d by simp
qed

definition ex_build :: "cval \<Rightarrow> (string list \<times> cval) list \<Rightarrow> string \<Rightarrow> cval option" where
  "ex_build tree ds file = (if ds = loader_defaults then Some tree else None)"

theorem load_defaults_agree_witness:
  "load (ex_reader ex_durations) ''0.0.0.0:8080'' (ex_build (nest (Suc (Suc (Suc (Suc 0)))) loader_defaults)) None
     = Inr (config_default, ''0.0.0.0:8080'')"
proof (rule load_defaults_agree[OF ex_reader_plain _ _ nest_tree[OF defaults_nested]])
  show "reads_defaults (ex_reader ex_durations) ''0.0.0.0:8080''"
    by (simp add: reads_defaults_def ex_reader_def ex_durations_def)
qed (simp add: ex_build_def)

theorem mode_name_refused_witness:
  "load (ex_reader ex_durations) ''0.0.0.0:8080''
     (ex_build (CTable [(''backpressure'', CTable [(''mode'', CStr ''fail_fast'')])])) (Some ''config.yaml'') = Inl Unreadable"
proof (rule mode_name_refused)
  show "ex_build (CTable [(''backpressure'', CTable [(''mode'', CStr ''fail_fast'')])]) loader_defaults ''config.yaml''
      = Some (CTable [(''backpressure'', CTable [(''mode'', CStr ''fail_fast'')])])" by (simp add: ex_build_def)
  show "rd_str (ex_reader ex_durations) (CStr ''fail_fast'') = Some ''fail_fast''" by (simp add: ex_reader_def)
qed simp_all

text \<open>A configuration with a deadline and a pressure ladder, and durations written in unary.\<close>

definition ex_config :: config where
  "ex_config = config_default\<lparr>cfg_request_timeout := Some (secs 60), cfg_scheduler := scheduler_default\<lparr>sc_kv_pressure :=
     \<lparr> kp_enabled = True, kp_thresholds = [\<lparr> th_at = lit (8/10), th_max_flows = 2 \<rparr>] \<rparr>\<rparr>\<rparr>"

definition ex_writer :: "string writer" where
  "ex_writer = \<lparr> wr_duration = (\<lambda>d. replicate d CHR ''x''), wr_url = (\<lambda>_. ''http://localhost:8000''), wr_addr = id \<rparr>"

theorem config_roundtrip_witness:
  "read_config (ex_reader (\<lambda>s. Some (length s))) ''any'' (write_config ex_writer (ex_config, ''[::]:80'')) = Some (ex_config, ''[::]:80'')"
proof (rule config_roundtrip[OF ex_reader_plain])
  show "config_fits ex_config"
    by (simp add: config_fits_def ex_config_def config_default_def backend_default_def transient_retry_default_def scheduler_default_def
        completion_bias_default_def flows_default_def priorities_default_def backpressure_default_def retry_policy_default_def
        priority_policy_default_def)
qed (simp_all add: ex_reader_def ex_writer_def ex_config_def config_default_def)

end
