(* ===== verification/Spec2Isabelle.thy ===== *)
theory Spec2Isabelle
  imports Metrics Exposition Cadence Identify Backpressure Monitor KvAdmission AdmissionLoop Overtaking Gateway Forwarding Races LoaderProps
begin

text \<open>
  tinyllb is a reverse proxy in front of one LLM backend (vLLM or llama.cpp).  Clients are grouped in flows;
  the proxy admits at most \<open>max_active_flows\<close> requests at a time and chooses the next one by deficit round
  robin, holds requests back under KV-cache pressure, forwards admitted requests, retries what
  failed for a passing reason, and charges the flows for the tokens they got.  This development models the
  Rust program under src/src/.

  The program and the theories, from the bottom up:

  - Numbers and data: Prelude (machine integers, time, hash maps as association lists), F64 (Rust's
    \<open>f64\<close>: binary64 with rounding to nearest even), Json (\<open>serde_json::Value\<close>), Metrics
    (metrics/mod.rs and the token-rate task of main.rs), Exposition (the collectors' names and the page of GET /metrics).
  - Configuration: Config (config/mod.rs and \<open>validate\<close>), Loader and LoaderProps (config/loader.rs and
    the serde attributes).
  - Flows: FlowCore (ids, records, priority tokens), Slots (flow/slots.rs), Registry (\<open>FlowRegistry\<close>), Cadence
    (flow/cadence.rs), Identify (flow/identify.rs), Races (operations on flows that are not atomic, and what is lost between their parts).
  - Scheduling policies: Backpressure, Progress (scheduler/flow_progress.rs), Selection (priority.rs), KvBias
    (kv_bias.rs), Gates (pressure_cap.rs, starvation.rs, completion_bias.rs), KvAdmission (kv_admission.rs).
  - The backend monitor: BackendParse (metrics text, slots), Monitor (poll loop, watchdog), Scrape (its requests).
  - The scheduler: Drr (drr.rs and ticket.rs, one definition per critical section), DrrProps (each of them),
    AdmissionLoop (the inner admission loop ends),
    DrrStep (their interleaving as a step relation), DrrSafety (what holds in every reachable state),
    Wakeup (the admission loop asleep and what wakes it), Overtaking (how long a starved flow still waits), Lifecycle (lifecycle.rs), Facade and FacadeProps (scheduler/mod.rs, api/flows.rs, api/queue.rs).
  - The proxy: Sse and Retry (scanners and decisions of gateway/retry.rs), RetryStream and RetryStreamProps
    (\<open>spawn_retry_stream\<close>), MetricStream (the plain stream), Request (headers, bodies, errors), Proxy and
    ProxyProps (\<open>proxy_handler\<close>), Forwarding (the requests that it sends to the backend).
  - The whole: RegistryLaws (what every operation does to the registry) and Gateway (main.rs, the routers, and
    the gateway as one step relation).

  State and effects.  A struct is a record with a field prefix, an enum a datatype.  What the code shares
  through locks, atomics and channels is the record \<open>sched\<close> (scheduler state, registry, metrics, reporting queue,
  progress tracker, last KV usage) inside \<open>scheduler\<close> (theory Facade).  A critical section is a function on
  it.  An async function is cut at its awaits: one definition for each piece, and a datatype for where it
  stopped (\<open>admit_outcome\<close>, \<open>started\<close>).  The interleavings are the step relations \<open>drr_step\<close> and
  \<open>gw_step\<close>, in which a request may be cancelled at every await.  Four operations are not one critical section, and
  each is the composition of its two: \<open>reap_idle\<close> (\<open>reap_candidates\<close>, \<open>reap_remove\<close>), \<open>register\<close>
  (\<open>register_found\<close>, \<open>register_insert\<close>), \<open>report_accounting\<close> (\<open>accounting_load\<close>, \<open>accounting_store\<close>) and the
  progress tracker's \<open>unregister\<close> (\<open>progress_subtract\<close>, \<open>progress_remove\<close>).  In the step relations a report's load and store are
  steps of their own, with any other steps between them, and the reaper removes what it collected at any earlier time.  As the model has
  one record for each flow, its runs are those in which no record in use is replaced: no reaper run removes a flow that a request has
  come to use since the run collected it, and no admin registration inserts a flow over one created since its lookup.  The
  code does not prevent these, and theory Races shows what is lost in them; for the tracker theory Progress does.  What comes from outside - the
  answers of the backend, chunks and their times, disconnecting clients, observations of a channel - is an
  argument: a function of the number of the attempt, or a list in the order in which the code looks at it.  Errors and
  early returns are values; a Rust panic is \<open>None\<close> or a constructor of its own.  Counters that wrap are words
  or are wrapped where they are changed; casts from floats saturate as in Rust.

  The groups of lemmas.  The numeric theories give exact bounds for the binary64 formulas.  Every component has its
  invariant and a lemma for every operation.  DrrStep and DrrSafety show by rule induction that permits
  are conserved, that no waiting request is lost or doubled, and that depths and activity counters are exact, and
  where the last fails: a ticket dropped between delivery and receipt.  AdmissionLoop bounds the rounds of the inner admission loop,
  grants and the doings of other tasks included; Wakeup shows that no wake-up of the
  loop is lost unless all waiting flows have weights below 1; Overtaking that a starved flow is overtaken a bounded number of times.  RetryStreamProps shows what the
  client of a retried stream can see and what its flow is charged.  ProxyProps shows that an admitted request ends exactly once whatever the backend
  answers and what a refused request leaves behind, and Forwarding that the backend only ever sees conforming requests.  Gateway shows that every run of the whole program is a run of \<open>drr_step\<close> (the rule \<open>outside\<close> is
  what the other components do beside it), so the guarantees of the scheduler hold in the composition.

  Interfaces.  \<open>keyed_store\<close> is the contract of the maps, \<open>preference\<close> that of a selection order,
  \<open>attempt_rule\<close> and \<open>loop_rule\<close> are the proof rules for the streaming task (interpreted for its
  bookkeeping, its retries, its closing and its accounts), \<open>outside_law\<close> and \<open>registry_law\<close> say which
  predicates on the registry survive which operations (interpreted for the scheduler's books and for the types of
  the records).

  Bounds and fuel.  \<open>admission_loop\<close> takes its number of iterations as fuel; AdmissionLoop gives a
  number that is enough from a well-formed state, for bounded costs and weights and a bounded number of arrivals, while deficits stay within 64 bits.
  \<open>retry_loop\<close> terminates by the retries that are left, and the re-forward loop by the attempts; both are total.  The 32-bit counters of waiting requests are exact while fewer
  than 2^32 requests wait, which the steps that add one require.  Times are natural numbers of nanoseconds.

  Not modelled: telemetry and log lines; the HTTP clients, the TCP listener and hyper (what they return is an argument);
  serde_json, url, humantime, uuid and the config crate (parameters, with what is needed of them as
  named hypotheses); memory exhaustion, and panics inside libraries; the text encoding of the metrics page; \<open>test_default\<close>, \<open>new_with_defaults\<close> and other
  constructors for tests.
\<close>

end
